(* ===== verification/Rust_Prelude.thy ===== *)
theory Rust_Prelude
  imports Main "HOL-Library.Word" "HOL-Library.Multiset"
begin

text \<open>
  Shared vocabulary of the development: the fragment of the Rust standard library that several
  components use, and the generic lemmas on it.

  A Rust \<^verbatim>\<open>str\<close> is a list of Unicode scalar values. It is modelled by \<^typ>\<open>string\<close>, read as the
  strings all of whose characters lie in U+0000 .. U+00FF; on that range the character functions
  below are the Unicode ones (white space, lower case), and lower-casing stays in the range.
  \<^verbatim>\<open>usize\<close> counters are \<^typ>\<open>nat\<close>; words are used where the width matters. A \<^verbatim>\<open>HashMap\<close> is a map,
  an insertion-ordered \<^verbatim>\<open>Vec\<close> without duplicates is a list grown by \<^verbatim>\<open>push_new\<close>.
\<close>

named_theorems rust_simps \<open>unfolding rules for the modelled standard library\<close>
named_theorems dedup_facts \<open>facts on duplicate-free accumulation\<close>

type_synonym u8 = "8 word"
type_synonym u16 = "16 word"
type_synonym u32 = "32 word"
type_synonym u64 = "64 word"
type_synonym bytes = "8 word list"

section \<open>Characters and strings\<close>

definition is_whitespace :: "char \<Rightarrow> bool" where
  "is_whitespace c = (let n = (of_char c :: nat) in
     (9 \<le> n \<and> n \<le> 13) \<or> n = 32 \<or> n = 133 \<or> n = 160)"

definition to_ascii_lower_char :: "char \<Rightarrow> char" where
  "to_ascii_lower_char c = (let n = (of_char c :: nat) in
     if 65 \<le> n \<and> n \<le> 90 then char_of (n + 32) else c)"

definition to_lower_char :: "char \<Rightarrow> char" where
  "to_lower_char c = (let n = (of_char c :: nat) in
     if (65 \<le> n \<and> n \<le> 90) \<or> (192 \<le> n \<and> n \<le> 222 \<and> n \<noteq> 215) then char_of (n + 32) else c)"

definition is_ascii_digit :: "char \<Rightarrow> bool" where
  "is_ascii_digit c = (let n = (of_char c :: nat) in 48 \<le> n \<and> n \<le> 57)"

definition to_digit16 :: "char \<Rightarrow> nat option" where
  "to_digit16 c = (let n = (of_char c :: nat) in
     if 48 \<le> n \<and> n \<le> 57 then Some (n - 48)
     else if 65 \<le> n \<and> n \<le> 70 then Some (n - 55)
     else if 97 \<le> n \<and> n \<le> 102 then Some (n - 87)
     else None)"

definition to_ascii_lowercase :: "string \<Rightarrow> string" where
  "to_ascii_lowercase s = map to_ascii_lower_char s"

definition to_lowercase :: "string \<Rightarrow> string" where
  "to_lowercase s = map to_lower_char s"

definition eq_ignore_ascii_case :: "string \<Rightarrow> string \<Rightarrow> bool" where
  "eq_ignore_ascii_case a b = (to_ascii_lowercase a = to_ascii_lowercase b)"

definition trim :: "string \<Rightarrow> string" where
  "trim s = rev (dropWhile is_whitespace (rev (dropWhile is_whitespace s)))"

fun split_on :: "char \<Rightarrow> string \<Rightarrow> string list" where
  "split_on c [] = [[]]"
| "split_on c (x # xs) =
     (if x = c then [] # split_on c xs
      else (case split_on c xs of [] \<Rightarrow> [[x]] | p # ps \<Rightarrow> (x # p) # ps))"

fun join :: "string \<Rightarrow> string list \<Rightarrow> string" where
  "join sep [] = []"
| "join sep [x] = x"
| "join sep (x # y # ys) = x @ sep @ join sep (y # ys)"

fun strip_prefix :: "string \<Rightarrow> string \<Rightarrow> string option" where
  "strip_prefix [] s = Some s"
| "strip_prefix (p # ps) [] = None"
| "strip_prefix (p # ps) (c # cs) = (if p = c then strip_prefix ps cs else None)"

section \<open>Iterators and collections\<close>

fun find_map :: "('a \<Rightarrow> 'b option) \<Rightarrow> 'a list \<Rightarrow> 'b option" where
  "find_map f [] = None"
| "find_map f (x # xs) = (case f x of Some y \<Rightarrow> Some y | None \<Rightarrow> find_map f xs)"

definition push_new :: "'a list \<Rightarrow> 'a \<Rightarrow> 'a list" where
  "push_new xs x = (if x \<in> set xs then xs else xs @ [x])"

definition extend_new :: "'a list \<Rightarrow> 'a list \<Rightarrow> 'a list" where
  "extend_new xs ys = foldl push_new xs ys"

definition or_insert :: "('k \<Rightarrow> 'v option) \<Rightarrow> 'k \<Rightarrow> 'v \<Rightarrow> ('k \<Rightarrow> 'v option)" where
  "or_insert m k v = (case m k of Some _ \<Rightarrow> m | None \<Rightarrow> m(k := Some v))"

definition or_else :: "'a option \<Rightarrow> 'a option \<Rightarrow> 'a option" where
  "or_else a b = (case a of Some x \<Rightarrow> Some x | None \<Rightarrow> b)"

text \<open>\<^verbatim>\<open>map.entry(k).or_default().push(v)\<close> on a map of lists, kept as its entries in insertion order.\<close>

fun entry_push :: "('k \<times> 'v list) list \<Rightarrow> 'k \<Rightarrow> 'v \<Rightarrow> ('k \<times> 'v list) list" where
  "entry_push [] k v = [(k, [v])]"
| "entry_push ((k', vs) # m) k v = (if k' = k then (k', vs @ [v]) # m else (k', vs) # entry_push m k v)"

section \<open>Facts on strings\<close>

lemma of_char_bound [simp]: "(of_char c :: nat) < 256"
  by (rule nat_of_char_less_256)

lemma to_ascii_lower_char_idem [simp]:
  "to_ascii_lower_char (to_ascii_lower_char c) = to_ascii_lower_char c"
  by (auto simp: to_ascii_lower_char_def Let_def of_char_of)

lemma to_lower_char_idem [simp]: "to_lower_char (to_lower_char c) = to_lower_char c"
  by (auto simp: to_lower_char_def Let_def of_char_of)

lemma to_lower_char_whitespace [simp]: "is_whitespace (to_lower_char c) = is_whitespace c"
  by (auto simp: is_whitespace_def to_lower_char_def Let_def of_char_of)

lemma to_ascii_lowercase_idem [simp]: "to_ascii_lowercase (to_ascii_lowercase s) = to_ascii_lowercase s"
  by (simp add: to_ascii_lowercase_def)

lemma to_lowercase_idem [simp]: "to_lowercase (to_lowercase s) = to_lowercase s"
  by (simp add: to_lowercase_def)

lemma to_ascii_lowercase_Nil_iff [simp]: "to_ascii_lowercase s = [] \<longleftrightarrow> s = []"
  by (simp add: to_ascii_lowercase_def)

lemma to_lowercase_Nil_iff [simp]: "to_lowercase s = [] \<longleftrightarrow> s = []"
  by (simp add: to_lowercase_def)

lemma trim_Nil [simp]: "trim [] = []"
  by (simp add: trim_def)

lemma dropWhile_dropWhile [simp]: "dropWhile P (dropWhile P xs) = dropWhile P xs"
  by (induction xs) auto

lemma dropWhile_map_inv:
  assumes "\<And>x. P (f x) = P x"
  shows "dropWhile P (map f xs) = map f (dropWhile P xs)"
  using assms by (induction xs) auto

lemma dropWhile_suffix: "\<exists>zs. xs = zs @ dropWhile P xs"
  by (metis takeWhile_dropWhile_id)

lemma dropWhile_rev_stable:
  assumes "dropWhile P xs = xs"
  shows "dropWhile P (rev (dropWhile P (rev xs))) = rev (dropWhile P (rev xs))"
proof (cases "dropWhile P (rev xs)")
  case (Cons y ys)
  obtain zs where "rev xs = zs @ dropWhile P (rev xs)"
    using dropWhile_suffix by blast
  then have xs: "xs = rev (dropWhile P (rev xs)) @ rev zs"
    by (metis rev_append rev_rev_ident)
  show ?thesis
  proof (cases "rev (dropWhile P (rev xs))")
    case (Cons a as)
    then have "xs = a # (as @ rev zs)" using xs by simp
    then have "\<not> P a" using assms
      by (metis dropWhile_eq_self_iff list.sel(1) list.simps(3))
    then show ?thesis using Cons by simp
  next
    case Nil
    then show ?thesis by (simp only: dropWhile.simps)
  qed
next
  case Nil
  then show ?thesis by (simp only: rev.simps dropWhile.simps)
qed

lemma trim_idem [simp]: "trim (trim s) = trim s"
proof -
  define t where "t = dropWhile is_whitespace s"
  have t: "dropWhile is_whitespace t = t" by (simp add: t_def)
  show ?thesis
    unfolding trim_def t_def [symmetric] by (simp add: dropWhile_rev_stable [OF t])
qed

lemma trim_to_lowercase: "trim (to_lowercase s) = to_lowercase (trim s)"
  by (simp add: trim_def to_lowercase_def dropWhile_map_inv rev_map)

lemma set_trim: "set (trim s) \<subseteq> set s"
  unfolding trim_def using set_dropWhileD by (fastforce dest: set_dropWhileD)

lemma split_on_not_Nil [simp]: "split_on c s \<noteq> []"
  by (induction s) (auto split: list.splits)

lemma join_split_on: "join [c] (split_on c s) = s"
proof (induction s)
  case (Cons x xs)
  obtain p ps where "split_on c xs = p # ps"
    by (cases "split_on c xs") auto
  with Cons show ?case by (cases ps) auto
qed simp

lemma split_on_no_sep: "p \<in> set (split_on c s) \<Longrightarrow> c \<notin> set p"
proof (induction s arbitrary: p)
  case (Cons x xs)
  obtain q qs where "split_on c xs = q # qs"
    by (cases "split_on c xs") auto
  with Cons show ?case by (auto split: if_splits)
qed simp

lemma strip_prefix_Some_iff: "strip_prefix p s = Some r \<longleftrightarrow> s = p @ r"
  by (induction p s rule: strip_prefix.induct) auto

lemma eq_ignore_ascii_case_refl [simp]: "eq_ignore_ascii_case a a"
  by (simp add: eq_ignore_ascii_case_def)

lemma eq_ignore_ascii_case_sym: "eq_ignore_ascii_case a b = eq_ignore_ascii_case b a"
  by (auto simp: eq_ignore_ascii_case_def)

section \<open>Facts on collections\<close>

lemma find_map_Some: "find_map f xs = Some y \<Longrightarrow> \<exists>x \<in> set xs. f x = Some y"
  by (induction xs) (auto split: option.splits)

lemma find_map_append: "find_map f (xs @ ys) = or_else (find_map f xs) (find_map f ys)"
  by (induction xs) (auto simp: or_else_def split: option.splits)

lemma find_map_None [simp]: "find_map f xs = None \<longleftrightarrow> (\<forall>x \<in> set xs. f x = None)"
  by (induction xs) (auto split: option.splits)

lemma set_push_new [simp, dedup_facts]: "set (push_new xs x) = insert x (set xs)"
  by (auto simp: push_new_def)

lemma distinct_push_new [simp, dedup_facts]: "distinct (push_new xs x) = distinct xs"
  by (auto simp: push_new_def)

lemma extend_new_Nil [simp]: "extend_new xs [] = xs"
  by (simp add: extend_new_def)

lemma extend_new_Cons [simp]: "extend_new xs (y # ys) = extend_new (push_new xs y) ys"
  by (simp add: extend_new_def)

lemma extend_new_append [simp]: "extend_new xs (ys @ zs) = extend_new (extend_new xs ys) zs"
  by (simp add: extend_new_def)

lemma set_extend_new [simp, dedup_facts]: "set (extend_new xs ys) = set xs \<union> set ys"
  by (induction ys arbitrary: xs) auto

lemma distinct_extend_new [simp, dedup_facts]: "distinct (extend_new xs ys) = distinct xs"
  by (induction ys arbitrary: xs) auto

lemma extend_new_subset: "set ys \<subseteq> set xs \<Longrightarrow> extend_new xs ys = xs"
  by (induction ys) (auto simp: push_new_def)

lemma or_insert_apply [simp]: "or_insert m k v x = (if x = k \<and> m k = None then Some v else m x)"
  by (auto simp: or_insert_def split: option.splits)

lemma or_insert_keeps: "m x = Some y \<Longrightarrow> or_insert m k v x = Some y"
  by auto

lemma or_else_simps [simp]:
  "or_else None b = b" "or_else (Some x) b = Some x" "or_else a None = a"
  by (auto simp: or_else_def split: option.splits)

lemma or_else_eq_None [simp]: "or_else a b = None \<longleftrightarrow> a = None \<and> b = None"
  by (auto simp: or_else_def split: option.splits)

definition entry_list :: "('k \<times> 'v list) list \<Rightarrow> 'k \<Rightarrow> 'v list" where
  "entry_list m k = (case map_of m k of None \<Rightarrow> [] | Some vs \<Rightarrow> vs)"

lemma entry_list_Nil [simp]: "entry_list [] k = []"
  by (simp add: entry_list_def)

lemma entry_list_push [simp]:
  "entry_list (entry_push m k v) k' = (if k' = k then entry_list m k @ [v] else entry_list m k')"
  by (induction m k v rule: entry_push.induct) (auto simp: entry_list_def)

lemma keys_entry_push [simp]: "fst ` set (entry_push m k v) = insert k (fst ` set m)"
  by (induction m k v rule: entry_push.induct) auto

lemma distinct_entry_push: "distinct (map fst m) \<Longrightarrow> distinct (map fst (entry_push m k v))"
proof (induction m k v rule: entry_push.induct)
  case (2 k' vs m k v)
  then show ?case using keys_entry_push [of m k v] by auto
qed simp

lemma entry_push_nonempty: "[] \<notin> snd ` set m \<Longrightarrow> [] \<notin> snd ` set (entry_push m k v)"
  by (induction m k v rule: entry_push.induct) auto

lemma entry_list_mem: "distinct (map fst m) \<Longrightarrow> (k, vs) \<in> set m \<Longrightarrow> entry_list m k = vs"
  by (simp add: entry_list_def)

lemma mem_entry_list: "k \<in> fst ` set m \<Longrightarrow> (k, entry_list m k) \<in> set m"
  by (auto simp: entry_list_def split: option.splits dest: map_of_SomeD)
    (metis map_of_eq_None_iff image_eqI fst_conv)

section \<open>Iteration order\<close>

text \<open>The order a hash map or hash set is visited in is not specified; it is some permutation of the entries.\<close>

definition permutes :: "('a list \<Rightarrow> 'a list) \<Rightarrow> bool" where
  "permutes visit \<longleftrightarrow> (\<forall>xs. mset (visit xs) = mset xs)"

lemma permutes_rev [simp]: "permutes rev" "permutes (\<lambda>xs. xs)"
  by (simp_all add: permutes_def)

lemma permutes_set: "permutes visit \<Longrightarrow> set (visit xs) = set xs"
  unfolding permutes_def by (metis set_mset_mset)

lemma permutes_distinct: "permutes visit \<Longrightarrow> distinct (visit xs) = distinct xs"
  unfolding permutes_def by (metis mset_eq_imp_distinct_iff)

end
