(* ===== verification/Ip_Addr.thy ===== *)
theory Ip_Addr
  imports Rust_Prelude
begin

text \<open>
  Addresses of \<^verbatim>\<open>std::net\<close> as the sources use them: the two families at their width, \<^verbatim>\<open>Display\<close>
  (dotted decimal; eight hexadecimal groups with the first longest run of two or more zero groups
  compressed, and the mapped form), and \<^verbatim>\<open>FromStr\<close> with the parser's own reading order.
\<close>

unbundle bit_operations_syntax

datatype IpAddr = V4 "32 word" | V6 "128 word"

fun is_v6 :: "IpAddr \<Rightarrow> bool" where
  "is_v6 (V4 a) = False"
| "is_v6 (V6 a) = True"

section \<open>Numerals\<close>

definition digit_char :: "nat \<Rightarrow> char" where
  "digit_char d = (if d < 10 then char_of (48 + d) else char_of (87 + d))"

fun show_radix :: "nat \<Rightarrow> nat \<Rightarrow> string" where
  "show_radix r n = (if r < 2 \<or> n < r then [digit_char n]
     else show_radix r (n div r) @ [digit_char (n mod r)])"

declare show_radix.simps [simp del]

definition show_nat :: "nat \<Rightarrow> string" where
  "show_nat n = show_radix 10 n"

section \<open>Display\<close>

definition v4_octets :: "32 word \<Rightarrow> nat list" where
  "v4_octets a = (let n = unat a in [n div 16777216, n div 65536 mod 256, n div 256 mod 256, n mod 256])"

definition show_v4 :: "32 word \<Rightarrow> string" where
  "show_v4 a = join ''.'' (map show_nat (v4_octets a))"

fun groups_of :: "nat \<Rightarrow> nat \<Rightarrow> nat list" where
  "groups_of 0 n = []"
| "groups_of (Suc k) n = groups_of k (n div 65536) @ [n mod 65536]"

definition v6_segments :: "128 word \<Rightarrow> nat list" where
  "v6_segments a = groups_of 8 (unat a)"

text \<open>The scan for the longest zero span: position, current span and best span, a later span
  replacing the best only when it is strictly longer.\<close>

fun zero_span :: "nat \<Rightarrow> nat list \<Rightarrow> nat \<times> nat \<Rightarrow> nat \<times> nat \<Rightarrow> nat \<times> nat" where
  "zero_span i [] cur best = best"
| "zero_span i (s # ss) cur best =
     (if s = 0 then
        let cur' = (if snd cur = 0 then (i, 1) else (fst cur, snd cur + 1));
            best' = (if snd cur' > snd best then cur' else best)
        in zero_span (Suc i) ss cur' best'
      else zero_span (Suc i) ss (0, 0) best)"

definition show_hex_groups :: "nat list \<Rightarrow> string" where
  "show_hex_groups ss = join '':'' (map (show_radix 16) ss)"

definition show_v6 :: "128 word \<Rightarrow> string" where
  "show_v6 a = (let ss = v6_segments a in
     if take 6 ss = [0, 0, 0, 0, 0, 65535]
     then ''::ffff:'' @ show_v4 (of_nat (unat a mod 4294967296))
     else let (st, len) = zero_span 0 ss (0, 0) (0, 0) in
       if len > 1 then show_hex_groups (take st ss) @ ''::'' @ show_hex_groups (drop (st + len) ss)
       else show_hex_groups ss)"

fun show_ip :: "IpAddr \<Rightarrow> string" where
  "show_ip (V4 a) = show_v4 a"
| "show_ip (V6 a) = show_v6 a"

section \<open>FromStr\<close>

text \<open>A reader takes the remaining input and returns the value with the rest, or nothing.\<close>

definition radix_digit :: "nat \<Rightarrow> char \<Rightarrow> nat option" where
  "radix_digit r c = (case to_digit16 c of None \<Rightarrow> None | Some d \<Rightarrow> if d < r then Some d else None)"

definition is_radix_digit :: "nat \<Rightarrow> char \<Rightarrow> bool" where
  "is_radix_digit r c = (radix_digit r c \<noteq> None)"

definition digits_value :: "nat \<Rightarrow> string \<Rightarrow> nat" where
  "digits_value r ds = foldl (\<lambda>acc c. acc * r + (case radix_digit r c of None \<Rightarrow> 0 | Some d \<Rightarrow> d)) 0 ds"

definition read_number :: "nat \<Rightarrow> nat \<Rightarrow> bool \<Rightarrow> nat \<Rightarrow> string \<Rightarrow> (nat \<times> string) option" where
  "read_number r max_digits allow_zero_prefix bound s =
     (let ds = takeWhile (is_radix_digit r) s; rest = dropWhile (is_radix_digit r) s; v = digits_value r ds in
      if length ds > max_digits then None
      else if ds = [] then None
      else if \<not> allow_zero_prefix \<and> hd ds = CHR ''0'' \<and> length ds > 1 then None
      else if v < bound then Some (v, rest) else None)"

fun read_char :: "char \<Rightarrow> string \<Rightarrow> string option" where
  "read_char c [] = None"
| "read_char c (x # xs) = (if x = c then Some xs else None)"

text \<open>The \<^verbatim>\<open>i\<close>-th item of a separated list: the separator is read only from the second item on.\<close>

definition read_separated ::
  "char \<Rightarrow> nat \<Rightarrow> (string \<Rightarrow> ('a \<times> string) option) \<Rightarrow> string \<Rightarrow> ('a \<times> string) option" where
  "read_separated c i p s =
     (if i = 0 then p s else (case read_char c s of None \<Rightarrow> None | Some r \<Rightarrow> p r))"

fun read_octets :: "nat \<Rightarrow> nat \<Rightarrow> string \<Rightarrow> (nat list \<times> string) option" where
  "read_octets 0 i s = Some ([], s)"
| "read_octets (Suc k) i s =
     (case read_separated CHR ''.'' i (read_number 10 3 False 256) s of
        None \<Rightarrow> None
      | Some (v, r) \<Rightarrow>
          (case read_octets k (Suc i) r of None \<Rightarrow> None | Some (vs, r') \<Rightarrow> Some (v # vs, r')))"

definition read_ipv4_addr :: "string \<Rightarrow> (nat \<times> string) option" where
  "read_ipv4_addr s = (case read_octets 4 0 s of
     Some ([a, b, c, d], r) \<Rightarrow> Some (a * 16777216 + b * 65536 + c * 256 + d, r)
   | _ \<Rightarrow> None)"

text \<open>\<^verbatim>\<open>read_groups\<close>: up to \<^verbatim>\<open>limit\<close> groups, an embedded IPv4 tail taking two; the flag says the tail was read.\<close>

fun read_groups :: "nat \<Rightarrow> nat \<Rightarrow> string \<Rightarrow> nat list \<times> bool \<times> string" where
  "read_groups 0 i s = ([], False, s)"
| "read_groups (Suc k) i s =
     (case (if k > 0 then read_separated CHR '':'' i read_ipv4_addr s else None) of
        Some (v, r) \<Rightarrow> ([v div 65536, v mod 65536], True, r)
      | None \<Rightarrow>
          (case read_separated CHR '':'' i (read_number 16 4 True 65536) s of
             None \<Rightarrow> ([], False, s)
           | Some (g, r) \<Rightarrow> (case read_groups k (Suc i) r of (gs, v4, r') \<Rightarrow> (g # gs, v4, r'))))"

definition groups_value :: "nat list \<Rightarrow> nat" where
  "groups_value gs = foldl (\<lambda>acc g. acc * 65536 + g) 0 gs"

definition read_ipv6_addr :: "string \<Rightarrow> (nat \<times> string) option" where
  "read_ipv6_addr s =
     (case read_groups 8 0 s of (hd_gs, v4, r) \<Rightarrow>
        if length hd_gs = 8 then Some (groups_value hd_gs, r)
        else if v4 then None
        else (case read_char CHR '':'' r of None \<Rightarrow> None | Some r1 \<Rightarrow>
               (case read_char CHR '':'' r1 of None \<Rightarrow> None | Some r2 \<Rightarrow>
                 (case read_groups (8 - (length hd_gs + 1)) 0 r2 of (tl_gs, _, r3) \<Rightarrow>
                    Some (groups_value (hd_gs @ replicate (8 - length hd_gs - length tl_gs) 0 @ tl_gs), r3)))))"

definition parse_ip :: "string \<Rightarrow> IpAddr option" where
  "parse_ip s = (case read_ipv4_addr s of
     Some (v, r) \<Rightarrow> (if r = [] then Some (V4 (of_nat v)) else None)
   | None \<Rightarrow> (case read_ipv6_addr s of
       Some (v, r) \<Rightarrow> (if r = [] then Some (V6 (of_nat v)) else None)
     | None \<Rightarrow> None))"

section \<open>Facts\<close>

lemma show_radix_not_Nil [simp]: "show_radix r n \<noteq> []"
  by (subst show_radix.simps) simp

lemma join_not_Nil: "x \<in> set xs \<Longrightarrow> x \<noteq> [] \<Longrightarrow> join sep xs \<noteq> []"
  by (induction sep xs rule: join.induct) auto

lemma show_v4_not_Nil [simp]: "show_v4 a \<noteq> []"
  by (auto simp: show_v4_def v4_octets_def Let_def show_nat_def)

end
