(* ===== verification/Float64.thy ===== *)
theory Float64
  imports Rust_Prelude "HOL-Library.Log_Nat"
begin

text \<open>
  Rust's \<^verbatim>\<open>f64\<close> as the confidence and correlation arithmetic uses it: IEEE 754 binary64 with
  round-to-nearest, ties to even. A finite value is the rational it denotes, so every operation
  is the exact rational result followed by \<^verbatim>\<open>round64\<close>, which picks the nearest multiple of the
  unit in the last place, keeps subnormals and overflows to an infinity. The two zeros are one
  value: no modelled code divides by a zero or inspects a sign bit. A decimal literal of the source
  is the rounding of the rational it spells.
\<close>

datatype f64 = Fin rat | PInf | NInf | NaN

section \<open>Rounding\<close>

definition round_half_even :: "rat \<Rightarrow> int" where
  "round_half_even x =
     (let f = \<lfloor>x\<rfloor>; d = x - of_int f in
      if d < 1 / 2 then f else if d > 1 / 2 then f + 1 else if even f then f else f + 1)"

definition pow2 :: "int \<Rightarrow> rat" where
  "pow2 e = (if 0 \<le> e then 2 ^ nat e else 1 / 2 ^ nat (- e))"

definition exponent_of :: "rat \<Rightarrow> int" where
  "exponent_of x =
     (let (p, q) = quotient_of x; e = bitlen p - bitlen q in
      if pow2 e \<le> x then e else e - 1)"

definition round64 :: "rat \<Rightarrow> f64" where
  "round64 x =
     (if x = 0 then Fin 0
      else let a = \<bar>x\<bar>; e = max (exponent_of a) (- 1022); u = pow2 (e - 52);
               r = of_int (round_half_even (a / u)) * u
           in if pow2 1024 \<le> r then (if 0 < x then PInf else NInf)
              else Fin (if 0 < x then r else - r))"

section \<open>Operations\<close>

fun fadd :: "f64 \<Rightarrow> f64 \<Rightarrow> f64" where
  "fadd (Fin x) (Fin y) = round64 (x + y)"
| "fadd NaN y = NaN"
| "fadd x NaN = NaN"
| "fadd PInf NInf = NaN"
| "fadd NInf PInf = NaN"
| "fadd PInf y = PInf"
| "fadd x PInf = PInf"
| "fadd NInf y = NInf"
| "fadd x NInf = NInf"

fun fneg :: "f64 \<Rightarrow> f64" where
  "fneg (Fin x) = Fin (- x)"
| "fneg PInf = NInf"
| "fneg NInf = PInf"
| "fneg NaN = NaN"

definition fsub :: "f64 \<Rightarrow> f64 \<Rightarrow> f64" where
  "fsub x y = fadd x (fneg y)"

fun fmul :: "f64 \<Rightarrow> f64 \<Rightarrow> f64" where
  "fmul (Fin x) (Fin y) = round64 (x * y)"
| "fmul NaN y = NaN"
| "fmul x NaN = NaN"
| "fmul (Fin x) PInf = (if x = 0 then NaN else if 0 < x then PInf else NInf)"
| "fmul (Fin x) NInf = (if x = 0 then NaN else if 0 < x then NInf else PInf)"
| "fmul PInf (Fin x) = (if x = 0 then NaN else if 0 < x then PInf else NInf)"
| "fmul NInf (Fin x) = (if x = 0 then NaN else if 0 < x then NInf else PInf)"
| "fmul PInf PInf = PInf"
| "fmul NInf NInf = PInf"
| "fmul PInf NInf = NInf"
| "fmul NInf PInf = NInf"

text \<open>Comparisons are false as soon as one side is a NaN, as in IEEE 754 and Rust.\<close>

fun fle :: "f64 \<Rightarrow> f64 \<Rightarrow> bool" where
  "fle (Fin x) (Fin y) = (x \<le> y)"
| "fle NaN y = False"
| "fle x NaN = False"
| "fle NInf y = True"
| "fle x PInf = True"
| "fle PInf y = False"
| "fle x NInf = False"

fun flt :: "f64 \<Rightarrow> f64 \<Rightarrow> bool" where
  "flt (Fin x) (Fin y) = (x < y)"
| "flt NaN y = False"
| "flt x NaN = False"
| "flt NInf NInf = False"
| "flt PInf PInf = False"
| "flt NInf y = True"
| "flt x PInf = True"
| "flt PInf y = False"
| "flt x NInf = False"

definition feq :: "f64 \<Rightarrow> f64 \<Rightarrow> bool" where
  "feq x y = (x = y \<and> x \<noteq> NaN)"

fun is_finite :: "f64 \<Rightarrow> bool" where
  "is_finite (Fin x) = True"
| "is_finite x = False"

text \<open>\<^verbatim>\<open>f64::min\<close> returns the other operand when one is a NaN; \<^verbatim>\<open>f64::clamp\<close> keeps a NaN.\<close>

definition fmin :: "f64 \<Rightarrow> f64 \<Rightarrow> f64" where
  "fmin x y = (if x = NaN then y else if y = NaN then x else if fle x y then x else y)"

definition fclamp :: "f64 \<Rightarrow> f64 \<Rightarrow> f64 \<Rightarrow> f64" where
  "fclamp x lo hi = (if flt x lo then lo else if flt hi x then hi else x)"

definition f64_of_nat :: "nat \<Rightarrow> f64" where
  "f64_of_nat n = round64 (of_nat n)"

section \<open>Facts\<close>

fun nonneg :: "f64 \<Rightarrow> bool" where
  "nonneg (Fin x) = (0 \<le> x)"
| "nonneg PInf = True"
| "nonneg x = False"

lemma pow2_pos [simp]: "0 < pow2 e"
  by (simp add: pow2_def)

lemma pow2_0 [simp]: "pow2 0 = 1"
  by (simp add: pow2_def)

lemma round_half_even_nonneg: "0 \<le> x \<Longrightarrow> 0 \<le> round_half_even x"
  by (auto simp: round_half_even_def Let_def intro: add_nonneg_nonneg)

lemma round_half_even_int [simp]: "round_half_even (of_int n) = n"
  by (simp add: round_half_even_def)

lemma round_half_even_mono: "x \<le> y \<Longrightarrow> round_half_even x \<le> round_half_even y"
proof -
  assume le: "x \<le> y"
  have fl: "\<lfloor>x\<rfloor> \<le> \<lfloor>y\<rfloor>" using le by (rule floor_mono)
  have bounds: "\<lfloor>z\<rfloor> \<le> round_half_even z \<and> round_half_even z \<le> \<lfloor>z\<rfloor> + 1" for z :: rat
    by (simp add: round_half_even_def Let_def)
  show ?thesis
  proof (cases "\<lfloor>x\<rfloor> = \<lfloor>y\<rfloor>")
    case True
    with le show ?thesis by (auto simp: round_half_even_def Let_def)
  next
    case False
    with fl have "\<lfloor>x\<rfloor> + 1 \<le> \<lfloor>y\<rfloor>" by simp
    then show ?thesis using bounds [of x] bounds [of y] by linarith
  qed
qed

lemma round64_0 [simp]: "round64 0 = Fin 0"
  by (simp add: round64_def)

lemma round64_not_NaN [simp]: "round64 x \<noteq> NaN" "NaN \<noteq> round64 x"
  by (auto simp: round64_def Let_def)

lemma nonneg_round64: "0 \<le> x \<Longrightarrow> nonneg (round64 x)"
  by (auto simp: round64_def Let_def intro!: mult_nonneg_nonneg round_half_even_nonneg
      divide_nonneg_nonneg less_imp_le [OF pow2_pos])

lemma nonneg_not_NaN: "nonneg x \<Longrightarrow> x \<noteq> NaN"
  by auto

lemma nonneg_fadd: "nonneg x \<Longrightarrow> nonneg y \<Longrightarrow> nonneg (fadd x y)"
  by (cases x; cases y) (auto intro: nonneg_round64)

lemma nonneg_fmul: "nonneg (Fin x) \<Longrightarrow> nonneg (Fin y) \<Longrightarrow> nonneg (fmul (Fin x) (Fin y))"
  by (auto intro: nonneg_round64)

lemma nonneg_f64_of_nat [simp]: "nonneg (f64_of_nat n)"
  by (simp add: f64_of_nat_def nonneg_round64)

lemma fmin_unit:
  assumes "nonneg x"
  shows "\<exists>r. fmin x (Fin 1) = Fin r \<and> 0 \<le> r \<and> r \<le> 1"
  using assms by (cases x) (auto simp: fmin_def)

lemma fclamp_unit:
  assumes "x \<noteq> NaN"
  shows "\<exists>r. fclamp x (Fin 0) (Fin 1) = Fin r \<and> 0 \<le> r \<and> r \<le> 1"
  using assms by (cases x) (auto simp: fclamp_def)

lemma fle_refl [simp]: "fle (Fin x) (Fin x)"
  by simp

lemma round64_neg: "x \<noteq> 0 \<Longrightarrow> round64 (- x) = fneg (round64 x)"
  by (auto simp: round64_def Let_def)

subsection \<open>Evaluating a rounding\<close>

text \<open>
  Computing \<^verbatim>\<open>exponent_of\<close> from the quotient is slow in the kernel. Where the binade of an
  argument is known, the rounding is one \<^verbatim>\<open>round_half_even\<close> of a numeral fraction.
\<close>

lemma pow2_add: "pow2 (a + b) = pow2 a * pow2 b"
proof -
  have step: "pow2 (k + 1) = 2 * pow2 k" for k
  proof (cases "0 \<le> k")
    case True
    then show ?thesis by (simp add: pow2_def nat_add_distrib)
  next
    case False
    then have "nat (- k) = Suc (nat (- (k + 1)))" by simp
    then show ?thesis using False by (auto simp: pow2_def)
  qed
  have prev: "pow2 (k - 1) = pow2 k / 2" for k
    using step [of "k - 1"] by simp
  show ?thesis
  proof (induction b rule: int_induct [where k = 0])
    case base
    then show ?case by simp
  next
    case (step1 i)
    then show ?case using step [of "a + i"] step [of i] by (simp add: add.assoc)
  next
    case (step2 i)
    have "pow2 (a + (i - 1)) = pow2 (a + i) / 2"
      using prev [of "a + i"] by (simp only: add_diff_eq)
    then show ?case using step2 prev [of i] by (simp only: times_divide_eq_right)
  qed
qed

lemma pow2_gt_1: "0 < d \<Longrightarrow> 1 < pow2 d"
  by (simp add: pow2_def)

lemma pow2_strict_mono: "a < b \<Longrightarrow> pow2 a < pow2 b"
  using pow2_add [of a "b - a"] pow2_gt_1 [of "b - a"] by simp

lemma pow2_less_iff [simp]: "pow2 a < pow2 b \<longleftrightarrow> a < b"
  by (metis linorder_neqE_linordered_idom order_less_asym order_less_irrefl pow2_strict_mono)

lemma pow2_le_iff [simp]: "pow2 a \<le> pow2 b \<longleftrightarrow> a \<le> b"
  by (simp add: linorder_not_less [symmetric])

lemma bitlen_pow2_bounds:
  assumes "0 < p"
  shows "pow2 (bitlen p - 1) \<le> of_int p" "of_int p < pow2 (bitlen p)"
proof -
  have b: "0 < bitlen p" using assms bitlen_eq_zero_iff [of p] bitlen_nonneg [of p] by linarith
  have "2 ^ nat (bitlen p - 1) \<le> p \<and> p < 2 ^ nat (bitlen p)"
    using bitlen_bounds [OF assms] by simp
  then have "(of_int (2 ^ nat (bitlen p - 1)) :: rat) \<le> of_int p"
    and "(of_int p :: rat) < of_int (2 ^ nat (bitlen p))"
    by (simp_all only: of_int_le_iff of_int_less_iff)
  then show "pow2 (bitlen p - 1) \<le> of_int p" "of_int p < pow2 (bitlen p)"
    using b by (simp_all add: pow2_def)
qed

lemma exponent_of_eq:
  assumes lo: "pow2 e \<le> a" and hi: "a < pow2 (e + 1)"
  shows "exponent_of a = e"
proof -
  have a: "0 < a" using lo pow2_pos [of e] by linarith
  obtain p q where pq: "quotient_of a = (p, q)" by fastforce
  have q: "0 < q" using quotient_of_denom_pos [OF pq] .
  have eq: "a = of_int p / of_int q" using quotient_of_div [OF pq] .
  have p: "0 < p" using a q eq by (simp add: zero_less_divide_iff)
  let ?d = "bitlen p - bitlen q"
  have split: "pow2 (x + y) = pow2 x * pow2 y" for x y by (rule pow2_add)
  have "of_int p < pow2 (bitlen p)" "pow2 (bitlen q - 1) \<le> of_int q"
    using bitlen_pow2_bounds [OF p] bitlen_pow2_bounds [OF q] by auto
  moreover have "pow2 (bitlen p) = pow2 (?d + 1) * pow2 (bitlen q - 1)"
    using split [of "?d + 1" "bitlen q - 1"] by simp
  ultimately have "of_int p < pow2 (?d + 1) * of_int q"
    by (metis less_le_trans mult_le_cancel_left_pos pow2_pos)
  then have up: "a < pow2 (?d + 1)" using q eq by (simp add: divide_less_eq)
  have "pow2 (bitlen p - 1) \<le> of_int p" "of_int q < pow2 (bitlen q)"
    using bitlen_pow2_bounds [OF p] bitlen_pow2_bounds [OF q] by auto
  moreover have "pow2 (bitlen p - 1) = pow2 (?d - 1) * pow2 (bitlen q)"
    using split [of "?d - 1" "bitlen q"] by simp
  ultimately have "pow2 (?d - 1) * of_int q < of_int p"
    by (metis less_le_trans mult_less_cancel_left_pos pow2_pos)
  then have down: "pow2 (?d - 1) < a" using q eq by (simp add: less_divide_eq)
  have "e < ?d + 1" "?d - 1 < e + 1"
    using lo hi up down by (meson less_trans le_less_trans pow2_less_iff)+
  moreover have "pow2 ?d \<le> a \<Longrightarrow> ?d < e + 1"
    using hi by (meson le_less_trans pow2_less_iff)
  moreover have "\<not> pow2 ?d \<le> a \<Longrightarrow> e < ?d"
    using lo by (meson le_less_trans not_le pow2_less_iff)
  ultimately have "(if pow2 ?d \<le> a then ?d else ?d - 1) = e" by auto
  then show ?thesis by (simp add: exponent_of_def pq)
qed

lemma pow2_of_53: "pow2 53 = 2 ^ 53"
  by (simp add: pow2_def)

lemma floor_rat_numeral [simp]:
  "\<lfloor>(numeral a :: rat) / numeral b\<rfloor> = numeral a div numeral b"
  by (metis floor_divide_of_int_eq of_int_numeral)

lemma round64_binade:
  assumes lo: "pow2 e \<le> x" and hi: "x < pow2 (e + 1)" and e: "- 1022 \<le> e" "e \<le> 1022"
  shows "round64 x = Fin (of_int (round_half_even (x / pow2 (e - 52))) * pow2 (e - 52))"
proof -
  let ?u = "pow2 (e - 52)"
  have x: "0 < x" using lo pow2_pos [of e] by linarith
  have top: "pow2 (e + 1) = 2 ^ 53 * ?u"
    using pow2_add [of 53 "e - 52"] pow2_of_53 by (simp add: add.commute)
  have "x / ?u \<le> of_int (2 ^ 53)" using hi top by (simp add: divide_le_eq)
  then have "round_half_even (x / ?u) \<le> 2 ^ 53"
    using round_half_even_mono [of "x / ?u" "of_int (2 ^ 53)"]
    by (simp only: round_half_even_int)
  then have "(of_int (round_half_even (x / ?u)) :: rat) \<le> of_int (2 ^ 53)"
    by (simp only: of_int_le_iff)
  then have "of_int (round_half_even (x / ?u)) * ?u \<le> pow2 (e + 1)"
    unfolding top using mult_right_mono [of _ "2 ^ 53" ?u] by (simp add: less_imp_le)
  also have "\<dots> < pow2 1024" using e by simp
  finally show ?thesis
    using x e exponent_of_eq [OF lo hi] by (simp add: round64_def Let_def)
qed

end
