(* ===== verification/Device_Model.thy ===== *)
theory Device_Model
  imports Ip_Addr Float64
begin

text \<open>
  The data every stage exchanges: \<^verbatim>\<open>rastreo-core/src/model\<close> (targets, probe outcomes and signals,
  device and link records, scan provenance) and the error values of \<^verbatim>\<open>rastreo-core/src/error.rs\<close>
  and \<^verbatim>\<open>sink/mod.rs\<close>. A timestamp is an integer number of nanoseconds around the Unix epoch. An
  error value keeps the variant and its literal text; values interpolated into a message and the
  wrapped errors of third-party crates are kept only as far as the code inspects them.
\<close>

section \<open>Errors\<close>

datatype SinkErrorClass = PublishFailure | AckRejection | ProduceFailure | WriteFailure | FlushFailure | OtherClass

definition sink_error_class_all :: "SinkErrorClass list" where
  "sink_error_class_all = [PublishFailure, AckRejection, ProduceFailure, WriteFailure, FlushFailure, OtherClass]"

fun sink_error_class_index :: "SinkErrorClass \<Rightarrow> nat" where
  "sink_error_class_index PublishFailure = 0"
| "sink_error_class_index AckRejection = 1"
| "sink_error_class_index ProduceFailure = 2"
| "sink_error_class_index WriteFailure = 3"
| "sink_error_class_index FlushFailure = 4"
| "sink_error_class_index OtherClass = 5"

datatype ConfigError =
    InvalidValue string
  | UnknownProbeKind string string
  | ProbeKindNotCompiled string string
  | ProbeKindMissingParam string string
  | EmptyProbeSelection
  | UnknownFuserKind string string
  | FuserKindNotCompiled string string
  | UnknownClassifierKind string string

datatype ProbeErrorKind = AuthFailed | PermissionDenied | DnsFailed | DecodeFailed | OtherFault

text \<open>A failed lookup carries hickory's own verdict whether the answer was "no records".\<close>

datatype ResolverError =
    DnsLookupFailed string bool
  | DnsNoRecords string
  | UnqueryableTargetName string
  | CidrTooLarge string nat nat
  | RangeTooLarge string string nat nat
  | InvalidRange string string
  | MixedFamilyRange string string
  | TargetNotAllowed IpAddr
  | AggregateHostCapExceeded nat nat

datatype EncoderError = SerializationFailed | NotSupported string | EncoderOther string

datatype RuntimeError = TaskPanicked string | TaskAborted string

datatype ClassifierError = InvalidRegex string | InvalidPlatformRule string | InvalidRoleRule string

datatype ResumeError =
    IdentityFuserNotResumable
  | SecondStreamProberNotResumable string
  | SinkNotResumable string
  | FingerprintMismatch
  | NoCheckpointToResume string
  | CorruptCheckpoint string
  | UnknownVersion u32 u32
  | CheckpointExists string
  | Persist string

record SinkError =
  se_class :: SinkErrorClass
  se_source :: string

datatype RastreoError =
    EConfig ConfigError
  | EProbe string
  | EResolver ResolverError
  | EEncoder EncoderError
  | ESink SinkError
  | ERuntime RuntimeError
  | EClassifier ClassifierError
  | EResume ResumeError
  | EReport string

fun sink_error_class :: "RastreoError \<Rightarrow> SinkErrorClass option" where
  "sink_error_class (ESink e) = Some (se_class e)"
| "sink_error_class _ = None"

type_synonym 'a result = "RastreoError + 'a"

section \<open>Probe kinds\<close>

datatype ProbeKind = TcpConnect | Udp | Http | Dns | Snmp | Arp | Ndp | Ssh | Icmp | Tls | ReverseDns | Gnmi | Lldp

definition probe_kind_all :: "ProbeKind list" where
  "probe_kind_all = [TcpConnect, Udp, Http, Dns, Snmp, Arp, Ndp, Ssh, Icmp, Tls, ReverseDns, Gnmi, Lldp]"

fun probe_kind_index :: "ProbeKind \<Rightarrow> nat" where
  "probe_kind_index TcpConnect = 0"
| "probe_kind_index Udp = 1"
| "probe_kind_index Http = 2"
| "probe_kind_index Dns = 3"
| "probe_kind_index Snmp = 4"
| "probe_kind_index Arp = 5"
| "probe_kind_index Ndp = 6"
| "probe_kind_index Ssh = 7"
| "probe_kind_index Icmp = 8"
| "probe_kind_index Tls = 9"
| "probe_kind_index ReverseDns = 10"
| "probe_kind_index Gnmi = 11"
| "probe_kind_index Lldp = 12"

fun probe_kind_label :: "ProbeKind \<Rightarrow> string" where
  "probe_kind_label TcpConnect = ''tcp_connect''"
| "probe_kind_label Udp = ''udp''"
| "probe_kind_label Http = ''http''"
| "probe_kind_label Dns = ''dns''"
| "probe_kind_label Snmp = ''snmp''"
| "probe_kind_label Arp = ''arp''"
| "probe_kind_label Ndp = ''ndp''"
| "probe_kind_label Ssh = ''ssh''"
| "probe_kind_label Icmp = ''icmp''"
| "probe_kind_label Tls = ''tls''"
| "probe_kind_label ReverseDns = ''reverse_dns''"
| "probe_kind_label Gnmi = ''gnmi''"
| "probe_kind_label Lldp = ''lldp''"

definition from_label :: "('k \<Rightarrow> string) \<Rightarrow> 'k list \<Rightarrow> string \<Rightarrow> 'k option" where
  "from_label label ks s = find (\<lambda>k. label k = s) ks"

section \<open>Signals and outcomes\<close>

datatype Signal =
    OpenPort u16
  | HttpBanner string
  | SnmpSysObjectId string
  | SnmpSysDescr string
  | Mac string
  | DnsHost string
  | NtpBanner string
  | SipUserAgent string
  | MemcachedVersion string
  | StunMappedAddress string
  | SnmpSysName string
  | SshBanner string
  | SshHostKey string
  | IcmpEchoRttMicros u64
  | TlsSubject string
  | TlsSanName string
  | TlsProtocolVersion string
  | TlsCipherSuite string
  | TlsAlpn string
  | ReverseDnsName string
  | GnmiVersion string
  | GnmiSupportedModel string
  | GnmiSupportedEncoding string
  | GnmiState string string

record ProbeFault =
  pf_kind :: ProbeErrorKind
  pf_detail :: string

record LldpNeighbor =
  nb_local_port :: string
  nb_remote_chassis_id :: string
  nb_remote_chassis_subtype :: u32
  nb_remote_port_id :: string
  nb_remote_port_subtype :: u32
  nb_remote_port_desc :: "string option"
  nb_remote_sys_name :: "string option"

record LldpObservation =
  lo_local_chassis_id :: string
  lo_local_chassis_subtype :: u32
  lo_neighbors :: "LldpNeighbor list"
  lo_discovered_via :: string

datatype Transport = TransportTls | Plaintext

record GnmiEndpoint =
  ge_port :: u16
  ge_transport :: Transport
  ge_advertised_encodings :: "string list"

type_synonym system_time = int

definition UNIX_EPOCH :: system_time where
  "UNIX_EPOCH = 0"

record ProbeOutcome =
  po_kind :: ProbeKind
  po_target_ip :: IpAddr
  po_timestamp :: system_time
  po_reachable :: bool
  po_signals :: "Signal list"
  po_fault :: "ProbeFault option"
  po_lldp :: "LldpObservation option"
  po_gnmi_endpoint :: "GnmiEndpoint option"

section \<open>Provenance and device records\<close>

record ScanMetadata =
  sm_scan_id :: string
  sm_scenario_name :: "string option"
  sm_initiated_at :: system_time
  sm_source_config_hash :: "string option"

definition scan_metadata_default :: ScanMetadata where
  "scan_metadata_default = \<lparr>sm_scan_id = [], sm_scenario_name = None, sm_initiated_at = UNIX_EPOCH,
     sm_source_config_hash = None\<rparr>"

datatype IdentityKey = IdentityKey string

definition identity_key_new :: "string \<Rightarrow> ConfigError + IdentityKey" where
  "identity_key_new s = (let trimmed = trim s in
     if trimmed = [] then Inl (InvalidValue ''identity key cannot be empty'')
     else Inr (IdentityKey (to_lowercase trimmed)))"

fun identity_key_as_str :: "IdentityKey \<Rightarrow> string" where
  "identity_key_as_str (IdentityKey s) = s"

datatype Confidence = Confidence f64

definition confidence_new :: "f64 \<Rightarrow> ConfigError + Confidence" where
  "confidence_new v = (if is_finite v \<and> fle (Fin 0) v \<and> fle v (Fin 1) then Inr (Confidence v)
     else Inl (InvalidValue ''confidence must be finite and in [0.0, 1.0]''))"

fun confidence_value :: "Confidence \<Rightarrow> f64" where
  "confidence_value (Confidence v) = v"

datatype AltIpRole = Secondary | Loopback | Vrrp | Hsrp | Carp | Anycast | Vip

record AltIp =
  alt_address :: IpAddr
  alt_role :: "AltIpRole option"
  alt_responded_via :: "ProbeKind list"

record DeviceRecord =
  dr_identity_key :: IdentityKey
  dr_mgmt_ip :: "IpAddr option"
  dr_mac :: "string option"
  dr_manufacturer :: "string option"
  dr_model :: "string option"
  dr_product_family :: "string option"
  dr_platform :: "string option"
  dr_os_version :: "string option"
  dr_ssh_version :: "string option"
  dr_http_server :: "string option"
  dr_http_version :: "string option"
  dr_role :: "string option"
  dr_confidence :: Confidence
  dr_last_seen :: system_time
  dr_signals :: "Signal list"
  dr_probe_kinds :: "ProbeKind list"
  dr_schema_version :: string
  dr_schema_id :: string
  dr_alt_ips :: "AltIp list"
  dr_possible_alias_of :: "IdentityKey option"
  dr_scan_metadata :: ScanMetadata

definition CURRENT_SCHEMA_VERSION :: string where
  "CURRENT_SCHEMA_VERSION = ''v1''"

definition CURRENT_SCHEMA_ID :: string where
  "CURRENT_SCHEMA_ID = ''https://davidban77.github.io/rastreo/schemas/device-record-v1.json''"

section \<open>Links\<close>

record LinkEndpoint =
  le_identity_key :: "string option"
  le_chassis_id :: string
  le_sys_name :: "string option"
  le_port :: string

record LinkRecord =
  lr_schema_version :: string
  lr_schema_id :: string
  lr_a :: LinkEndpoint
  lr_b :: LinkEndpoint
  lr_discovered_via :: string
  lr_observed_at :: system_time
  lr_scan_metadata :: ScanMetadata

definition LINK_SCHEMA_ID :: string where
  "LINK_SCHEMA_ID = ''https://davidban77.github.io/rastreo/schemas/link-record-v1.json''"

definition LINK_CURRENT_SCHEMA_VERSION :: string where
  "LINK_CURRENT_SCHEMA_VERSION = ''v1''"

section \<open>Facts\<close>

lemma sink_error_class_all_nth: "sink_error_class_all ! sink_error_class_index c = c"
  by (cases c) (simp_all add: sink_error_class_all_def)

lemma sink_error_class_index_bound [simp]: "sink_error_class_index c < 6"
  by (cases c) simp_all

lemma sink_error_class_index_inj: "sink_error_class_index c = sink_error_class_index d \<longleftrightarrow> c = d"
  by (cases c; cases d) simp_all

lemma probe_kind_all_nth: "probe_kind_all ! probe_kind_index k = k"
  by (cases k) (simp_all add: probe_kind_all_def)

lemma probe_kind_index_bound [simp]: "probe_kind_index k < 13"
  by (cases k) simp_all

lemma probe_kind_index_inj [simp]: "probe_kind_index k = probe_kind_index l \<longleftrightarrow> k = l"
  by (metis probe_kind_all_nth)

lemma set_probe_kind_all [simp]: "set probe_kind_all = UNIV"
proof -
  have "k \<in> set probe_kind_all" for k
    by (cases k) (simp_all add: probe_kind_all_def)
  then show ?thesis by blast
qed

lemma distinct_probe_kind_all [simp]: "distinct probe_kind_all"
  by (simp add: probe_kind_all_def)

lemma from_label_inverse:
  assumes "k \<in> set ks" "inj_on label (set ks)"
  shows "from_label label ks (label k) = Some k"
proof -
  obtain j where j: "from_label label ks (label k) = Some j"
    using assms(1) by (cases "from_label label ks (label k)") (auto simp: from_label_def find_None_iff)
  then have "j \<in> set ks" "label j = label k"
    by (auto simp: from_label_def find_Some_iff)
  with assms j show ?thesis by (auto dest: inj_onD)
qed

text \<open>An identity key in the record is never empty, is trimmed and is lower case.\<close>

lemma identity_key_new_canonical:
  assumes "identity_key_new s = Inr k"
  shows "identity_key_as_str k \<noteq> []" "trim (identity_key_as_str k) = identity_key_as_str k"
    "to_lowercase (identity_key_as_str k) = identity_key_as_str k"
  using assms by (auto simp: identity_key_new_def Let_def trim_to_lowercase split: if_splits)

lemma confidence_new_unit:
  "confidence_new v = Inr c \<Longrightarrow> \<exists>r. c = Confidence (Fin r) \<and> 0 \<le> r \<and> r \<le> 1"
  by (cases v) (auto simp: confidence_new_def split: if_splits)

lemma confidence_new_Fin: "0 \<le> r \<Longrightarrow> r \<le> 1 \<Longrightarrow> confidence_new (Fin r) = Inr (Confidence (Fin r))"
  by (simp add: confidence_new_def)

end
