(* ===== verification/Identity_Keys.thy ===== *)
theory Identity_Keys
  imports Device_Model
begin

unbundle bit_operations_syntax

text \<open>
  The canonical forms records are correlated by: \<^verbatim>\<open>fuser/keys.rs\<close> (MAC addresses and system names),
  \<^verbatim>\<open>oid.rs\<close> (dotted-decimal object identifiers) and the MAC helpers at the end of
  \<^verbatim>\<open>fuser/identity.rs\<close> (virtual-router prefixes and the role they give an address). The lemmas say
  which spellings of a MAC address the helpers identify, and that every helper agrees on them.
\<close>

section \<open>Canonical forms\<close>

definition is_mac_separator :: "char \<Rightarrow> bool" where
  "is_mac_separator c \<longleftrightarrow> c = CHR '':'' \<or> c = CHR ''-''"

definition normalize_mac :: "string \<Rightarrow> string" where
  "normalize_mac mac = map to_lower_char (filter (\<lambda>c. \<not> is_mac_separator c) mac)"

definition canonical_mac_str :: "string \<Rightarrow> string" where
  "canonical_mac_str s =
     map to_lower_char
       (filter (\<lambda>c. \<not> (is_mac_separator c \<or> c = CHR ''.'') \<and> \<not> is_whitespace c) s)"

definition normalize_sys_name :: "string \<Rightarrow> string" where
  "normalize_sys_name name = to_ascii_lowercase name"

definition is_dotted_decimal :: "string \<Rightarrow> bool" where
  "is_dotted_decimal s =
     (let parts = split_on (CHR ''.'') s in
      (\<forall>part \<in> set parts. part \<noteq> [] \<and> (\<forall>c \<in> set part. is_ascii_digit c)) \<and> 2 \<le> length parts)"

definition has_arc_prefix :: "string \<Rightarrow> string \<Rightarrow> bool" where
  "has_arc_prefix oid prefix =
     (case strip_prefix prefix oid of
        None \<Rightarrow> False
      | Some rest \<Rightarrow> rest = [] \<or> hd rest = CHR ''.'')"

section \<open>MAC prefixes\<close>

definition VRRP_V2_IPV4_PREFIX :: bytes where
  "VRRP_V2_IPV4_PREFIX = [0, 0, 0x5E, 0, 1]"

definition VRRP_V3_IPV6_PREFIX :: bytes where
  "VRRP_V3_IPV6_PREFIX = [0, 0, 0x5E, 0, 2]"

definition HSRP_PREFIX :: bytes where
  "HSRP_PREFIX = [0, 0, 0x0C, 0x07, 0xAC]"

text \<open>The loop of \<^verbatim>\<open>parse_mac_prefix\<close>: the bytes written so far, the pending high nibble, the input left.\<close>

fun parse_mac_loop :: "bytes \<Rightarrow> u8 option \<Rightarrow> string \<Rightarrow> bytes option" where
  "parse_mac_loop acc hi [] = (if length acc \<noteq> 5 \<or> hi \<noteq> None then None else Some acc)"
| "parse_mac_loop acc hi (c # cs) =
     (if is_mac_separator c then parse_mac_loop acc hi cs
      else case to_digit16 c of
             None \<Rightarrow> None
           | Some d \<Rightarrow>
               (let nibble = of_nat d in
                case hi of
                  None \<Rightarrow> parse_mac_loop acc (Some nibble) cs
                | Some h \<Rightarrow>
                    if length acc = 5 then Some acc
                    else parse_mac_loop (acc @ [push_bit 4 h OR nibble]) None cs))"

definition parse_mac_prefix :: "string \<Rightarrow> bytes option" where
  "parse_mac_prefix mac =
     (if length (filter (\<lambda>c. \<not> is_mac_separator c) mac) \<noteq> 12 then None
      else parse_mac_loop [] None mac)"

definition mac_equal :: "string \<Rightarrow> string \<Rightarrow> bool" where
  "mac_equal a b \<longleftrightarrow> normalize_mac a = normalize_mac b"

definition is_virtual_mac :: "string \<Rightarrow> bool" where
  "is_virtual_mac mac =
     (case parse_mac_prefix mac of
        None \<Rightarrow> False
      | Some b \<Rightarrow> b = VRRP_V2_IPV4_PREFIX \<or> b = VRRP_V3_IPV6_PREFIX \<or> b = HSRP_PREFIX)"

definition altip_role_from_mac :: "string option \<Rightarrow> AltIpRole option" where
  "altip_role_from_mac mac =
     (case Option.bind mac parse_mac_prefix of
        None \<Rightarrow> Some Secondary
      | Some b \<Rightarrow>
          if b = VRRP_V2_IPV4_PREFIX \<or> b = VRRP_V3_IPV6_PREFIX then Some Vrrp
          else if b = HSRP_PREFIX then Some Hsrp
          else Some Secondary)"

section \<open>Facts\<close>

lemma separator_lower [simp]: "is_mac_separator (to_lower_char c) = is_mac_separator c"
  by (auto simp: is_mac_separator_def to_lower_char_def Let_def of_char_of
      simp flip: of_char_eq_iff [where 'a = nat])

lemma to_digit16_lower [simp]: "to_digit16 (to_lower_char c) = to_digit16 c"
  by (auto simp: to_digit16_def to_lower_char_def Let_def of_char_of)

lemma normalize_mac_idem [simp]: "normalize_mac (normalize_mac m) = normalize_mac m"
  by (simp add: normalize_mac_def filter_map comp_def)

lemma normalize_mac_eq_canonical:
  "canonical_mac_str s = normalize_mac (filter (\<lambda>c. c \<noteq> CHR ''.'' \<and> \<not> is_whitespace c) s)"
  unfolding canonical_mac_str_def normalize_mac_def filter_filter
  by (intro arg_cong2 [where f = map] filter_cong) auto

lemma canonical_mac_str_idem [simp]: "canonical_mac_str (canonical_mac_str s) = canonical_mac_str s"
proof -
  have "to_lower_char c \<noteq> CHR ''.''" if "c \<noteq> CHR ''.''" for c
    using that by (auto simp: to_lower_char_def Let_def of_char_of
        simp flip: of_char_eq_iff [where 'a = nat])
  then have keep: "\<forall>c \<in> set (canonical_mac_str s).
      \<not> (is_mac_separator c \<or> c = CHR ''.'') \<and> \<not> is_whitespace c"
    by (auto simp: canonical_mac_str_def)
  have low: "map to_lower_char (canonical_mac_str s) = canonical_mac_str s"
    by (simp add: canonical_mac_str_def)
  show ?thesis
    unfolding canonical_mac_str_def [of "canonical_mac_str s"]
    using keep low by (simp add: filter_id_conv [THEN iffD2])
qed

lemma parse_mac_loop_filter:
  "parse_mac_loop acc hi (filter (\<lambda>c. \<not> is_mac_separator c) cs) = parse_mac_loop acc hi cs"
  by (induction acc hi cs rule: parse_mac_loop.induct) (auto simp: Let_def split: option.splits)

lemma parse_mac_loop_lower:
  "parse_mac_loop acc hi (map to_lower_char cs) = parse_mac_loop acc hi cs"
  by (induction acc hi cs rule: parse_mac_loop.induct) (auto simp: Let_def split: option.splits)

lemma parse_mac_prefix_normalize: "parse_mac_prefix (normalize_mac m) = parse_mac_prefix m"
proof -
  have "parse_mac_loop [] None (normalize_mac m) = parse_mac_loop [] None m"
    unfolding normalize_mac_def by (simp only: parse_mac_loop_lower parse_mac_loop_filter)
  then show ?thesis
    by (simp add: parse_mac_prefix_def) (simp add: normalize_mac_def filter_map comp_def)
qed

lemma parse_mac_prefix_cong: "mac_equal a b \<Longrightarrow> parse_mac_prefix a = parse_mac_prefix b"
  unfolding mac_equal_def by (metis parse_mac_prefix_normalize)

lemma is_virtual_mac_cong: "mac_equal a b \<Longrightarrow> is_virtual_mac a = is_virtual_mac b"
  by (simp add: is_virtual_mac_def parse_mac_prefix_cong)

lemma mac_equal_refl [simp]: "mac_equal a a"
  by (simp add: mac_equal_def)

lemma mac_equal_sym: "mac_equal a b = mac_equal b a"
  by (auto simp: mac_equal_def)

lemma altip_role_virtual:
  "altip_role_from_mac (Some m) \<in> {Some Vrrp, Some Hsrp} \<longleftrightarrow> is_virtual_mac m"
  by (auto simp: altip_role_from_mac_def is_virtual_mac_def split: option.splits)

lemma length_parse_mac_loop:
  "length acc \<le> 5 \<Longrightarrow> parse_mac_loop acc hi cs = Some b \<Longrightarrow> length b = 5"
  by (induction acc hi cs rule: parse_mac_loop.induct) (auto simp: Let_def split: if_splits option.splits)

text \<open>What the loop does on separator-free digits: it takes the first ten nibbles pairwise, whatever
  the last two are.\<close>

definition nib :: "char \<Rightarrow> u8" where
  "nib c = of_nat (the (to_digit16 c))"

lemma parse_mac_loop_byte:
  assumes "\<not> is_mac_separator x" "\<not> is_mac_separator y" "to_digit16 x \<noteq> None" "to_digit16 y \<noteq> None"
  shows "parse_mac_loop acc None (x # y # zs) =
    (if length acc = 5 then Some acc else parse_mac_loop (acc @ [push_bit 4 (nib x) OR nib y]) None zs)"
  using assms by (auto simp: nib_def)

lemma parse_mac_prefix_digits:
  assumes "filter (\<lambda>c. \<not> is_mac_separator c) mac = [a, b, c, d, e, f, g, h, i, j, k, l]"
    and "\<forall>x \<in> {a, b, c, d, e, f, g, h, i, j, k, l}. to_digit16 x \<noteq> None"
  shows "parse_mac_prefix mac = Some
    [push_bit 4 (nib a) OR nib b, push_bit 4 (nib c) OR nib d, push_bit 4 (nib e) OR nib f,
     push_bit 4 (nib g) OR nib h, push_bit 4 (nib i) OR nib j]"
proof -
  have sep: "\<not> is_mac_separator x" if "x \<in> {a, b, c, d, e, f, g, h, i, j, k, l}" for x
    using arg_cong [OF assms(1), of set] that by auto
  have "parse_mac_prefix mac = parse_mac_loop [] None [a, b, c, d, e, f, g, h, i, j, k, l]"
    using parse_mac_loop_filter [of "[]" None mac] assms(1) by (simp add: parse_mac_prefix_def)
  also have "\<dots> = Some
    [push_bit 4 (nib a) OR nib b, push_bit 4 (nib c) OR nib d, push_bit 4 (nib e) OR nib f,
     push_bit 4 (nib g) OR nib h, push_bit 4 (nib i) OR nib j]"
    using assms(2) sep by (simp del: parse_mac_loop.simps add: parse_mac_loop_byte)
  finally show ?thesis .
qed

end
