(* ===== verification/Identity_Weights.thy ===== *)
theory Identity_Weights
  imports Identity_Keys
begin

text \<open>
  The evidence side of the identity fuser (\<^verbatim>\<open>fuser/identity.rs\<close>): operator hints, the six
  contributions to the weight of a pair of records, and the weight itself.

  The lemmas show that the weight is symmetric and that its binary64 value falls in the same band as
  the decimal sum the constants spell.
\<close>

section \<open>Constants and hints\<close>

definition HIGH_BAND_THRESHOLD :: f64 where "HIGH_BAND_THRESHOLD = round64 (8 / 10)"
definition MEDIUM_BAND_THRESHOLD :: f64 where "MEDIUM_BAND_THRESHOLD = round64 (4 / 10)"
definition MERGE_CONFIDENCE_BONUS :: f64 where "MERGE_CONFIDENCE_BONUS = round64 (1 / 10)"
definition WEIGHT_SHARED_MAC :: f64 where "WEIGHT_SHARED_MAC = round64 (5 / 10)"
definition WEIGHT_SHARED_SYSNAME :: f64 where "WEIGHT_SHARED_SYSNAME = round64 (5 / 10)"
definition WEIGHT_SHARED_HOST_KEY :: f64 where "WEIGHT_SHARED_HOST_KEY = round64 (8 / 10)"
definition WEIGHT_SHARED_TLS_SUBJECT :: f64 where "WEIGHT_SHARED_TLS_SUBJECT = round64 (3 / 10)"
definition WEIGHT_SHARED_TLS_SAN :: f64 where "WEIGHT_SHARED_TLS_SAN = round64 (5 / 10)"
definition WEIGHT_SHARED_REVERSE_DNS :: f64 where "WEIGHT_SHARED_REVERSE_DNS = round64 (5 / 10)"
definition PENALTY_CONFLICTING_MANUFACTURER :: f64 where
  "PENALTY_CONFLICTING_MANUFACTURER = round64 (3 / 10)"
definition VRRP_MEMBER_WEIGHT_CAP :: f64 where "VRRP_MEMBER_WEIGHT_CAP = round64 (4 / 10)"

record VrrpGroup =
  vg_virtual_ip :: IpAddr
  vg_virtual_mac :: string
  vg_members :: "IpAddr list"

record IdentityHints =
  ih_vrrp_groups :: "VrrpGroup list"
  ih_max_correlation_bucket :: nat

definition default_max_correlation_bucket :: nat where
  "default_max_correlation_bucket = 256"

definition identity_hints_new :: "VrrpGroup list \<Rightarrow> IdentityHints" where
  "identity_hints_new groups =
     \<lparr>ih_vrrp_groups = groups, ih_max_correlation_bucket = default_max_correlation_bucket\<rparr>"

definition identity_hints_default :: IdentityHints where
  "identity_hints_default =
     \<lparr>ih_vrrp_groups = [], ih_max_correlation_bucket = default_max_correlation_bucket\<rparr>"

definition invalid_virtual_mac :: "string \<Rightarrow> ConfigError" where
  "invalid_virtual_mac mac =
     InvalidValue (''vrrp_groups virtual_mac '' @ [CHR 0x27] @ mac @ [CHR 0x27] @ '' is not a valid MAC address'')"

definition vrrp_group_new :: "IpAddr \<Rightarrow> string \<Rightarrow> IpAddr list \<Rightarrow> VrrpGroup result" where
  "vrrp_group_new virtual_ip virtual_mac members =
     (if parse_mac_prefix virtual_mac = None then Inl (EConfig (invalid_virtual_mac virtual_mac))
      else Inr \<lparr>vg_virtual_ip = virtual_ip, vg_virtual_mac = virtual_mac, vg_members = members\<rparr>)"

definition hint_says_virtual :: "IdentityHints \<Rightarrow> string \<Rightarrow> bool" where
  "hint_says_virtual hints mac = (\<exists>g \<in> set (ih_vrrp_groups hints). mac_equal (vg_virtual_mac g) mac)"

section \<open>Reading signals\<close>

definition find_sysname :: "Signal list \<Rightarrow> string option" where
  "find_sysname = find_map (\<lambda>s. case s of SnmpSysName n \<Rightarrow> Some n | _ \<Rightarrow> None)"

definition find_ssh_host_key :: "Signal list \<Rightarrow> string option" where
  "find_ssh_host_key = find_map (\<lambda>s. case s of SshHostKey k \<Rightarrow> Some k | _ \<Rightarrow> None)"

definition find_tls_subject :: "Signal list \<Rightarrow> string option" where
  "find_tls_subject = find_map (\<lambda>s. case s of TlsSubject v \<Rightarrow> Some v | _ \<Rightarrow> None)"

definition collect_tls_san_names :: "Signal list \<Rightarrow> string list" where
  "collect_tls_san_names = List.map_filter (\<lambda>s. case s of TlsSanName v \<Rightarrow> Some v | _ \<Rightarrow> None)"

definition any_tls_san_overlap :: "string list \<Rightarrow> string list \<Rightarrow> bool" where
  "any_tls_san_overlap a b = (\<exists>name \<in> set a. name \<noteq> [] \<and> name \<in> set b)"

definition collect_reverse_dns_names :: "Signal list \<Rightarrow> string list" where
  "collect_reverse_dns_names = List.map_filter (\<lambda>s. case s of ReverseDnsName v \<Rightarrow> Some v | _ \<Rightarrow> None)"

definition any_reverse_dns_overlap :: "string list \<Rightarrow> string list \<Rightarrow> bool" where
  "any_reverse_dns_overlap a b =
     (\<exists>name \<in> set a. name \<noteq> [] \<and> (\<exists>other \<in> set b. eq_ignore_ascii_case name other))"

section \<open>Contributions and the pair weight\<close>

definition contribute_mac :: "IdentityHints \<Rightarrow> DeviceRecord \<Rightarrow> DeviceRecord \<Rightarrow> f64" where
  "contribute_mac hints a b =
     (case (dr_mac a, dr_mac b) of
        (Some ma, Some mb) \<Rightarrow>
          if mac_equal ma mb \<and> \<not> is_virtual_mac ma \<and> \<not> hint_says_virtual hints ma
          then WEIGHT_SHARED_MAC else Fin 0
      | _ \<Rightarrow> Fin 0)"

definition contribute_sysname :: "IdentityHints \<Rightarrow> DeviceRecord \<Rightarrow> DeviceRecord \<Rightarrow> f64" where
  "contribute_sysname hints a b =
     (case (find_sysname (dr_signals a), find_sysname (dr_signals b)) of
        (Some sa, Some sb) \<Rightarrow>
          if sa \<noteq> [] \<and> eq_ignore_ascii_case sa sb then WEIGHT_SHARED_SYSNAME else Fin 0
      | _ \<Rightarrow> Fin 0)"

definition contribute_ssh_host_key :: "IdentityHints \<Rightarrow> DeviceRecord \<Rightarrow> DeviceRecord \<Rightarrow> f64" where
  "contribute_ssh_host_key hints a b =
     (case (find_ssh_host_key (dr_signals a), find_ssh_host_key (dr_signals b)) of
        (Some ka, Some kb) \<Rightarrow> if ka \<noteq> [] \<and> ka = kb then WEIGHT_SHARED_HOST_KEY else Fin 0
      | _ \<Rightarrow> Fin 0)"

definition contribute_tls_subject :: "IdentityHints \<Rightarrow> DeviceRecord \<Rightarrow> DeviceRecord \<Rightarrow> f64" where
  "contribute_tls_subject hints a b =
     (case (find_tls_subject (dr_signals a), find_tls_subject (dr_signals b)) of
        (Some sa, Some sb) \<Rightarrow> if sa \<noteq> [] \<and> sa = sb then WEIGHT_SHARED_TLS_SUBJECT else Fin 0
      | _ \<Rightarrow> Fin 0)"

definition contribute_tls_san :: "IdentityHints \<Rightarrow> DeviceRecord \<Rightarrow> DeviceRecord \<Rightarrow> f64" where
  "contribute_tls_san hints a b =
     (let sans_a = collect_tls_san_names (dr_signals a); sans_b = collect_tls_san_names (dr_signals b) in
      if sans_a \<noteq> [] \<and> sans_b \<noteq> [] \<and> any_tls_san_overlap sans_a sans_b
      then WEIGHT_SHARED_TLS_SAN else Fin 0)"

definition contribute_reverse_dns :: "IdentityHints \<Rightarrow> DeviceRecord \<Rightarrow> DeviceRecord \<Rightarrow> f64" where
  "contribute_reverse_dns hints a b =
     (let rdns_a = collect_reverse_dns_names (dr_signals a);
          rdns_b = collect_reverse_dns_names (dr_signals b) in
      if rdns_a \<noteq> [] \<and> rdns_b \<noteq> [] \<and> any_reverse_dns_overlap rdns_a rdns_b
      then WEIGHT_SHARED_REVERSE_DNS else Fin 0)"

definition CONTRIBUTIONS :: "(IdentityHints \<Rightarrow> DeviceRecord \<Rightarrow> DeviceRecord \<Rightarrow> f64) list" where
  "CONTRIBUTIONS = [contribute_mac, contribute_sysname, contribute_ssh_host_key, contribute_tls_subject,
     contribute_tls_san, contribute_reverse_dns]"

definition pair_is_declared_vrrp_members :: "IdentityHints \<Rightarrow> DeviceRecord \<Rightarrow> DeviceRecord \<Rightarrow> bool" where
  "pair_is_declared_vrrp_members hints a b =
     (case dr_mgmt_ip a of
        None \<Rightarrow> False
      | Some ip_a \<Rightarrow>
          (case dr_mgmt_ip b of
             None \<Rightarrow> False
           | Some ip_b \<Rightarrow>
               \<exists>g \<in> set (ih_vrrp_groups hints). ip_a \<in> set (vg_members g) \<and> ip_b \<in> set (vg_members g)))"

definition conflicting_manufacturer :: "DeviceRecord \<Rightarrow> DeviceRecord \<Rightarrow> bool" where
  "conflicting_manufacturer a b =
     (case (dr_manufacturer a, dr_manufacturer b) of
        (Some mfa, Some mfb) \<Rightarrow> \<not> eq_ignore_ascii_case mfa mfb
      | _ \<Rightarrow> False)"

definition pair_weight :: "IdentityHints \<Rightarrow> DeviceRecord \<Rightarrow> DeviceRecord \<Rightarrow> f64" where
  "pair_weight hints a b =
     (let w = foldl fadd (Fin 0) (map (\<lambda>f. f hints a b) CONTRIBUTIONS);
          w = (if conflicting_manufacturer a b then fsub w PENALTY_CONFLICTING_MANUFACTURER else w)
      in if pair_is_declared_vrrp_members hints a b \<and> flt VRRP_MEMBER_WEIGHT_CAP w
         then VRRP_MEMBER_WEIGHT_CAP else w)"

section \<open>The weights in binary64\<close>

named_theorems weight_table \<open>the sums of weights that occur, evaluated in binary64\<close>

abbreviation w02 :: f64 where "w02 \<equiv> Fin (3602879701896397 / 18014398509481984)"
abbreviation w03 :: f64 where "w03 \<equiv> Fin (5404319552844595 / 18014398509481984)"
abbreviation w05 :: f64 where "w05 \<equiv> Fin (1 / 2)"
abbreviation w07 :: f64 where "w07 \<equiv> Fin (3152519739159347 / 4503599627370496)"
abbreviation w08 :: f64 where "w08 \<equiv> Fin (3602879701896397 / 4503599627370496)"
abbreviation w10 :: f64 where "w10 \<equiv> Fin (1)"
abbreviation w11 :: f64 where "w11 \<equiv> Fin (2476979795053773 / 2251799813685248)"
abbreviation w12 :: f64 where "w12 \<equiv> Fin (5404319552844595 / 4503599627370496)"
abbreviation w13 :: f64 where "w13 \<equiv> Fin (5854679515581645 / 4503599627370496)"
abbreviation w15 :: f64 where "w15 \<equiv> Fin (3 / 2)"
abbreviation w16 :: f64 where "w16 \<equiv> Fin (3602879701896397 / 2251799813685248)"
abbreviation w17 :: f64 where "w17 \<equiv> Fin (7656119366529843 / 4503599627370496)"
abbreviation w18 :: f64 where "w18 \<equiv> Fin (8106479329266893 / 4503599627370496)"
abbreviation w20 :: f64 where "w20 \<equiv> Fin (2)"
abbreviation w20x :: f64 where "w20x \<equiv> Fin (9007199254740991 / 4503599627370496)"
abbreviation w21 :: f64 where "w21 \<equiv> Fin (4728779608739021 / 2251799813685248)"
abbreviation w23 :: f64 where "w23 \<equiv> Fin (2589569785738035 / 1125899906842624)"
abbreviation w23x :: f64 where "w23x \<equiv> Fin (5179139571476071 / 2251799813685248)"
abbreviation w25 :: f64 where "w25 \<equiv> Fin (5 / 2)"
abbreviation w26 :: f64 where "w26 \<equiv> Fin (5854679515581645 / 2251799813685248)"
abbreviation w28 :: f64 where "w28 \<equiv> Fin (3152519739159347 / 1125899906842624)"
abbreviation w28x :: f64 where "w28x \<equiv> Fin (6305039478318695 / 2251799813685248)"
abbreviation w31 :: f64 where "w31 \<equiv> Fin (6980579422424269 / 2251799813685248)"
abbreviation wn03 :: f64 where "wn03 \<equiv> Fin (- (5404319552844595 / 18014398509481984))"

lemma weight_sums_m3 [weight_table]:
  "fadd w05 wn03 = w02"
  by (simp_all add: round64_binade [of "-3"] pow2_def round_half_even_def Let_def)

lemma weight_sums_m2 [weight_table]:
  "fadd w03 (Fin 0) = w03"
  by (simp_all add: round64_binade [of "-2"] pow2_def round_half_even_def Let_def)

lemma weight_sums_m1 [weight_table]:
  "fadd w03 w05 = w08" "fadd w05 (Fin 0) = w05" "fadd w05 w03 = w08" "fadd w08 wn03 = w05"
  "fadd w08 (Fin 0) = w08" "fadd w10 wn03 = w07" "fadd w11 wn03 = w08"
  by (simp_all add: round64_binade [of "-1"] pow2_def round_half_even_def Let_def)

lemma weight_sums_0 [weight_table]:
  "fadd w05 w05 = w10" "fadd w05 w08 = w13" "fadd w08 w03 = w11" "fadd w08 w05 = w13"
  "fadd w10 (Fin 0) = w10" "fadd w10 w03 = w13" "fadd w10 w05 = w15" "fadd w10 w08 = w18"
  "fadd w11 (Fin 0) = w11" "fadd w11 w05 = w16" "fadd w13 wn03 = w10" "fadd w13 (Fin 0) = w13"
  "fadd w13 w03 = w16" "fadd w13 w05 = w18" "fadd w15 wn03 = w12" "fadd w15 (Fin 0) = w15"
  "fadd w16 wn03 = w13" "fadd w16 (Fin 0) = w16" "fadd w18 wn03 = w15" "fadd w18 (Fin 0) = w18"
  "fadd w20 wn03 = w17" "fadd w21 wn03 = w18" "fadd w23 wn03 = w20x"
  by (simp_all add: round64_binade [of "0"] pow2_def round_half_even_def Let_def)

lemma weight_sums_1 [weight_table]:
  "fadd w15 w05 = w20" "fadd w16 w05 = w21" "fadd w18 w03 = w21" "fadd w18 w05 = w23"
  "fadd w21 (Fin 0) = w21" "fadd w21 w05 = w26" "fadd w23 (Fin 0) = w23" "fadd w23 w05 = w28"
  "fadd w26 wn03 = w23x" "fadd w26 (Fin 0) = w26" "fadd w26 w05 = w31" "fadd w28 wn03 = w25"
  "fadd w31 wn03 = w28x"
  by (simp_all add: round64_binade [of "1"] pow2_def round_half_even_def Let_def)

lemma weight_constants:
  "WEIGHT_SHARED_MAC = w05" "WEIGHT_SHARED_SYSNAME = w05" "WEIGHT_SHARED_HOST_KEY = w08"
  "WEIGHT_SHARED_TLS_SUBJECT = w03" "WEIGHT_SHARED_TLS_SAN = w05" "WEIGHT_SHARED_REVERSE_DNS = w05"
  "PENALTY_CONFLICTING_MANUFACTURER = w03" "HIGH_BAND_THRESHOLD = w08"
  "VRRP_MEMBER_WEIGHT_CAP = Fin (3602879701896397 / 9007199254740992)"
  "MEDIUM_BAND_THRESHOLD = Fin (3602879701896397 / 9007199254740992)"
  "MERGE_CONFIDENCE_BONUS = Fin (3602879701896397 / 36028797018963968)"
  unfolding WEIGHT_SHARED_MAC_def WEIGHT_SHARED_SYSNAME_def WEIGHT_SHARED_HOST_KEY_def
    WEIGHT_SHARED_TLS_SUBJECT_def WEIGHT_SHARED_TLS_SAN_def WEIGHT_SHARED_REVERSE_DNS_def
    PENALTY_CONFLICTING_MANUFACTURER_def HIGH_BAND_THRESHOLD_def VRRP_MEMBER_WEIGHT_CAP_def
    MEDIUM_BAND_THRESHOLD_def MERGE_CONFIDENCE_BONUS_def
  by (simp add: round64_binade [of "-1"] pow2_def round_half_even_def Let_def
      | simp add: round64_binade [of "-2"] pow2_def round_half_even_def Let_def
      | simp add: round64_binade [of "-4"] pow2_def round_half_even_def Let_def)+

lemma weight_sums_zero [weight_table]:
  "fadd (Fin 0) (Fin 0) = Fin 0" "fadd (Fin 0) w03 = w03" "fadd (Fin 0) w05 = w05" "fadd (Fin 0) w08 = w08"
  "fadd w03 wn03 = Fin 0" "fadd (Fin 0) wn03 = wn03"
proof -
  have r: "round64 (5404319552844595 / 18014398509481984) = w03"
    using weight_sums_m2(1) by simp
  show "fadd (Fin 0) w03 = w03" "fadd (Fin 0) wn03 = wn03"
    using r round64_neg [of "5404319552844595 / 18014398509481984"] by simp_all
  show "fadd (Fin 0) w05 = w05" "fadd (Fin 0) w08 = w08"
    using weight_sums_m1(2,5) by simp_all
qed simp_all

text \<open>The reference arithmetic: the same sum over the decimals the constants spell, in exact rationals.\<close>

definition decimal_pair_weight :: "IdentityHints \<Rightarrow> DeviceRecord \<Rightarrow> DeviceRecord \<Rightarrow> rat" where
  "decimal_pair_weight hints a b =
     (let w = sum_list (map2 (\<lambda>f d. if f hints a b = Fin 0 then 0 else d) CONTRIBUTIONS
                [5 / 10, 5 / 10, 8 / 10, 3 / 10, 5 / 10, 5 / 10]);
          w = (if conflicting_manufacturer a b then w - 3 / 10 else w)
      in if pair_is_declared_vrrp_members hints a b \<and> 4 / 10 < w then 4 / 10 else w)"

definition same_bands :: "f64 \<Rightarrow> rat \<Rightarrow> bool" where
  "same_bands w d \<longleftrightarrow> is_finite w \<and> (fle HIGH_BAND_THRESHOLD w \<longleftrightarrow> 8 / 10 \<le> d) \<and>
     (fle MEDIUM_BAND_THRESHOLD w \<longleftrightarrow> 4 / 10 \<le> d) \<and> (flt (Fin 0) w \<longleftrightarrow> 0 < d) \<and>
     (flt VRRP_MEMBER_WEIGHT_CAP w \<longleftrightarrow> 4 / 10 < d)"

lemma weight_sum_bands:
  assumes "c1 = Fin 0 \<or> c1 = w05" "c2 = Fin 0 \<or> c2 = w05" "c3 = Fin 0 \<or> c3 = w08"
    "c4 = Fin 0 \<or> c4 = w03" "c5 = Fin 0 \<or> c5 = w05" "c6 = Fin 0 \<or> c6 = w05"
    and "w = fadd (fadd (fadd (fadd (fadd (fadd (Fin 0) c1) c2) c3) c4) c5) c6"
    and "d = (if c1 = Fin 0 then 0 else 5 / 10) + ((if c2 = Fin 0 then 0 else 5 / 10) +
      ((if c3 = Fin 0 then 0 else 8 / 10) + ((if c4 = Fin 0 then 0 else 3 / 10) +
      ((if c5 = Fin 0 then 0 else 5 / 10) + (if c6 = Fin 0 then 0 else 5 / 10)))))"
  shows "same_bands w d" "same_bands (fsub w PENALTY_CONFLICTING_MANUFACTURER) (d - 3 / 10)"
  unfolding same_bands_def weight_constants fsub_def fneg.simps assms(7,8)
  using assms(1-6)
  by (elim disjE; simp del: fadd.simps add: weight_table)+

lemma contribution_values:
  "contribute_mac h a b = Fin 0 \<or> contribute_mac h a b = w05"
  "contribute_sysname h a b = Fin 0 \<or> contribute_sysname h a b = w05"
  "contribute_ssh_host_key h a b = Fin 0 \<or> contribute_ssh_host_key h a b = w08"
  "contribute_tls_subject h a b = Fin 0 \<or> contribute_tls_subject h a b = w03"
  "contribute_tls_san h a b = Fin 0 \<or> contribute_tls_san h a b = w05"
  "contribute_reverse_dns h a b = Fin 0 \<or> contribute_reverse_dns h a b = w05"
  by (auto simp: contribute_mac_def contribute_sysname_def contribute_ssh_host_key_def Let_def
      contribute_tls_subject_def contribute_tls_san_def contribute_reverse_dns_def weight_constants
      split: option.splits)

lemma pair_weight_same_bands: "same_bands (pair_weight h a b) (decimal_pair_weight h a b)"
proof -
  let ?w = "foldl fadd (Fin 0) (map (\<lambda>f. f h a b) CONTRIBUTIONS)"
  let ?d = "sum_list (map2 (\<lambda>f d. if f h a b = Fin 0 then 0 else d) CONTRIBUTIONS
    [5 / 10, 5 / 10, 8 / 10, 3 / 10, 5 / 10, 5 / 10 :: rat])"
  note bands = weight_sum_bands [OF contribution_values [of h a b], of ?w ?d]
  have b: "same_bands ?w ?d" "same_bands (fsub ?w PENALTY_CONFLICTING_MANUFACTURER) (?d - 3 / 10)"
    by (rule bands; simp add: CONTRIBUTIONS_def)+
  have cap: "same_bands VRRP_MEMBER_WEIGHT_CAP (4 / 10)"
    by (simp add: same_bands_def weight_constants)
  define w where "w = (if conflicting_manufacturer a b then fsub ?w PENALTY_CONFLICTING_MANUFACTURER else ?w)"
  define d where "d = (if conflicting_manufacturer a b then ?d - 3 / 10 else ?d)"
  have wd: "same_bands w d" using b by (simp add: w_def d_def)
  then have "flt VRRP_MEMBER_WEIGHT_CAP w \<longleftrightarrow> 4 / 10 < d" by (simp add: same_bands_def)
  then have "same_bands (if pair_is_declared_vrrp_members h a b \<and> flt VRRP_MEMBER_WEIGHT_CAP w
      then VRRP_MEMBER_WEIGHT_CAP else w)
    (if pair_is_declared_vrrp_members h a b \<and> 4 / 10 < d then 4 / 10 else d)"
    using wd cap by simp
  then show ?thesis
    unfolding pair_weight_def decimal_pair_weight_def Let_def w_def d_def .
qed

section \<open>Symmetry\<close>

lemma hint_says_virtual_cong: "mac_equal a b \<Longrightarrow> hint_says_virtual h a = hint_says_virtual h b"
  by (auto simp: hint_says_virtual_def mac_equal_def)

lemma contribution_sym:
  "contribute_mac h a b = contribute_mac h b a"
  "contribute_sysname h a b = contribute_sysname h b a"
  "contribute_ssh_host_key h a b = contribute_ssh_host_key h b a"
  "contribute_tls_subject h a b = contribute_tls_subject h b a"
  "contribute_tls_san h a b = contribute_tls_san h b a"
  "contribute_reverse_dns h a b = contribute_reverse_dns h b a"
proof -
  show "contribute_mac h a b = contribute_mac h b a"
  proof (cases "dr_mac a"; cases "dr_mac b")
    fix x y assume "dr_mac a = Some x" "dr_mac b = Some y"
    then show ?thesis
      using mac_equal_sym [of x y] is_virtual_mac_cong [of x y] hint_says_virtual_cong [of x y h]
      by (cases "mac_equal x y") (simp_all add: contribute_mac_def)
  qed (simp_all add: contribute_mac_def)
  show "contribute_sysname h a b = contribute_sysname h b a"
    by (auto simp: contribute_sysname_def eq_ignore_ascii_case_def split: option.splits)
      (metis to_ascii_lowercase_Nil_iff)+
  show "contribute_ssh_host_key h a b = contribute_ssh_host_key h b a"
    by (auto simp: contribute_ssh_host_key_def split: option.splits)
  show "contribute_tls_subject h a b = contribute_tls_subject h b a"
    by (auto simp: contribute_tls_subject_def split: option.splits)
  show "contribute_tls_san h a b = contribute_tls_san h b a"
    by (auto simp: contribute_tls_san_def any_tls_san_overlap_def Let_def)
  have "any_reverse_dns_overlap x y \<Longrightarrow> any_reverse_dns_overlap y x" for x y
    unfolding any_reverse_dns_overlap_def eq_ignore_ascii_case_def
    by (metis to_ascii_lowercase_Nil_iff)
  then show "contribute_reverse_dns h a b = contribute_reverse_dns h b a"
    unfolding contribute_reverse_dns_def Let_def by metis
qed

lemma pair_weight_commute: "pair_weight h a b = pair_weight h b a"
proof -
  have "conflicting_manufacturer a b = conflicting_manufacturer b a"
    by (auto simp: conflicting_manufacturer_def eq_ignore_ascii_case_sym split: option.splits)
  moreover have "pair_is_declared_vrrp_members h a b = pair_is_declared_vrrp_members h b a"
    by (auto simp: pair_is_declared_vrrp_members_def split: option.splits)
  ultimately show ?thesis
    by (simp add: pair_weight_def CONTRIBUTIONS_def contribution_sym [of h a b])
qed

text \<open>Without any contribution a pair has no positive weight, and declared members of one VRRP group
  never reach the merge band.\<close>

lemma pair_weight_no_evidence:
  assumes "\<forall>f \<in> set CONTRIBUTIONS. f h a b = Fin 0"
  shows "\<not> flt (Fin 0) (pair_weight h a b)"
proof -
  have "decimal_pair_weight h a b \<le> 0"
    using assms by (simp add: decimal_pair_weight_def CONTRIBUTIONS_def)
  then show ?thesis using pair_weight_same_bands [of h a b] by (simp add: same_bands_def)
qed

lemma pair_weight_vrrp:
  assumes "pair_is_declared_vrrp_members h a b"
  shows "\<not> fle HIGH_BAND_THRESHOLD (pair_weight h a b)"
proof -
  have "decimal_pair_weight h a b \<le> 4 / 10"
    using assms by (simp add: decimal_pair_weight_def Let_def)
  then show ?thesis using pair_weight_same_bands [of h a b] by (simp add: same_bands_def)
qed

end
