(* ===== verification/Identity_Buckets.thy ===== *)
theory Identity_Buckets
  imports Identity_Weights "HOL-Library.Multiset"
begin

text \<open>
  How the identity fuser (\<^verbatim>\<open>fuser/identity.rs\<close>) finds the pairs worth weighing: the buckets records are
  grouped into so that only records sharing a correlation value are compared, the cap on a bucket,
  and \<^verbatim>\<open>compute_pair_weights\<close>. A \<^verbatim>\<open>HashMap\<close> is its entries in insertion order; the order in which the
  program visits the hash set of candidate pairs is the parameter \<^verbatim>\<open>visit\<close>, of which only that it
  permutes its argument is assumed.

  The lemmas say exactly which pairs are reported, and that nothing is lost against weighing all
  pairs as long as no bucket exceeds the cap.
\<close>

section \<open>Buckets\<close>

datatype BucketKey = KMac string | KSysName string | KSshHostKey string | KTlsSubject string
  | KTlsSanName string | KReverseDnsName string

definition bucket_keys :: "IdentityHints \<Rightarrow> DeviceRecord \<Rightarrow> BucketKey list" where
  "bucket_keys hints r =
     (let keys = [];
          keys = (case dr_mac r of
                    Some mac \<Rightarrow> if \<not> is_virtual_mac mac \<and> \<not> hint_says_virtual hints mac
                                then push_new keys (KMac (normalize_mac mac)) else keys
                  | None \<Rightarrow> keys);
          keys = (case find_sysname (dr_signals r) of
                    Some name \<Rightarrow> if name \<noteq> [] then push_new keys (KSysName (normalize_sys_name name)) else keys
                  | None \<Rightarrow> keys);
          keys = (case find_ssh_host_key (dr_signals r) of
                    Some k \<Rightarrow> if k \<noteq> [] then push_new keys (KSshHostKey k) else keys
                  | None \<Rightarrow> keys);
          keys = (case find_tls_subject (dr_signals r) of
                    Some s \<Rightarrow> if s \<noteq> [] then push_new keys (KTlsSubject s) else keys
                  | None \<Rightarrow> keys);
          keys = extend_new keys (map KTlsSanName (filter (\<lambda>n. n \<noteq> []) (collect_tls_san_names (dr_signals r))))
      in extend_new keys (map (\<lambda>n. KReverseDnsName (normalize_sys_name n))
                            (filter (\<lambda>n. n \<noteq> []) (collect_reverse_dns_names (dr_signals r)))))"

definition fill_buckets :: "(DeviceRecord \<Rightarrow> BucketKey list) \<Rightarrow> DeviceRecord list \<Rightarrow> (BucketKey \<times> nat list) list" where
  "fill_buckets keys_of records =
     foldl (\<lambda>m (idx, r). foldl (\<lambda>m k. entry_push m k idx) m (keys_of r)) [] (List.enumerate 0 records)"

fun index_pairs :: "nat list \<Rightarrow> (nat \<times> nat) list" where
  "index_pairs [] = []"
| "index_pairs (a # bs) = map (\<lambda>b. (a, b)) bs @ index_pairs bs"

definition candidate_pairs :: "nat \<Rightarrow> (BucketKey \<times> nat list) list \<Rightarrow> (nat \<times> nat) list" where
  "candidate_pairs cap buckets =
     foldl (\<lambda>cs indices. if cap < length indices then cs else extend_new cs (index_pairs indices))
       [] (map snd buckets)"

definition weigh :: "IdentityHints \<Rightarrow> DeviceRecord list \<Rightarrow> (nat \<times> nat) list \<Rightarrow> (nat \<times> nat \<times> f64) list" where
  "weigh hints records ps =
     filter (\<lambda>(i, j, w). flt (Fin 0) w)
       (map (\<lambda>(i, j). (i, j, pair_weight hints (records ! i) (records ! j))) ps)"

definition compute_pair_weights ::
  "((nat \<times> nat) list \<Rightarrow> (nat \<times> nat) list) \<Rightarrow> IdentityHints \<Rightarrow> DeviceRecord list \<Rightarrow> (nat \<times> nat \<times> f64) list" where
  "compute_pair_weights visit hints records =
     (let buckets = fill_buckets (bucket_keys hints) records;
          candidates = candidate_pairs (ih_max_correlation_bucket hints) buckets
      in weigh hints records (visit candidates))"

definition compute_pair_weights_bruteforce ::
  "IdentityHints \<Rightarrow> DeviceRecord list \<Rightarrow> (nat \<times> nat \<times> f64) list" where
  "compute_pair_weights_bruteforce hints records = weigh hints records (index_pairs [0..<length records])"

section \<open>Which pairs are reported\<close>

definition holders :: "IdentityHints \<Rightarrow> DeviceRecord list \<Rightarrow> BucketKey \<Rightarrow> nat list" where
  "holders hints records k = filter (\<lambda>i. k \<in> set (bucket_keys hints (records ! i))) [0..<length records]"

lemma set_case_push:
  "k \<in> set (case x of None \<Rightarrow> ks | Some v \<Rightarrow> if P v then push_new ks (f v) else ks) \<longleftrightarrow>
     k \<in> set ks \<or> (\<exists>v. x = Some v \<and> P v \<and> k = f v)"
  by (cases x) auto

lemma distinct_case_push:
  "distinct (case x of None \<Rightarrow> ks | Some v \<Rightarrow> if P v then push_new ks (f v) else ks) = distinct ks"
  by (cases x) auto

lemma distinct_bucket_keys [simp]: "distinct (bucket_keys h r)"
  unfolding bucket_keys_def Let_def by (simp add: distinct_case_push)

lemma set_bucket_keys:
  "k \<in> set (bucket_keys h r) \<longleftrightarrow>
     (\<exists>m. dr_mac r = Some m \<and> \<not> is_virtual_mac m \<and> \<not> hint_says_virtual h m \<and> k = KMac (normalize_mac m)) \<or>
     (\<exists>n. find_sysname (dr_signals r) = Some n \<and> n \<noteq> [] \<and> k = KSysName (normalize_sys_name n)) \<or>
     (\<exists>n. find_ssh_host_key (dr_signals r) = Some n \<and> n \<noteq> [] \<and> k = KSshHostKey n) \<or>
     (\<exists>n. find_tls_subject (dr_signals r) = Some n \<and> n \<noteq> [] \<and> k = KTlsSubject n) \<or>
     (\<exists>n \<in> set (collect_tls_san_names (dr_signals r)). n \<noteq> [] \<and> k = KTlsSanName n) \<or>
     (\<exists>n \<in> set (collect_reverse_dns_names (dr_signals r)). n \<noteq> [] \<and> k = KReverseDnsName (normalize_sys_name n))"
proof -
  have "k \<in> f ` {n \<in> S. n \<noteq> []} \<longleftrightarrow> (\<exists>n \<in> S. n \<noteq> [] \<and> k = f n)" for f :: "string \<Rightarrow> BucketKey" and S
    by auto
  then show ?thesis
    unfolding bucket_keys_def Let_def
    by (simp only: set_extend_new Un_iff set_case_push set_map set_filter list.set empty_iff disj_assoc conj_assoc simp_thms)
qed

lemma bucket_keysI:
  "dr_mac r = Some m \<Longrightarrow> \<not> is_virtual_mac m \<Longrightarrow> \<not> hint_says_virtual h m \<Longrightarrow> KMac (normalize_mac m) \<in> set (bucket_keys h r)"
  "find_sysname (dr_signals r) = Some n \<Longrightarrow> n \<noteq> [] \<Longrightarrow> KSysName (normalize_sys_name n) \<in> set (bucket_keys h r)"
  "find_ssh_host_key (dr_signals r) = Some n \<Longrightarrow> n \<noteq> [] \<Longrightarrow> KSshHostKey n \<in> set (bucket_keys h r)"
  "find_tls_subject (dr_signals r) = Some n \<Longrightarrow> n \<noteq> [] \<Longrightarrow> KTlsSubject n \<in> set (bucket_keys h r)"
  "n \<in> set (collect_tls_san_names (dr_signals r)) \<Longrightarrow> n \<noteq> [] \<Longrightarrow> KTlsSanName n \<in> set (bucket_keys h r)"
  "n \<in> set (collect_reverse_dns_names (dr_signals r)) \<Longrightarrow> n \<noteq> [] \<Longrightarrow>
    KReverseDnsName (normalize_sys_name n) \<in> set (bucket_keys h r)"
  unfolding set_bucket_keys by simp_all blast

lemma eq_ignore_ascii_case_key:
  "eq_ignore_ascii_case x y \<Longrightarrow> normalize_sys_name y = normalize_sys_name x \<and> (x \<noteq> [] \<longrightarrow> y \<noteq> [])"
  unfolding eq_ignore_ascii_case_def normalize_sys_name_def by (metis to_ascii_lowercase_Nil_iff)

lemma contribution_shares_key:
  assumes "f \<in> set CONTRIBUTIONS" "f h a b \<noteq> Fin 0"
  shows "\<exists>k. k \<in> set (bucket_keys h a) \<and> k \<in> set (bucket_keys h b)"
proof -
  consider "contribute_mac h a b \<noteq> Fin 0" | "contribute_sysname h a b \<noteq> Fin 0"
    | "contribute_ssh_host_key h a b \<noteq> Fin 0" | "contribute_tls_subject h a b \<noteq> Fin 0"
    | "contribute_tls_san h a b \<noteq> Fin 0" | "contribute_reverse_dns h a b \<noteq> Fin 0"
    using assms by (auto simp: CONTRIBUTIONS_def)
  then show ?thesis
  proof cases
    case 1
    then obtain x y where xy: "dr_mac a = Some x" "dr_mac b = Some y" "mac_equal x y"
      "\<not> is_virtual_mac x" "\<not> hint_says_virtual h x"
      by (auto simp: contribute_mac_def split: option.splits if_splits)
    have "normalize_mac y = normalize_mac x" using xy(3) by (simp add: mac_equal_def)
    then show ?thesis
      using bucket_keysI(1) [OF xy(1,4,5)] bucket_keysI(1) [OF xy(2)] xy(4,5)
        is_virtual_mac_cong [OF xy(3)] hint_says_virtual_cong [OF xy(3)] by metis
  next
    case 2
    then obtain x y where xy: "find_sysname (dr_signals a) = Some x" "find_sysname (dr_signals b) = Some y"
      "x \<noteq> []" "eq_ignore_ascii_case x y"
      by (auto simp: contribute_sysname_def split: option.splits if_splits)
    then show ?thesis
      using bucket_keysI(2) [OF xy(1,3)] bucket_keysI(2) [OF xy(2)] eq_ignore_ascii_case_key [OF xy(4)] by metis
  next
    case 3
    then obtain x where "find_ssh_host_key (dr_signals a) = Some x" "find_ssh_host_key (dr_signals b) = Some x" "x \<noteq> []"
      by (auto simp: contribute_ssh_host_key_def split: option.splits if_splits)
    then show ?thesis using bucket_keysI(3) by blast
  next
    case 4
    then obtain x where "find_tls_subject (dr_signals a) = Some x" "find_tls_subject (dr_signals b) = Some x" "x \<noteq> []"
      by (auto simp: contribute_tls_subject_def split: option.splits if_splits)
    then show ?thesis using bucket_keysI(4) by blast
  next
    case 5
    then obtain x where "x \<in> set (collect_tls_san_names (dr_signals a))"
      "x \<in> set (collect_tls_san_names (dr_signals b))" "x \<noteq> []"
      by (auto simp: contribute_tls_san_def any_tls_san_overlap_def Let_def split: if_splits)
    then show ?thesis using bucket_keysI(5) by blast
  next
    case 6
    then obtain x y where xy: "x \<in> set (collect_reverse_dns_names (dr_signals a))"
      "y \<in> set (collect_reverse_dns_names (dr_signals b))" "x \<noteq> []" "eq_ignore_ascii_case x y"
      by (auto simp: contribute_reverse_dns_def any_reverse_dns_overlap_def Let_def split: if_splits)
    then show ?thesis
      using bucket_keysI(6) [OF xy(1,3)] bucket_keysI(6) [OF xy(2)] eq_ignore_ascii_case_key [OF xy(4)] by metis
  qed
qed

lemma positive_weight_shares_key:
  "flt (Fin 0) (pair_weight h a b) \<Longrightarrow> \<exists>k. k \<in> set (bucket_keys h a) \<and> k \<in> set (bucket_keys h b)"
  using pair_weight_no_evidence contribution_shares_key by blast

lemma entry_list_push_all:
  "distinct ks \<Longrightarrow>
   entry_list (foldl (\<lambda>m k. entry_push m k v) m ks) k' = entry_list m k' @ (if k' \<in> set ks then [v] else [])"
  by (induction ks arbitrary: m) auto

lemma distinct_keys_push_all:
  "distinct (map fst m) \<Longrightarrow> distinct (map fst (foldl (\<lambda>m k. entry_push m k v) m ks))"
  by (induction ks arbitrary: m) (auto simp: distinct_entry_push simp del: distinct_map)

lemma fill_buckets_snoc:
  "fill_buckets f (rs @ [r]) = foldl (\<lambda>m k. entry_push m k (length rs)) (fill_buckets f rs) (f r)"
  by (simp add: fill_buckets_def enumerate_append_eq)

lemma fill_buckets_distinct: "distinct (map fst (fill_buckets f rs))"
  by (induction rs rule: rev_induct)
    (simp_all add: fill_buckets_snoc distinct_keys_push_all fill_buckets_def [of f "[]"] del: distinct_map)

lemma fill_buckets_holders: "entry_list (fill_buckets (bucket_keys h) rs) k = holders h rs k"
proof (induction rs rule: rev_induct)
  case (snoc r rs)
  have "filter (\<lambda>i. k \<in> set (bucket_keys h ((rs @ [r]) ! i))) [0..<length rs] =
      filter (\<lambda>i. k \<in> set (bucket_keys h (rs ! i))) [0..<length rs]"
    by (rule filter_cong) (auto simp: nth_append)
  then show ?case
    using snoc by (simp add: fill_buckets_snoc entry_list_push_all holders_def)
qed (simp add: fill_buckets_def holders_def)

lemma fill_buckets_mem:
  "(k, is) \<in> set (fill_buckets (bucket_keys h) rs) \<Longrightarrow> is = holders h rs k"
  by (drule entry_list_mem [OF fill_buckets_distinct]) (simp only: fill_buckets_holders)

lemma fill_buckets_complete:
  assumes "i \<in> set (holders h rs k)"
  shows "(k, holders h rs k) \<in> set (fill_buckets (bucket_keys h) rs)"
proof -
  have "entry_list (fill_buckets (bucket_keys h) rs) k \<noteq> []" using assms by (auto simp: fill_buckets_holders)
  then have "map_of (fill_buckets (bucket_keys h) rs) k \<noteq> None"
    unfolding entry_list_def by (metis option.simps(4))
  then have "k \<in> fst ` set (fill_buckets (bucket_keys h) rs)" by (simp add: map_of_eq_None_iff)
  from mem_entry_list [OF this] show ?thesis by (simp only: fill_buckets_holders)
qed

lemma set_index_pairs:
  "sorted_wrt (<) xs \<Longrightarrow> (i, j) \<in> set (index_pairs xs) \<longleftrightarrow> i \<in> set xs \<and> j \<in> set xs \<and> i < j"
  by (induction xs) auto

lemma holders_sorted: "sorted_wrt (<) (holders h rs k)"
  by (simp add: holders_def sorted_wrt_filter)

lemma set_candidate_pairs:
  "set (candidate_pairs cap buckets) =
     (\<Union>is \<in> {is \<in> snd ` set buckets. length is \<le> cap}. set (index_pairs is))"
proof -
  have "set (foldl (\<lambda>cs is. if cap < length is then cs else extend_new cs (index_pairs is)) cs0 xs) =
      set cs0 \<union> (\<Union>is \<in> {is \<in> set xs. length is \<le> cap}. set (index_pairs is))" for cs0 xs
    by (induction xs arbitrary: cs0) auto
  then show ?thesis by (simp add: candidate_pairs_def)
qed

lemma distinct_candidate_pairs: "distinct (candidate_pairs cap buckets)"
proof -
  have "distinct cs0 \<Longrightarrow>
      distinct (foldl (\<lambda>cs is. if cap < length is then cs else extend_new cs (index_pairs is)) cs0 xs)" for cs0 xs
    by (induction xs arbitrary: cs0) auto
  then show ?thesis by (simp add: candidate_pairs_def)
qed

definition comparable :: "IdentityHints \<Rightarrow> DeviceRecord list \<Rightarrow> nat \<Rightarrow> nat \<Rightarrow> bool" where
  "comparable h rs i j \<longleftrightarrow> i < j \<and> j < length rs \<and>
     (\<exists>k. k \<in> set (bucket_keys h (rs ! i)) \<and> k \<in> set (bucket_keys h (rs ! j)) \<and>
        length (holders h rs k) \<le> ih_max_correlation_bucket h)"

lemma candidates_comparable:
  "(i, j) \<in> set (candidate_pairs (ih_max_correlation_bucket h) (fill_buckets (bucket_keys h) rs)) \<longleftrightarrow>
   comparable h rs i j"
proof
  assume "(i, j) \<in> set (candidate_pairs (ih_max_correlation_bucket h) (fill_buckets (bucket_keys h) rs))"
  then obtain k "is" where m: "(k, is) \<in> set (fill_buckets (bucket_keys h) rs)"
    and l: "length is \<le> ih_max_correlation_bucket h" "(i, j) \<in> set (index_pairs is)"
    by (auto simp: set_candidate_pairs)
  have "(i, j) \<in> set (index_pairs (holders h rs k))"
    and len: "length (holders h rs k) \<le> ih_max_correlation_bucket h"
    using l unfolding fill_buckets_mem [OF m] by auto
  then have "i \<in> set (holders h rs k)" "j \<in> set (holders h rs k)" "i < j"
    using set_index_pairs [OF holders_sorted] by blast+
  with len show "comparable h rs i j" by (auto simp: comparable_def holders_def)
next
  assume c: "comparable h rs i j"
  then obtain k where k: "k \<in> set (bucket_keys h (rs ! i))" "k \<in> set (bucket_keys h (rs ! j))"
    "length (holders h rs k) \<le> ih_max_correlation_bucket h" by (auto simp: comparable_def)
  have ij: "i \<in> set (holders h rs k)" "j \<in> set (holders h rs k)" "i < j"
    using c k by (auto simp: comparable_def holders_def)
  have "holders h rs k \<in> {is \<in> snd ` set (fill_buckets (bucket_keys h) rs). length is \<le> ih_max_correlation_bucket h}"
    using fill_buckets_complete [OF ij(1)] k(3) by force
  moreover have "(i, j) \<in> set (index_pairs (holders h rs k))"
    using ij set_index_pairs [OF holders_sorted] by blast
  ultimately show "(i, j) \<in> set (candidate_pairs (ih_max_correlation_bucket h) (fill_buckets (bucket_keys h) rs))"
    unfolding set_candidate_pairs by (rule UN_I)
qed

lemma set_weigh:
  "(i, j, w) \<in> set (weigh h rs ps) \<longleftrightarrow>
     (i, j) \<in> set ps \<and> w = pair_weight h (rs ! i) (rs ! j) \<and> flt (Fin 0) w"
  by (auto simp: weigh_def)

lemma set_compute_pair_weights:
  assumes "mset (visit (candidate_pairs (ih_max_correlation_bucket h) (fill_buckets (bucket_keys h) rs))) =
    mset (candidate_pairs (ih_max_correlation_bucket h) (fill_buckets (bucket_keys h) rs))"
  shows "(i, j, w) \<in> set (compute_pair_weights visit h rs) \<longleftrightarrow>
    comparable h rs i j \<and> w = pair_weight h (rs ! i) (rs ! j) \<and> flt (Fin 0) w"
  using mset_eq_setD [OF assms] candidates_comparable [of i j h rs]
  by (simp add: compute_pair_weights_def set_weigh)

lemma set_bruteforce:
  "(i, j, w) \<in> set (compute_pair_weights_bruteforce h rs) \<longleftrightarrow>
    i < j \<and> j < length rs \<and> w = pair_weight h (rs ! i) (rs ! j) \<and> flt (Fin 0) w"
  by (auto simp: compute_pair_weights_bruteforce_def set_weigh set_index_pairs)

lemma distinct_weigh: "distinct ps \<Longrightarrow> distinct (weigh h rs ps)"
  unfolding weigh_def by (rule distinct_filter) (auto simp: distinct_map inj_on_def)

lemma index_pairs_mem: "(i, j) \<in> set (index_pairs xs) \<Longrightarrow> i \<in> set xs \<and> j \<in> set xs"
  by (induction xs) auto

lemma distinct_index_pairs: "distinct xs \<Longrightarrow> distinct (index_pairs xs)"
proof (induction xs)
  case (Cons a xs)
  have "set (map (Pair a) xs) \<inter> set (index_pairs xs) = {}"
    using index_pairs_mem [of a _ xs] Cons.prems by auto
  then show ?case using Cons by (simp add: distinct_map inj_on_def)
qed simp

lemma compute_pair_weights_distinct:
  assumes "\<And>xs. mset (visit xs) = mset xs"
  shows "distinct (compute_pair_weights visit h rs)"
  using assms distinct_candidate_pairs unfolding compute_pair_weights_def Let_def
  by (intro distinct_weigh) (metis mset_eq_imp_distinct_iff)

lemma bruteforce_distinct: "distinct (compute_pair_weights_bruteforce h rs)"
  unfolding compute_pair_weights_bruteforce_def by (intro distinct_weigh distinct_index_pairs) simp

end
