(* ===== verification/Union_Find.thy ===== *)
theory Union_Find
  imports Rust_Prelude
begin

text \<open>
  The disjoint-set forest of \<^verbatim>\<open>rastreo-core/src/fuser/identity.rs\<close> (\<^verbatim>\<open>struct UnionFind\<close>). Its loops
  follow parent pointers, so each is a \<^theory_text>\<open>partial_function (option)\<close>: \<^verbatim>\<open>None\<close> stands for an index out
  of range (a panic) or a loop that never stops. Ranks are the source's \<^verbatim>\<open>u8\<close>, and an increment that
  would overflow is a panic too. The invariant is that every parent is in range, ranks strictly grow
  towards a root, and a root of rank \<^verbatim>\<open>k\<close> represents at least \<^verbatim>\<open>2 ^ k\<close> elements; the last clause is
  what keeps the \<^verbatim>\<open>u8\<close> from overflowing.

  The interface the fuser relies on is the locale \<^verbatim>\<open>merge_structure\<close>; its client lemma says that
  merging along a list of pairs relates exactly the elements connected through the pairs.
\<close>

section \<open>The forest\<close>

record UnionFind =
  uf_parent :: "nat list"
  uf_rank :: "u8 list"

definition uf_new :: "nat \<Rightarrow> UnionFind" where
  "uf_new n = \<lparr>uf_parent = [0..<n], uf_rank = replicate n 0\<rparr>"

partial_function (option) root_from :: "nat list \<Rightarrow> nat \<Rightarrow> nat option" where
  "root_from p cur =
     (if cur < length p then (if p ! cur = cur then Some cur else root_from p (p ! cur)) else None)"

definition uf_find :: "UnionFind \<Rightarrow> nat \<Rightarrow> nat option" where
  "uf_find uf x = root_from (uf_parent uf) x"

partial_function (option) compress_from :: "nat list \<Rightarrow> nat \<Rightarrow> nat \<Rightarrow> nat list option" where
  "compress_from p root cur =
     (if cur < length p
      then (if p ! cur = root then Some p else compress_from (p[cur := root]) root (p ! cur))
      else None)"

definition uf_find_mut :: "UnionFind \<Rightarrow> nat \<Rightarrow> (nat \<times> UnionFind) option" where
  "uf_find_mut uf x =
     (case root_from (uf_parent uf) x of
        None \<Rightarrow> None
      | Some root \<Rightarrow>
          (case compress_from (uf_parent uf) root x of
             None \<Rightarrow> None
           | Some p \<Rightarrow> Some (root, uf\<lparr>uf_parent := p\<rparr>)))"

definition link_roots :: "UnionFind \<Rightarrow> nat \<Rightarrow> nat \<Rightarrow> UnionFind option" where
  "link_roots uf ra rb =
     (let p = uf_parent uf; r = uf_rank uf in
      if r ! ra < r ! rb then Some (uf\<lparr>uf_parent := p[ra := rb]\<rparr>)
      else if r ! rb < r ! ra then Some (uf\<lparr>uf_parent := p[rb := ra]\<rparr>)
      else if r ! ra = 255 then None
      else Some (uf\<lparr>uf_parent := p[rb := ra], uf_rank := r[ra := r ! ra + 1]\<rparr>))"

definition uf_union :: "UnionFind \<Rightarrow> nat \<Rightarrow> nat \<Rightarrow> UnionFind option" where
  "uf_union uf a b =
     (case uf_find_mut uf a of
        None \<Rightarrow> None
      | Some (ra, uf1) \<Rightarrow>
          (case uf_find_mut uf1 b of
             None \<Rightarrow> None
           | Some (rb, uf2) \<Rightarrow> if ra = rb then Some uf2 else link_roots uf2 ra rb))"

fun all_some :: "'a option list \<Rightarrow> 'a list option" where
  "all_some [] = Some []"
| "all_some (x # xs) =
     (case x of None \<Rightarrow> None | Some y \<Rightarrow> map_option (\<lambda>ys. y # ys) (all_some xs))"

definition uf_components :: "UnionFind \<Rightarrow> nat list option" where
  "uf_components uf = all_some (map (uf_find uf) [0..<length (uf_parent uf)])"

fun union_all :: "UnionFind \<Rightarrow> (nat \<times> nat) list \<Rightarrow> UnionFind option" where
  "union_all uf [] = Some uf"
| "union_all uf ((i, j) # es) =
     (case uf_union uf i j of None \<Rightarrow> None | Some uf' \<Rightarrow> union_all uf' es)"

section \<open>The interface\<close>

lemma rtrancl_absorb_left: "(R\<^sup>* \<union> E)\<^sup>* = (R \<union> E)\<^sup>*"
  by (metis rtrancl_Un_rtrancl rtrancl_idemp)

definition join_classes :: "(nat \<Rightarrow> nat \<Rightarrow> bool) \<Rightarrow> nat \<Rightarrow> nat \<Rightarrow> nat \<Rightarrow> nat \<Rightarrow> bool" where
  "join_classes same a b i j = (same i j \<or> (same i a \<and> same j b) \<or> (same i b \<and> same j a))"

locale merge_structure =
  fixes merge :: "'u \<Rightarrow> nat \<Rightarrow> nat \<Rightarrow> 'u option"
    and same :: "'u \<Rightarrow> nat \<Rightarrow> nat \<Rightarrow> bool"
    and size_of :: "'u \<Rightarrow> nat"
    and invar :: "'u \<Rightarrow> bool"
  assumes same_refl: "invar u \<Longrightarrow> i < size_of u \<Longrightarrow> same u i i"
    and same_sym: "invar u \<Longrightarrow> same u i j \<Longrightarrow> same u j i"
    and same_trans: "invar u \<Longrightarrow> same u i j \<Longrightarrow> same u j k \<Longrightarrow> same u i k"
    and merge_ok: "invar u \<Longrightarrow> a < size_of u \<Longrightarrow> b < size_of u \<Longrightarrow>
      \<exists>u'. merge u a b = Some u' \<and> invar u' \<and> size_of u' = size_of u \<and>
        (\<forall>i < size_of u. \<forall>j < size_of u. same u' i j \<longleftrightarrow> join_classes (same u) a b i j)"
begin

fun merge_all :: "'u \<Rightarrow> (nat \<times> nat) list \<Rightarrow> 'u option" where
  "merge_all u [] = Some u"
| "merge_all u ((a, b) # es) =
     (case merge u a b of None \<Rightarrow> None | Some u' \<Rightarrow> merge_all u' es)"

definition connects :: "'u \<Rightarrow> (nat \<times> nat) list \<Rightarrow> (nat \<times> nat) set" where
  "connects u es = ({(i, j). i < size_of u \<and> j < size_of u \<and> same u i j} \<union> set es \<union> (set es)\<inverse>)\<^sup>*"

lemma rel_subset_connects:
  "i < size_of u \<Longrightarrow> j < size_of u \<Longrightarrow> same u i j \<Longrightarrow> (i, j) \<in> connects u es"
  unfolding connects_def by auto

lemma connects_Cons:
  assumes u: "invar u" and ab: "a < size_of u" "b < size_of u"
    and u': "merge u a b = Some u'" "invar u'" "size_of u' = size_of u"
      "\<And>i j. i < size_of u \<Longrightarrow> j < size_of u \<Longrightarrow> same u' i j \<longleftrightarrow> join_classes (same u) a b i j"
  shows "connects u' es = connects u ((a, b) # es)"
proof -
  let ?S = "{(i, j). i < size_of u \<and> j < size_of u \<and> same u i j}"
  let ?S' = "{(i, j). i < size_of u \<and> j < size_of u \<and> same u' i j}"
  let ?E = "set es \<union> (set es)\<inverse>"
  let ?A = "{(a, b), (b, a)}"
  have up: "?S' \<subseteq> (?S \<union> ?A)\<^sup>*"
  proof clarify
    fix i j assume ij: "i < size_of u" "j < size_of u" and s: "same u' i j"
    have st: "same u i a \<Longrightarrow> (i, a) \<in> (?S \<union> ?A)\<^sup>*" "same u i b \<Longrightarrow> (i, b) \<in> (?S \<union> ?A)\<^sup>*"
      "same u j b \<Longrightarrow> (b, j) \<in> (?S \<union> ?A)\<^sup>*" "same u j a \<Longrightarrow> (a, j) \<in> (?S \<union> ?A)\<^sup>*"
      using ij ab same_sym [OF u] by (blast intro!: r_into_rtrancl)+
    have m: "(a, b) \<in> (?S \<union> ?A)\<^sup>*" "(b, a) \<in> (?S \<union> ?A)\<^sup>*" by auto
    from s u'(4) [OF ij] consider "same u i j" | "same u i a" "same u j b" | "same u i b" "same u j a"
      unfolding join_classes_def by blast
    then show "(i, j) \<in> (?S \<union> ?A)\<^sup>*"
    proof cases
      case 1
      then show ?thesis using ij by auto
    next
      case 2
      then show ?thesis by (rule rtrancl_trans [OF rtrancl_trans [OF st(1) m(1)] st(3)])
    next
      case 3
      then show ?thesis by (rule rtrancl_trans [OF rtrancl_trans [OF st(2) m(2)] st(4)])
    qed
  qed
  have down: "?S \<union> ?A \<subseteq> ?S'"
  proof -
    have "(a, b) \<in> ?S'" "(b, a) \<in> ?S'"
      using ab u'(4) same_refl [OF u] by (simp_all add: join_classes_def)
    moreover have "?S \<subseteq> ?S'" using u'(4) by (simp add: join_classes_def Collect_mono_iff split: prod.splits)
    ultimately show ?thesis by simp
  qed
  have eq: "?S'\<^sup>* = (?S \<union> ?A)\<^sup>*" by (rule rtrancl_subset [OF down up])
  have "connects u' es = (?S' \<union> ?E)\<^sup>*" by (simp add: connects_def u'(3) Un_assoc)
  also have "\<dots> = (?S'\<^sup>* \<union> ?E)\<^sup>*" by (rule rtrancl_absorb_left [symmetric])
  also have "\<dots> = ((?S \<union> ?A)\<^sup>* \<union> ?E)\<^sup>*" by (simp only: eq)
  also have "\<dots> = (?S \<union> ?A \<union> ?E)\<^sup>*" by (rule rtrancl_absorb_left)
  also have "?S \<union> ?A \<union> ?E = ?S \<union> set ((a, b) # es) \<union> (set ((a, b) # es))\<inverse>" by auto
  finally show ?thesis by (simp add: connects_def)
qed

lemma merge_all_ok:
  assumes "invar u" "\<forall>(a, b) \<in> set es. a < size_of u \<and> b < size_of u"
  shows "\<exists>u'. merge_all u es = Some u' \<and> invar u' \<and> size_of u' = size_of u \<and>
    (\<forall>i < size_of u. \<forall>j < size_of u. same u' i j \<longleftrightarrow> (i, j) \<in> connects u es)"
  using assms
proof (induction es arbitrary: u)
  case Nil
  let ?S = "{(i, j). i < size_of u \<and> j < size_of u \<and> same u i j}"
  have "same u i j" if "(i, j) \<in> ?S\<^sup>*" "i < size_of u" for i j
    using that(1)
  proof (induction rule: rtrancl_induct)
    case base
    show ?case using Nil(1) that(2) by (rule same_refl)
  next
    case (step j k)
    then show ?case using same_trans [OF Nil(1), of i j k] by simp
  qed
  then have "same u i j \<longleftrightarrow> (i, j) \<in> connects u []" if "i < size_of u" "j < size_of u" for i j
    using that by (auto simp: connects_def)
  then show ?case using Nil by simp
next
  case (Cons e es)
  obtain a b where e: "e = (a, b)" by fastforce
  then have ab: "a < size_of u" "b < size_of u" using Cons.prems by auto
  obtain u' where u': "merge u a b = Some u'" "invar u'" "size_of u' = size_of u"
    "\<forall>i < size_of u. \<forall>j < size_of u. same u' i j \<longleftrightarrow> join_classes (same u) a b i j"
    using merge_ok [OF Cons.prems(1) ab] by blast
  have eq: "connects u' es = connects u (e # es)"
    using connects_Cons [OF Cons.prems(1) ab u'(1-3)] u'(4) e by simp
  have "\<exists>u''. merge_all u' es = Some u'' \<and> invar u'' \<and> size_of u'' = size_of u' \<and>
    (\<forall>i < size_of u'. \<forall>j < size_of u'. same u'' i j \<longleftrightarrow> (i, j) \<in> connects u' es)"
    using Cons.IH [OF u'(2)] Cons.prems(2) u'(3) by auto
  then obtain u'' where u'': "merge_all u' es = Some u''" "invar u''" "size_of u'' = size_of u'"
    "\<forall>i < size_of u'. \<forall>j < size_of u'. same u'' i j \<longleftrightarrow> (i, j) \<in> connects u' es"
    by blast
  have "merge_all u (e # es) = Some u''" by (simp add: e u'(1) u''(1))
  moreover have "\<forall>i < size_of u. \<forall>j < size_of u. same u'' i j \<longleftrightarrow> (i, j) \<in> connects u (e # es)"
    using u''(4) unfolding eq u'(3) .
  ultimately show ?case using u''(2,3) u'(3) by simp
qed

end

section \<open>The forest implements the interface\<close>

definition uf_ranked :: "nat list \<Rightarrow> u8 list \<Rightarrow> bool" where
  "uf_ranked p r \<longleftrightarrow> length r = length p \<and>
     (\<forall>i < length p. p ! i < length p \<and> (p ! i \<noteq> i \<longrightarrow> r ! i < r ! (p ! i)))"

definition rep :: "nat list \<Rightarrow> nat \<Rightarrow> nat" where
  "rep p i = the (root_from p i)"

definition class_of :: "nat list \<Rightarrow> nat \<Rightarrow> nat set" where
  "class_of p x = {i. i < length p \<and> rep p i = x}"

definition uf_invar :: "UnionFind \<Rightarrow> bool" where
  "uf_invar uf \<longleftrightarrow> uf_ranked (uf_parent uf) (uf_rank uf) \<and> length (uf_parent uf) \<le> 2 ^ 64 \<and>
     (\<forall>x < length (uf_parent uf). uf_parent uf ! x = x \<longrightarrow>
        2 ^ unat (uf_rank uf ! x) \<le> card (class_of (uf_parent uf) x))"

definition uf_same :: "UnionFind \<Rightarrow> nat \<Rightarrow> nat \<Rightarrow> bool" where
  "uf_same uf i j \<longleftrightarrow> i < length (uf_parent uf) \<and> j < length (uf_parent uf) \<and>
     rep (uf_parent uf) i = rep (uf_parent uf) j"

lemma rank_measure: "(a :: u8) < b \<Longrightarrow> 256 - unat b < 256 - unat a"
  using unsigned_less [of b, where 'a = nat] by (simp add: word_less_nat_alt)

lemma uf_rankedD:
  assumes "uf_ranked p r" "i < length p"
  shows "p ! i < length p" "p ! i \<noteq> i \<Longrightarrow> r ! i < r ! (p ! i)"
  using assms by (auto simp: uf_ranked_def)

lemma ranked_induct [consumes 2, case_names root step]:
  assumes "uf_ranked p r" "i < length p"
    and root: "\<And>i. i < length p \<Longrightarrow> p ! i = i \<Longrightarrow> P i"
    and step: "\<And>i. i < length p \<Longrightarrow> p ! i \<noteq> i \<Longrightarrow> p ! i < length p \<Longrightarrow> P (p ! i) \<Longrightarrow> P i"
  shows "P i"
  using assms(2)
proof (induction "256 - unat (r ! i)" arbitrary: i rule: less_induct)
  case less
  show ?case
  proof (cases "p ! i = i")
    case True
    with less show ?thesis by (blast intro: root)
  next
    case False
    have pi: "p ! i < length p" "r ! i < r ! (p ! i)"
      using uf_rankedD [OF assms(1) less.prems] False by auto
    have "P (p ! i)" by (rule less.hyps) (use pi rank_measure in auto)
    with less.prems False pi show ?thesis by (blast intro: step)
  qed
qed

lemma root_from_total:
  assumes "uf_ranked p r" "i < length p"
  shows "\<exists>x. root_from p i = Some x \<and> x < length p \<and> p ! x = x \<and> r ! i \<le> r ! x"
  using assms
proof (induction i rule: ranked_induct)
  case (root i)
  then show ?case by (simp add: root_from.simps [of p i])
next
  case (step i)
  then obtain x where "root_from p (p ! i) = Some x" "x < length p" "p ! x = x" "r ! (p ! i) \<le> r ! x"
    by blast
  then show ?case using step uf_rankedD(2) [OF assms(1), of i]
    by (auto simp: root_from.simps [of p i])
qed

lemma rep_root [simp]: "i < length p \<Longrightarrow> p ! i = i \<Longrightarrow> rep p i = i"
  by (simp add: rep_def root_from.simps [of p i])

lemma rep_step: "i < length p \<Longrightarrow> p ! i \<noteq> i \<Longrightarrow> rep p i = rep p (p ! i)"
  by (simp add: rep_def root_from.simps [of p i])

lemma root_from_rep:
  assumes "uf_ranked p r" "i < length p"
  shows "root_from p i = Some (rep p i)" "rep p i < length p" "p ! rep p i = rep p i" "r ! i \<le> r ! rep p i"
  using root_from_total [OF assms] by (auto simp: rep_def)

lemma rep_rank_less:
  assumes "uf_ranked p r" "i < length p" "rep p i \<noteq> i"
  shows "r ! i < r ! rep p i"
proof -
  have "p ! i \<noteq> i" using assms by auto
  then show ?thesis
    using uf_rankedD [OF assms(1,2)] root_from_rep(4) [OF assms(1), of "p ! i"] rep_step [OF assms(2)]
    by (metis less_le_trans)
qed

subsection \<open>Path compression\<close>

lemma rep_shortcut:
  assumes "uf_ranked p r" "c < length p" "rep p c \<noteq> c"
  shows "uf_ranked (p[c := rep p c]) r" "i < length p \<Longrightarrow> rep (p[c := rep p c]) i = rep p i"
proof -
  let ?q = "p[c := rep p c]"
  show q: "uf_ranked ?q r"
    using assms root_from_rep [OF assms(1,2)] rep_rank_less [OF assms]
    by (auto simp: uf_ranked_def nth_list_update)
  show "rep ?q i = rep p i" if "i < length p"
    using assms(1) that
  proof (induction i rule: ranked_induct)
    case (root i)
    then have "i \<noteq> c" using assms(2,3) by auto
    then show ?case using root by simp
  next
    case (step i)
    show ?case
    proof (cases "i = c")
      case True
      have "?q ! rep p c = rep p c"
        using root_from_rep [OF assms(1,2)] assms(3) by (simp add: nth_list_update)
      then have "rep ?q (rep p c) = rep p c" using root_from_rep(2) [OF assms(1,2)] by simp
      then show ?thesis using True assms by (simp add: rep_step)
    next
      case False
      then show ?thesis using step by (simp add: rep_step)
    qed
  qed
qed

lemma compress_from_ok:
  assumes "uf_ranked p r" "c < length p"
  shows "\<exists>q. compress_from p (rep p c) c = Some q \<and> uf_ranked q r \<and> length q = length p \<and>
    (\<forall>i < length p. rep q i = rep p i)"
  using assms
proof (induction "256 - unat (r ! c)" arbitrary: p c rule: less_induct)
  case less
  show ?case
  proof (cases "p ! c = rep p c")
    case True
    then show ?thesis using less.prems by (simp add: compress_from.simps [of p _ c])
  next
    case False
    have nc: "p ! c \<noteq> c" using False less.prems by auto
    have rc: "rep p c \<noteq> c"
      using nc root_from_rep(3) [OF less.prems] by metis
    let ?q = "p[c := rep p c]"
    note q = rep_shortcut [OF less.prems rc]
    have d: "p ! c < length p" "r ! c < r ! (p ! c)" using uf_rankedD [OF less.prems] nc by auto
    have rq: "rep ?q (p ! c) = rep p c" using q(2) [OF d(1)] rep_step [OF less.prems(2) nc] by simp
    have "\<exists>q'. compress_from ?q (rep ?q (p ! c)) (p ! c) = Some q' \<and> uf_ranked q' r \<and>
        length q' = length ?q \<and> (\<forall>i < length ?q. rep q' i = rep ?q i)"
      by (rule less.hyps) (use d rank_measure q(1) in auto)
    then show ?thesis
      using q(2) rq False less.prems(2) by (auto simp: compress_from.simps [of p _ c])
  qed
qed

lemma class_of_cong:
  assumes "length q = length p" "\<forall>i < length p. rep q i = rep p i"
  shows "class_of q x = class_of p x"
  using assms by (auto simp: class_of_def)

lemma root_iff_rep: "uf_ranked p r \<Longrightarrow> x < length p \<Longrightarrow> p ! x = x \<longleftrightarrow> rep p x = x"
  using root_from_rep(3) [of p r x] by auto

lemma uf_find_mut_ok:
  assumes "uf_invar uf" "x < length (uf_parent uf)"
  shows "\<exists>uf'. uf_find_mut uf x = Some (rep (uf_parent uf) x, uf') \<and> uf_invar uf' \<and>
    length (uf_parent uf') = length (uf_parent uf) \<and>
    (\<forall>i < length (uf_parent uf). rep (uf_parent uf') i = rep (uf_parent uf) i)"
proof -
  let ?p = "uf_parent uf" and ?r = "uf_rank uf"
  have rk: "uf_ranked ?p ?r" using assms(1) by (simp add: uf_invar_def)
  obtain q where q: "compress_from ?p (rep ?p x) x = Some q" "uf_ranked q ?r" "length q = length ?p"
    "\<forall>i < length ?p. rep q i = rep ?p i"
    using compress_from_ok [OF rk assms(2)] by blast
  have "uf_invar (uf\<lparr>uf_parent := q\<rparr>)"
    using assms(1) q root_iff_rep [OF rk] root_iff_rep [OF q(2)] class_of_cong [OF q(3,4)]
    by (auto simp: uf_invar_def)
  then show ?thesis
    using q root_from_rep(1) [OF rk assms(2)] by (auto simp: uf_find_mut_def)
qed

subsection \<open>Linking two roots\<close>

lemma rep_attach:
  assumes "uf_ranked p r" "a < length p" "b < length p" "p ! a = a" "p ! b = b" "a \<noteq> b"
    and "i < length p"
  shows "rep (p[a := b]) i = (if rep p i = a then b else rep p i)"
  using assms(1,7)
proof (induction i rule: ranked_induct)
  case (root i)
  have "rep (p[a := b]) b = b" using assms by simp
  then show ?case using root assms by (cases "i = a") (auto simp: rep_step)
next
  case (step i)
  then have "i \<noteq> a" using assms(4) by auto
  then show ?case using step by (simp add: rep_step)
qed

lemma card_class_attach:
  assumes "uf_ranked p r" "a < length p" "b < length p" "p ! a = a" "p ! b = b" "a \<noteq> b"
  shows "card (class_of (p[a := b]) b) = card (class_of p a) + card (class_of p b)"
    "x \<noteq> a \<Longrightarrow> x \<noteq> b \<Longrightarrow> class_of (p[a := b]) x = class_of p x"
proof -
  note r = rep_attach [OF assms]
  have "class_of (p[a := b]) b = class_of p a \<union> class_of p b"
    using r assms(6) by (auto simp: class_of_def split: if_splits)
  moreover have "class_of p a \<inter> class_of p b = {}" using assms(6) by (auto simp: class_of_def)
  moreover have "finite (class_of p c)" for c by (simp add: class_of_def)
  ultimately show "card (class_of (p[a := b]) b) = card (class_of p a) + card (class_of p b)"
    by (simp add: card_Un_disjoint)
  show "class_of (p[a := b]) x = class_of p x" if "x \<noteq> a" "x \<noteq> b"
    using r that by (auto simp: class_of_def split: if_splits)
qed

lemma rank_bound:
  assumes "uf_invar uf" "x < length (uf_parent uf)" "uf_parent uf ! x = x"
  shows "unat (uf_rank uf ! x) \<le> 64"
proof -
  have "2 ^ unat (uf_rank uf ! x) \<le> card (class_of (uf_parent uf) x)"
    using assms by (simp add: uf_invar_def)
  also have "\<dots> \<le> card {..<length (uf_parent uf)}"
    by (rule card_mono) (auto simp: class_of_def)
  also have "\<dots> \<le> 2 ^ 64" using assms(1) by (simp add: uf_invar_def)
  finally show ?thesis by (simp only: power_increasing_iff)
qed

text \<open>Attaching root \<^verbatim>\<open>a\<close> below root \<^verbatim>\<open>b\<close>, whatever the new ranks are, keeps the invariant as long as
  the new ranks are ordered and only the rank of \<^verbatim>\<open>b\<close> changed within its new size.\<close>

lemma attach_invar:
  assumes inv: "uf_invar uf" and p: "p = uf_parent uf" and r: "r = uf_rank uf"
    and ab: "a < length p" "b < length p" "p ! a = a" "p ! b = b" "a \<noteq> b"
    and r': "length r' = length r" "\<And>x. x \<noteq> b \<Longrightarrow> x < length p \<Longrightarrow> r' ! x = r ! x"
      "r ! b \<le> r' ! b" "r ! a < r' ! b"
    and sz: "2 ^ unat (r' ! b) \<le> (2 ^ unat (r ! a) + 2 ^ unat (r ! b) :: nat)"
  shows "uf_invar (uf\<lparr>uf_parent := p[a := b], uf_rank := r'\<rparr>)"
proof -
  have rk: "uf_ranked p r" and len: "length p \<le> 2 ^ 64"
    and card: "\<And>x. x < length p \<Longrightarrow> p ! x = x \<Longrightarrow> 2 ^ unat (r ! x) \<le> card (class_of p x)"
    using inv p r by (auto simp: uf_invar_def)
  have up: "r ! x \<le> r' ! x" if "x < length p" for x
    using r' that by (cases "x = b") auto
  have "uf_ranked (p[a := b]) r'"
    unfolding uf_ranked_def
  proof (intro conjI allI impI)
    show "length r' = length (p[a := b])" using r' rk by (simp add: uf_ranked_def)
    fix i assume i: "i < length (p[a := b])"
    show "p[a := b] ! i < length (p[a := b])"
      using i ab uf_rankedD(1) [OF rk] by (simp add: nth_list_update)
    assume ne: "p[a := b] ! i \<noteq> i"
    show "r' ! i < r' ! (p[a := b] ! i)"
    proof (cases "i = a")
      case True
      then show ?thesis using ab r' by simp
    next
      case False
      then have "i \<noteq> b" "p ! i \<noteq> i" using ne ab by auto
      then show ?thesis
        using False i r'(2) uf_rankedD [OF rk, of i] up [of "p ! i"] by (auto intro: less_le_trans)
    qed
  qed
  moreover have "2 ^ unat (r' ! x) \<le> card (class_of (p[a := b]) x)"
    if x: "x < length p" "p[a := b] ! x = x" for x
  proof -
    have "x \<noteq> a" using x ab by auto
    show ?thesis
    proof (cases "x = b")
      case True
      have "2 ^ unat (r ! a) + 2 ^ unat (r ! b) \<le> card (class_of p a) + card (class_of p b)"
        using card ab by (intro add_mono) auto
      then show ?thesis using True sz card_class_attach(1) [OF rk ab] by simp
    next
      case False
      then show ?thesis
        using x \<open>x \<noteq> a\<close> r'(2) card card_class_attach(2) [OF rk ab \<open>x \<noteq> a\<close> False] by simp
    qed
  qed
  ultimately show ?thesis using len by (simp add: uf_invar_def)
qed

lemma link_roots_ok:
  assumes inv: "uf_invar uf" and p: "p = uf_parent uf"
    and ab: "a < length p" "b < length p" "p ! a = a" "p ! b = b" "a \<noteq> b"
  shows "\<exists>uf' c. link_roots uf a b = Some uf' \<and> uf_invar uf' \<and> length (uf_parent uf') = length p \<and>
    c \<in> {a, b} \<and>
    (\<forall>i < length p. rep (uf_parent uf') i = (if rep p i = a \<or> rep p i = b then c else rep p i))"
proof -
  let ?r = "uf_rank uf"
  have rk: "uf_ranked p ?r" using inv p by (simp add: uf_invar_def)
  have ba: "b < length p" "a < length p" "p ! b = b" "p ! a = a" "b \<noteq> a" using ab by auto
  note rep_ab = rep_attach [OF rk ab] and rep_ba = rep_attach [OF rk ba]
  consider "?r ! a < ?r ! b" | "?r ! b < ?r ! a" | "?r ! a = ?r ! b"
    by (meson linorder_less_linear)
  then show ?thesis
  proof cases
    case 1
    then have "uf_invar (uf\<lparr>uf_parent := p[a := b], uf_rank := ?r\<rparr>)"
      by (intro attach_invar [OF inv p refl ab]) auto
    moreover have "link_roots uf a b = Some (uf\<lparr>uf_parent := p[a := b], uf_rank := ?r\<rparr>)"
      using 1 p by (simp add: link_roots_def)
    ultimately show ?thesis using rep_ab by (intro exI [of _ "_ :: UnionFind"] exI [of _ b]) auto
  next
    case 2
    then have "uf_invar (uf\<lparr>uf_parent := p[b := a], uf_rank := ?r\<rparr>)"
      by (intro attach_invar [OF inv p refl ba]) auto
    moreover have "link_roots uf a b = Some (uf\<lparr>uf_parent := p[b := a], uf_rank := ?r\<rparr>)"
      using 2 p by (simp add: link_roots_def Let_def not_less [THEN iffD2, OF less_imp_le])
    ultimately show ?thesis using rep_ba by (intro exI [of _ "_ :: UnionFind"] exI [of _ a]) auto
  next
    case 3
    have bound: "unat (?r ! a) \<le> 64" using rank_bound [OF inv] ab p by simp
    then have ne: "?r ! a \<noteq> 255" by auto
    have suc: "unat (?r ! a + 1) = Suc (unat (?r ! a))"
      using bound by (subst unat_plus_simple [THEN iffD1]) (auto simp: word_le_nat_alt unat_word_ariths)
    let ?r' = "?r[a := ?r ! a + 1]"
    have la: "a < length ?r" using rk ab by (simp add: uf_ranked_def)
    have "uf_invar (uf\<lparr>uf_parent := p[b := a], uf_rank := ?r'\<rparr>)"
      by (intro attach_invar [OF inv p refl ba])
        (use 3 suc la in \<open>auto simp: word_le_nat_alt word_less_nat_alt nth_list_update\<close>)
    moreover have "link_roots uf a b = Some (uf\<lparr>uf_parent := p[b := a], uf_rank := ?r'\<rparr>)"
      using 3 p ne by (simp add: link_roots_def Let_def)
    ultimately show ?thesis using rep_ba by (intro exI [of _ "_ :: UnionFind"] exI [of _ a]) auto
  qed
qed

lemma uf_union_ok:
  assumes inv: "uf_invar uf" and ab: "a < length (uf_parent uf)" "b < length (uf_parent uf)"
  shows "\<exists>uf'. uf_union uf a b = Some uf' \<and> uf_invar uf' \<and>
    length (uf_parent uf') = length (uf_parent uf) \<and>
    (\<forall>i < length (uf_parent uf). \<forall>j < length (uf_parent uf).
       uf_same uf' i j \<longleftrightarrow> join_classes (uf_same uf) a b i j)"
proof -
  let ?n = "length (uf_parent uf)" and ?rep = "rep (uf_parent uf)"
  obtain u1 where u1: "uf_find_mut uf a = Some (?rep a, u1)" "uf_invar u1"
    "length (uf_parent u1) = ?n" "\<forall>i < ?n. rep (uf_parent u1) i = ?rep i"
    using uf_find_mut_ok [OF inv ab(1)] by blast
  then obtain u2 where u2: "uf_find_mut u1 b = Some (?rep b, u2)" "uf_invar u2"
    "length (uf_parent u2) = ?n" "\<forall>i < ?n. rep (uf_parent u2) i = ?rep i"
    using uf_find_mut_ok [OF u1(2), of b] ab by auto
  have rk: "uf_ranked (uf_parent u2) (uf_rank u2)" using u2(2) by (simp add: uf_invar_def)
  show ?thesis
  proof (cases "?rep a = ?rep b")
    case True
    then show ?thesis using u1 u2 ab by (auto simp: uf_union_def uf_same_def join_classes_def)
  next
    case False
    have roots: "?rep a < ?n" "?rep b < ?n" "uf_parent u2 ! ?rep a = ?rep a" "uf_parent u2 ! ?rep b = ?rep b"
      using root_from_rep [OF rk, of a] root_from_rep [OF rk, of b] u2 ab by auto
    obtain uf' c where l: "link_roots u2 (?rep a) (?rep b) = Some uf'" "uf_invar uf'"
      "length (uf_parent uf') = ?n" "c \<in> {?rep a, ?rep b}"
      "\<forall>i < ?n. rep (uf_parent uf') i =
        (if rep (uf_parent u2) i = ?rep a \<or> rep (uf_parent u2) i = ?rep b then c else rep (uf_parent u2) i)"
      using link_roots_ok [OF u2(2) refl _ _ roots(3,4) False] roots(1,2) unfolding u2(3) by blast
    have "\<forall>i < ?n. rep (uf_parent uf') i = (if ?rep i = ?rep a \<or> ?rep i = ?rep b then c else ?rep i)"
      using l(5) u2(4) by simp
    then show ?thesis using u1 u2 ab False l
      by (auto simp: uf_union_def uf_same_def join_classes_def)
  qed
qed

interpretation uf: merge_structure uf_union uf_same "\<lambda>u. length (uf_parent u)" uf_invar
proof unfold_locales
  show "\<exists>u'. uf_union u a b = Some u' \<and> uf_invar u' \<and> length (uf_parent u') = length (uf_parent u) \<and>
      (\<forall>i < length (uf_parent u). \<forall>j < length (uf_parent u).
        uf_same u' i j = join_classes (uf_same u) a b i j)"
    if "uf_invar u" "a < length (uf_parent u)" "b < length (uf_parent u)" for u a b
    using uf_union_ok [OF that] by simp
qed (auto simp: uf_same_def)

lemma union_all_merge_all: "union_all uf es = uf.merge_all uf es"
  by (induction uf es rule: union_all.induct) (simp_all split: option.splits)

lemma uf_invar_new: "n \<le> 2 ^ 64 \<Longrightarrow> uf_invar (uf_new n)"
proof -
  assume n: "n \<le> 2 ^ 64"
  have "class_of [0..<n] x = {x}" if "x < n" for x
    using that by (auto simp: class_of_def)
  then show ?thesis using n by (simp add: uf_invar_def uf_new_def uf_ranked_def)
qed

lemma uf_new_simps [simp]: "length (uf_parent (uf_new n)) = n" "uf_same (uf_new n) i j \<longleftrightarrow> i < n \<and> j = i"
  by (auto simp: uf_same_def uf_new_def)

lemma all_some_map_Some: "(\<And>x. x \<in> set xs \<Longrightarrow> f x = Some (g x)) \<Longrightarrow> all_some (map f xs) = Some (map g xs)"
  by (induction xs) auto

lemma uf_components_ok:
  assumes "uf_invar uf"
  shows "uf_components uf = Some (map (rep (uf_parent uf)) [0..<length (uf_parent uf)])"
proof -
  have "uf_ranked (uf_parent uf) (uf_rank uf)" using assms by (simp add: uf_invar_def)
  then show ?thesis
    unfolding uf_components_def
    by (intro all_some_map_Some) (simp add: uf_find_def root_from_rep(1))
qed

definition linked :: "(nat \<times> nat) list \<Rightarrow> (nat \<times> nat) set" where
  "linked es = (set es \<union> (set es)\<inverse>)\<^sup>*"

lemma connects_new: "uf.connects (uf_new n) es = linked es"
proof -
  have "({(i, j). i < n \<and> j < n \<and> uf_same (uf_new n) i j} \<union> (set es \<union> (set es)\<inverse>))\<^sup>* = (set es \<union> (set es)\<inverse>)\<^sup>*"
    by (rule rtrancl_subset) auto
  then show ?thesis by (simp add: uf.connects_def linked_def Un_assoc)
qed

text \<open>What a client gets: from a fresh forest, merging along in-range pairs ends without a panic, and
  two elements get the same component exactly when the pairs connect them.\<close>

lemma union_all_linked:
  assumes "n \<le> 2 ^ 64" "\<forall>(a, b) \<in> set es. a < n \<and> b < n"
  obtains uf where "union_all (uf_new n) es = Some uf" "uf_invar uf" "length (uf_parent uf) = n"
    "\<And>i j. i < n \<Longrightarrow> j < n \<Longrightarrow> uf_same uf i j \<longleftrightarrow> (i, j) \<in> linked es"
  using uf.merge_all_ok [OF uf_invar_new [OF assms(1)], of es] assms(2)
  by (auto simp: union_all_merge_all connects_new)

lemma uf_components_same:
  assumes "uf_invar uf"
  obtains reps where "uf_components uf = Some reps" "length reps = length (uf_parent uf)"
    "\<And>i j. i < length reps \<Longrightarrow> j < length reps \<Longrightarrow> reps ! i = reps ! j \<longleftrightarrow> uf_same uf i j"
  using uf_components_ok [OF assms] by (auto simp: uf_same_def)

end
