(* ===== verification/Identity_Merge.thy ===== *)
theory Identity_Merge
  imports Identity_Buckets Union_Find
begin

text \<open>
  The merge side of the identity fuser (\<^verbatim>\<open>fuser/identity.rs\<close>): choosing the medium-band peer a record
  points at, building the groups of a component list, and fusing a group into one record.
  \<^verbatim>\<open>merge_group\<close> works on a vector of optional records and takes the winning record out of it, as the
  code does; \<^verbatim>\<open>None\<close> of the result stands for a failed \<^verbatim>\<open>expect\<close>.

  The lemmas give every field of the fused record in terms of the members, the groups in terms of
  the components alone, and the chosen peer in terms of the set of peers alone.
\<close>

section \<open>Choosing a peer\<close>

record MediumPeer =
  mp_peer_index :: nat
  mp_weight :: f64

definition better_peer :: "nat \<times> f64 \<times> f64 \<Rightarrow> nat \<times> f64 \<times> f64 \<Rightarrow> bool" where
  "better_peer candidate current =
     (let (i, conf, weight) = candidate; (cur, cur_conf, cur_weight) = current in
      flt cur_conf conf \<or> (feq conf cur_conf \<and> flt cur_weight weight) \<or>
      (feq conf cur_conf \<and> feq weight cur_weight \<and> i < cur))"

definition pick_step ::
  "(IdentityKey \<times> f64) list \<Rightarrow> (nat \<times> f64 \<times> f64) option \<Rightarrow> MediumPeer \<Rightarrow> (nat \<times> f64 \<times> f64) option" where
  "pick_step snapshot best peer =
     (let candidate = (mp_peer_index peer, snd (snapshot ! mp_peer_index peer), mp_weight peer) in
      case best of
        None \<Rightarrow> Some candidate
      | Some current \<Rightarrow> Some (if better_peer candidate current then candidate else current))"

definition pick_best_medium_peer :: "MediumPeer list \<Rightarrow> (IdentityKey \<times> f64) list \<Rightarrow> IdentityKey option" where
  "pick_best_medium_peer peers snapshot =
     map_option (\<lambda>(i, _, _). fst (snapshot ! i)) (foldl (pick_step snapshot) None peers)"

definition push_at :: "'a list list \<Rightarrow> nat \<Rightarrow> 'a \<Rightarrow> 'a list list" where
  "push_at out i x = out[i := out ! i @ [x]]"

fun medium_loop ::
  "UnionFind \<Rightarrow> (nat \<times> nat \<times> f64) list \<Rightarrow> MediumPeer list list \<Rightarrow> MediumPeer list list option" where
  "medium_loop uf [] out = Some out"
| "medium_loop uf ((i, j, w) # ws) out =
     (if fle HIGH_BAND_THRESHOLD w then medium_loop uf ws out
      else if flt w MEDIUM_BAND_THRESHOLD then medium_loop uf ws out
      else case (uf_find uf i, uf_find uf j) of
             (Some a, Some b) \<Rightarrow>
               if a = b then medium_loop uf ws out
               else medium_loop uf ws
                 (push_at (push_at out i \<lparr>mp_peer_index = j, mp_weight = w\<rparr>)
                    j \<lparr>mp_peer_index = i, mp_weight = w\<rparr>)
           | _ \<Rightarrow> None)"

definition collect_medium_peers ::
  "nat \<Rightarrow> (nat \<times> nat \<times> f64) list \<Rightarrow> UnionFind \<Rightarrow> MediumPeer list list option" where
  "collect_medium_peers n weights uf = medium_loop uf weights (replicate n [])"

section \<open>Fusing a group\<close>

fun best_member :: "DeviceRecord option list \<Rightarrow> nat list \<Rightarrow> nat \<Rightarrow> f64 \<Rightarrow> (nat \<times> f64) option" where
  "best_member records [] best_idx best_conf = Some (best_idx, best_conf)"
| "best_member records (i # is) best_idx best_conf =
     (case records ! i of
        None \<Rightarrow> None
      | Some r \<Rightarrow>
          (let c = confidence_value (dr_confidence r) in
           if flt best_conf c then best_member records is i c else best_member records is best_idx best_conf))"

definition alt_ip_step ::
  "DeviceRecord option list \<Rightarrow> nat \<Rightarrow> AltIp list \<times> IpAddr set \<Rightarrow> nat \<Rightarrow> AltIp list \<times> IpAddr set" where
  "alt_ip_step records first_idx st i =
     (if i = first_idx then st
      else case records ! i of
             None \<Rightarrow> st
           | Some r \<Rightarrow>
               (case dr_mgmt_ip r of
                  None \<Rightarrow> st
                | Some ip \<Rightarrow>
                    (let (alt_ips, seen_ips) = st in
                     if ip \<in> seen_ips then st
                     else (alt_ips @ [\<lparr>alt_address = ip, alt_role = altip_role_from_mac (dr_mac r),
                                       alt_responded_via = dr_probe_kinds r\<rparr>], insert ip seen_ips))))"

definition merge_alt_ips :: "DeviceRecord option list \<Rightarrow> nat list \<Rightarrow> nat \<Rightarrow> IpAddr option \<Rightarrow> AltIp list" where
  "merge_alt_ips records members first_idx mgmt_ip =
     fst (foldl (alt_ip_step records first_idx) ([], set_option mgmt_ip) members)"

definition first_non_none ::
  "DeviceRecord option list \<Rightarrow> nat list \<Rightarrow> (DeviceRecord \<Rightarrow> string option) \<Rightarrow> string option" where
  "first_non_none records members f = find_map (\<lambda>i. Option.bind (records ! i) f) members"

definition merge_last_seen :: "DeviceRecord option list \<Rightarrow> nat list \<Rightarrow> system_time \<Rightarrow> system_time" where
  "merge_last_seen records members t0 =
     foldl (\<lambda>t i. case records ! i of None \<Rightarrow> t | Some r \<Rightarrow> if dr_last_seen r > t then dr_last_seen r else t)
       t0 members"

definition merge_signals :: "DeviceRecord option list \<Rightarrow> nat list \<Rightarrow> Signal list" where
  "merge_signals records members =
     foldl (\<lambda>acc i. case records ! i of None \<Rightarrow> acc | Some r \<Rightarrow> extend_new acc (dr_signals r)) [] members"

definition merge_probe_kinds :: "DeviceRecord option list \<Rightarrow> nat list \<Rightarrow> ProbeKind list" where
  "merge_probe_kinds records members =
     foldl (\<lambda>acc i. case records ! i of None \<Rightarrow> acc | Some r \<Rightarrow> extend_new acc (dr_probe_kinds r)) [] members"

definition merged_record ::
  "DeviceRecord option list \<Rightarrow> nat list \<Rightarrow> nat \<Rightarrow> DeviceRecord \<Rightarrow> Confidence \<Rightarrow> DeviceRecord" where
  "merged_record records members first_idx best confidence =
     (let mgmt_ip = Option.bind (records ! first_idx) dr_mgmt_ip;
          fill = (\<lambda>f. or_else (f best) (first_non_none records members f))
      in \<lparr>dr_identity_key = dr_identity_key best, dr_mgmt_ip = mgmt_ip, dr_mac = fill dr_mac,
          dr_manufacturer = fill dr_manufacturer, dr_model = fill dr_model,
          dr_product_family = fill dr_product_family, dr_platform = fill dr_platform,
          dr_os_version = fill dr_os_version, dr_ssh_version = fill dr_ssh_version,
          dr_http_server = fill dr_http_server, dr_http_version = fill dr_http_version,
          dr_role = fill dr_role, dr_confidence = confidence,
          dr_last_seen = merge_last_seen records members (dr_last_seen best),
          dr_signals = merge_signals records members, dr_probe_kinds = merge_probe_kinds records members,
          dr_schema_version = dr_schema_version best, dr_schema_id = dr_schema_id best,
          dr_alt_ips = merge_alt_ips records members first_idx mgmt_ip, dr_possible_alias_of = None,
          dr_scan_metadata = dr_scan_metadata best\<rparr>)"

definition merge_group ::
  "DeviceRecord option list \<Rightarrow> nat list \<Rightarrow> (DeviceRecord \<times> DeviceRecord option list) option" where
  "merge_group records members =
     (case members of
        [] \<Rightarrow> None
      | first_idx # rest \<Rightarrow>
          (case records ! first_idx of
             None \<Rightarrow> None
           | Some r \<Rightarrow>
               (case best_member records rest first_idx (confidence_value (dr_confidence r)) of
                  None \<Rightarrow> None
                | Some (best_idx, best_conf) \<Rightarrow>
                    (case confidence_new (fclamp (fadd best_conf MERGE_CONFIDENCE_BONUS) (Fin 0) (Fin 1)) of
                       Inl _ \<Rightarrow> None
                     | Inr confidence \<Rightarrow>
                         (case records ! best_idx of
                            None \<Rightarrow> None
                          | Some best \<Rightarrow>
                              Some (merged_record records members first_idx best confidence,
                                    records[best_idx := None]))))))"

section \<open>Groups\<close>

definition group_step ::
  "nat list list \<times> (nat \<rightharpoonup> nat) \<Rightarrow> nat \<times> nat \<Rightarrow> nat list list \<times> (nat \<rightharpoonup> nat)" where
  "group_step st ir =
     (let (groups, root_to_group) = st; (i, root) = ir in
      case root_to_group root of
        Some g \<Rightarrow> (push_at groups g i, root_to_group)
      | None \<Rightarrow> (groups @ [[i]], root_to_group(root \<mapsto> length groups)))"

definition group_members :: "nat list \<Rightarrow> nat list list" where
  "group_members components = fst (foldl group_step ([], Map.empty) (List.enumerate 0 components))"

fun merge_groups ::
  "MediumPeer list list \<Rightarrow> (IdentityKey \<times> f64) list \<Rightarrow> DeviceRecord option list \<Rightarrow> nat list list \<Rightarrow>
   DeviceRecord list option" where
  "merge_groups medium_peers snapshot opt_records [] = Some []"
| "merge_groups medium_peers snapshot opt_records (members # gs) =
     (if length members = 1
      then (let idx = hd members in
            case opt_records ! idx of
              None \<Rightarrow> None
            | Some r \<Rightarrow>
                (let r' = (case pick_best_medium_peer (medium_peers ! idx) snapshot of
                             Some peer \<Rightarrow> r\<lparr>dr_possible_alias_of := Some peer\<rparr>
                           | None \<Rightarrow> r)
                 in map_option (\<lambda>out. r' # out)
                      (merge_groups medium_peers snapshot (opt_records[idx := None]) gs)))
      else (case merge_group opt_records members of
              None \<Rightarrow> None
            | Some (merged, opt_records') \<Rightarrow>
                map_option (\<lambda>out. merged # out) (merge_groups medium_peers snapshot opt_records' gs)))"

definition merge_components ::
  "DeviceRecord list \<Rightarrow> nat list \<Rightarrow> MediumPeer list list \<Rightarrow> DeviceRecord list option" where
  "merge_components records components medium_peers =
     (let groups = group_members (take (length records) components);
          snapshot = map (\<lambda>r. (dr_identity_key r, confidence_value (dr_confidence r))) records
      in merge_groups medium_peers snapshot (map Some records) groups)"

section \<open>The chosen peer depends on the set of peers only\<close>

definition peer_candidate :: "(IdentityKey \<times> f64) list \<Rightarrow> MediumPeer \<Rightarrow> nat \<times> f64 \<times> f64" where
  "peer_candidate snapshot p = (mp_peer_index p, snd (snapshot ! mp_peer_index p), mp_weight p)"

definition finite_candidate :: "nat \<times> f64 \<times> f64 \<Rightarrow> bool" where
  "finite_candidate c \<longleftrightarrow> is_finite (fst (snd c)) \<and> is_finite (snd (snd c))"

lemma is_finiteE: "is_finite x \<Longrightarrow> (\<And>q. x = Fin q \<Longrightarrow> P) \<Longrightarrow> P"
  by (cases x) auto

lemma better_peer_trans:
  assumes "finite_candidate a" "finite_candidate b" "finite_candidate c" "better_peer a b" "better_peer b c"
  shows "better_peer a c"
  using assms
  by (cases a; cases b; cases c)
    (auto simp: finite_candidate_def better_peer_def feq_def elim!: is_finiteE)

lemma better_peer_total:
  assumes "finite_candidate a" "finite_candidate b" "\<not> better_peer a b" "a \<noteq> b"
  shows "better_peer b a"
  using assms
  by (cases a; cases b) (auto simp: finite_candidate_def better_peer_def feq_def elim!: is_finiteE)

lemma better_peer_asym:
  assumes "finite_candidate a" "finite_candidate b" "better_peer a b"
  shows "\<not> better_peer b a"
  using assms
  by (cases a; cases b) (auto simp: finite_candidate_def better_peer_def feq_def elim!: is_finiteE)

lemma foldl_pick_step:
  assumes "finite_candidate x" "\<forall>p \<in> set peers. finite_candidate (peer_candidate snapshot p)"
  shows "\<exists>m. foldl (pick_step snapshot) (Some x) peers = Some m \<and>
    m \<in> insert x (peer_candidate snapshot ` set peers) \<and>
    (\<forall>c \<in> insert x (peer_candidate snapshot ` set peers). c = m \<or> better_peer m c)"
  using assms
proof (induction peers arbitrary: x)
  case (Cons p ps)
  let ?c = "peer_candidate snapshot p"
  define y where "y = (if better_peer ?c x then ?c else x)"
  have y: "finite_candidate y" "pick_step snapshot (Some x) p = Some y"
    using Cons.prems by (auto simp: y_def pick_step_def peer_candidate_def Let_def)
  obtain m where m: "foldl (pick_step snapshot) (Some y) ps = Some m"
    "m \<in> insert y (peer_candidate snapshot ` set ps)"
    "\<forall>c \<in> insert y (peer_candidate snapshot ` set ps). c = m \<or> better_peer m c"
    using Cons.IH [OF y(1)] Cons.prems by auto
  have fin: "finite_candidate m" using m(2) y(1) Cons.prems by auto
  have yc: "c = y \<or> better_peer y c" if "c \<in> {x, ?c}" for c
    using that better_peer_total [of ?c x] Cons.prems by (auto simp: y_def)
  have my: "y = m \<or> better_peer m y" using m(3) by blast
  have "c = m \<or> better_peer m c" if "c \<in> {x, ?c}" for c
  proof -
    have "finite_candidate c" using that Cons.prems by auto
    from better_peer_trans [OF fin y(1) this] show ?thesis using my yc [OF that] by blast
  qed
  moreover have "m \<in> insert x (peer_candidate snapshot ` set (p # ps))"
    using m(2) by (auto simp: y_def split: if_splits)
  ultimately show ?case using m y(2) by auto
qed simp

lemma pick_best_cong:
  assumes "set ps = set qs" "\<forall>p \<in> set ps. finite_candidate (peer_candidate snapshot p)"
  shows "pick_best_medium_peer ps snapshot = pick_best_medium_peer qs snapshot"
proof -
  have best: "\<exists>m. foldl (pick_step snapshot) None xs = Some m \<and> m \<in> peer_candidate snapshot ` set xs \<and>
      (\<forall>c \<in> peer_candidate snapshot ` set xs. c = m \<or> better_peer m c)"
    if "xs \<noteq> []" "\<forall>p \<in> set xs. finite_candidate (peer_candidate snapshot p)" for xs
  proof -
    obtain p ps' where xs: "xs = p # ps'" using \<open>xs \<noteq> []\<close> by (cases xs) auto
    have "pick_step snapshot None p = Some (peer_candidate snapshot p)"
      by (simp add: pick_step_def peer_candidate_def Let_def)
    then show ?thesis
      using foldl_pick_step [of "peer_candidate snapshot p" ps' snapshot] that(2) xs by auto
  qed
  show ?thesis
  proof (cases "ps = []")
    case False
    then have "qs \<noteq> []" using assms(1) by auto
    obtain m where m: "foldl (pick_step snapshot) None ps = Some m" "m \<in> peer_candidate snapshot ` set ps"
      "\<forall>c \<in> peer_candidate snapshot ` set ps. c = m \<or> better_peer m c"
      using best [OF False] assms(2) by blast
    obtain k where k: "foldl (pick_step snapshot) None qs = Some k" "k \<in> peer_candidate snapshot ` set ps"
      "\<forall>c \<in> peer_candidate snapshot ` set ps. c = k \<or> better_peer k c"
      using best [OF \<open>qs \<noteq> []\<close>] assms by auto
    have "finite_candidate m" "finite_candidate k" using m(2) k(2) assms(2) by auto
    then have "m = k" using m(2,3) k(2,3) better_peer_asym by metis
    then show ?thesis using m(1) k(1) by (simp add: pick_best_medium_peer_def)
  qed (use assms(1) in simp)
qed

section \<open>Medium-band peers\<close>

definition medium_band :: "f64 \<Rightarrow> bool" where
  "medium_band w \<longleftrightarrow> \<not> fle HIGH_BAND_THRESHOLD w \<and> \<not> flt w MEDIUM_BAND_THRESHOLD"

definition medium_links :: "UnionFind \<Rightarrow> (nat \<times> nat \<times> f64) list \<Rightarrow> nat \<Rightarrow> MediumPeer set" where
  "medium_links uf ws k =
     {\<lparr>mp_peer_index = j, mp_weight = w\<rparr> | j w.
        ((k, j, w) \<in> set ws \<or> (j, k, w) \<in> set ws) \<and> medium_band w \<and> \<not> uf_same uf k j}"

lemma set_push_at:
  "i < length out \<Longrightarrow> set (push_at out i x ! k) = (if k = i then insert x (set (out ! k)) else set (out ! k))"
  by (simp add: push_at_def nth_list_update)

lemma length_push_at [simp]: "length (push_at out i x) = length out"
  by (simp add: push_at_def)

lemma medium_loop_ok:
  assumes "uf_invar uf" "n = length (uf_parent uf)" "length out = n"
    and "\<forall>(i, j, w) \<in> set ws. i < n \<and> j < n"
  shows "\<exists>out'. medium_loop uf ws out = Some out' \<and> length out' = n \<and>
    (\<forall>k < n. set (out' ! k) = set (out ! k) \<union> medium_links uf ws k)"
  using assms(3,4)
proof (induction ws arbitrary: out)
  case Nil
  then show ?case by (simp add: medium_links_def)
next
  case (Cons e ws)
  obtain i j w where e: "e = (i, j, w)" by (cases e)
  have ij: "i < n" "j < n" using Cons.prems(2) e by auto
  have rk: "uf_ranked (uf_parent uf) (uf_rank uf)" using assms(1) by (simp add: uf_invar_def)
  have find: "uf_find uf i = Some (rep (uf_parent uf) i)" "uf_find uf j = Some (rep (uf_parent uf) j)"
    using root_from_rep(1) [OF rk] ij assms(2) by (auto simp: uf_find_def)
  show ?case
  proof (cases "medium_band w \<and> \<not> uf_same uf i j")
    case False
    then have "medium_loop uf (e # ws) out = medium_loop uf ws out"
      using e find ij assms(2) by (auto simp: medium_band_def uf_same_def)
    moreover have "medium_links uf (e # ws) k = medium_links uf ws k" for k
      using False e uf.same_sym [OF assms(1)] by (auto simp: medium_links_def)
    ultimately show ?thesis using Cons.IH [of out] Cons.prems by simp
  next
    case True
    let ?out = "push_at (push_at out i \<lparr>mp_peer_index = j, mp_weight = w\<rparr>) j \<lparr>mp_peer_index = i, mp_weight = w\<rparr>"
    have "medium_loop uf (e # ws) out = medium_loop uf ws ?out"
      using True e find ij assms(2) by (auto simp: medium_band_def uf_same_def)
    moreover have "set (?out ! k) \<union> medium_links uf ws k = set (out ! k) \<union> medium_links uf (e # ws) k"
      if "k < n" for k
    proof -
      have "uf_same uf j i \<longleftrightarrow> uf_same uf i j" using uf.same_sym [OF assms(1)] by blast
      then show ?thesis using True e that ij Cons.prems(1)
        by (auto simp: medium_links_def set_push_at)
    qed
    ultimately show ?thesis using Cons.IH [of ?out] Cons.prems by auto
  qed
qed

lemma collect_medium_peers_ok:
  assumes "uf_invar uf" "n = length (uf_parent uf)" "\<forall>(i, j, w) \<in> set ws. i < n \<and> j < n"
  shows "\<exists>out. collect_medium_peers n ws uf = Some out \<and> length out = n \<and>
    (\<forall>k < n. set (out ! k) = medium_links uf ws k)"
  using medium_loop_ok [OF assms(1,2) _ assms(3), of "replicate n []"]
  by (auto simp: collect_medium_peers_def)

section \<open>The groups of a component list\<close>

definition leaders :: "nat list \<Rightarrow> nat list" where
  "leaders cs = filter (\<lambda>i. cs ! i \<notin> set (take i cs)) [0..<length cs]"

definition group_of :: "nat list \<Rightarrow> nat \<Rightarrow> nat list" where
  "group_of cs i = filter (\<lambda>j. cs ! j = cs ! i) [0..<length cs]"

lemma leaders_snoc: "leaders (cs @ [c]) = leaders cs @ (if c \<in> set cs then [] else [length cs])"
proof -
  have "filter (\<lambda>i. (cs @ [c]) ! i \<notin> set (take i (cs @ [c]))) [0..<length cs] = leaders cs"
    unfolding leaders_def by (rule filter_cong) (auto simp: nth_append)
  then show ?thesis by (simp add: leaders_def)
qed

lemma group_of_snoc:
  "i < length cs \<Longrightarrow> group_of (cs @ [c]) i = group_of cs i @ (if c = cs ! i then [length cs] else [])"
proof -
  assume i: "i < length cs"
  have "filter (\<lambda>j. (cs @ [c]) ! j = (cs @ [c]) ! i) [0..<length cs] = group_of cs i"
    unfolding group_of_def using i by (intro filter_cong) (auto simp: nth_append)
  then show ?thesis using i by (simp add: group_of_def nth_append)
qed

lemma leaders_bound: "i \<in> set (leaders cs) \<Longrightarrow> i < length cs"
  by (simp add: leaders_def)

lemma leaders_distinct_roots:
  assumes "i \<in> set (leaders cs)" "j \<in> set (leaders cs)" "cs ! i = cs ! j"
  shows "i = j"
proof (rule ccontr)
  assume "i \<noteq> j"
  then consider "i < j" | "j < i" by linarith
  then show False
    using assms
  proof cases
    case 1
    then have "cs ! i \<in> set (take j cs)"
      using assms(2) leaders_bound by (auto simp: in_set_conv_nth intro!: exI [of _ i])
    then show False using assms by (simp add: leaders_def)
  next
    case 2
    then have "cs ! j \<in> set (take i cs)"
      using assms(1) leaders_bound by (auto simp: in_set_conv_nth intro!: exI [of _ j])
    then show False using assms by (simp add: leaders_def)
  qed
qed

lemma leader_exists: "c \<in> set cs \<Longrightarrow> \<exists>i \<in> set (leaders cs). cs ! i = c"
proof (induction cs rule: rev_induct)
  case (snoc x xs)
  show ?case
  proof (cases "c \<in> set xs")
    case True
    then obtain i where "i \<in> set (leaders xs)" "xs ! i = c" using snoc.IH by blast
    then show ?thesis using leaders_bound by (auto simp: leaders_snoc nth_append)
  next
    case False
    then show ?thesis using snoc.prems by (auto simp: leaders_snoc)
  qed
qed simp

lemma distinct_leaders [simp]: "distinct (leaders cs)"
  by (simp add: leaders_def)

definition root_index :: "nat list \<Rightarrow> (nat \<rightharpoonup> nat) \<Rightarrow> bool" where
  "root_index cs m \<longleftrightarrow> (\<forall>r. case m r of
     None \<Rightarrow> r \<notin> set cs
   | Some g \<Rightarrow> g < length (leaders cs) \<and> cs ! (leaders cs ! g) = r)"

lemma root_indexD:
  assumes "root_index cs m"
  shows "m r = None \<Longrightarrow> r \<notin> set cs" "m r = Some g \<Longrightarrow> g < length (leaders cs)"
    "m r = Some g \<Longrightarrow> cs ! (leaders cs ! g) = r"
  using assms [unfolded root_index_def, THEN spec [of _ r]] by simp_all

lemma root_indexI:
  assumes "\<And>r. m r = None \<Longrightarrow> r \<notin> set cs"
    and "\<And>r g. m r = Some g \<Longrightarrow> g < length (leaders cs) \<and> cs ! (leaders cs ! g) = r"
  shows "root_index cs m"
  using assms by (simp add: root_index_def split: option.split)

lemma leader_nth: "g < length (leaders cs) \<Longrightarrow> leaders cs ! g < length cs"
  using leaders_bound [OF nth_mem] by blast

lemma group_run:
  "\<exists>m. foldl group_step ([], Map.empty) (List.enumerate 0 cs) = (map (group_of cs) (leaders cs), m) \<and>
    root_index cs m"
proof (induction cs rule: rev_induct)
  case Nil
  then show ?case by (simp add: root_index_def leaders_def)
next
  case (snoc c cs)
  then obtain m where m: "foldl group_step ([], Map.empty) (List.enumerate 0 cs) = (map (group_of cs) (leaders cs), m)"
    "root_index cs m" by blast
  have run: "foldl group_step ([], Map.empty) (List.enumerate 0 (cs @ [c])) =
      group_step (map (group_of cs) (leaders cs), m) (length cs, c)"
    by (simp add: enumerate_append_eq m(1))
  show ?case
  proof (cases "m c")
    case None
    then have new: "c \<notin> set cs" using root_indexD(1) [OF m(2)] by blast
    have "map (group_of (cs @ [c])) (leaders cs) = map (group_of cs) (leaders cs)"
      using new leaders_bound by (auto simp: group_of_snoc)
    moreover have "group_of (cs @ [c]) (length cs) = [length cs]"
      using new by (auto simp: group_of_def nth_append filter_empty_conv)
    moreover have "root_index (cs @ [c]) (m(c \<mapsto> length (leaders cs)))"
    proof (rule root_indexI)
      fix r h assume "(m(c \<mapsto> length (leaders cs))) r = Some h"
      then show "h < length (leaders (cs @ [c])) \<and> (cs @ [c]) ! (leaders (cs @ [c]) ! h) = r"
        using new root_indexD(2,3) [OF m(2), of r h] leader_nth [of h cs]
        by (auto simp: leaders_snoc nth_append split: if_splits)
    next
      fix r assume "(m(c \<mapsto> length (leaders cs))) r = None"
      then show "r \<notin> set (cs @ [c])"
        using root_indexD(1) [OF m(2), of r] by (simp split: if_splits)
    qed
    ultimately show ?thesis
      unfolding run using None new by (simp add: group_step_def leaders_snoc)
  next
    case (Some g)
    then have g: "g < length (leaders cs)" "cs ! (leaders cs ! g) = c"
      using root_indexD(2,3) [OF m(2)] by blast+
    have mem: "leaders cs ! g < length cs" using leader_nth [OF g(1)] .
    then have old: "c \<in> set cs" using g(2) nth_mem by blast
    have "map (group_of (cs @ [c])) (leaders cs) = push_at (map (group_of cs) (leaders cs)) g (length cs)"
    proof (rule nth_equalityI)
      fix k assume "k < length (map (group_of (cs @ [c])) (leaders cs))"
      then have k: "k < length (leaders cs)" by simp
      have "leaders cs ! k = leaders cs ! g \<longleftrightarrow> k = g" using k g(1) by (simp add: nth_eq_iff_index_eq)
      then have "c = cs ! (leaders cs ! k) \<longleftrightarrow> k = g"
        using leaders_distinct_roots [OF nth_mem [OF k] nth_mem [OF g(1)]] g(2) by metis
      then show "map (group_of (cs @ [c])) (leaders cs) ! k =
          push_at (map (group_of cs) (leaders cs)) g (length cs) ! k"
        using k g(1) leaders_bound [OF nth_mem [OF k]]
        by (auto simp: group_of_snoc push_at_def nth_list_update)
    qed simp
    moreover have "root_index (cs @ [c]) m"
    proof (rule root_indexI)
      fix r h assume "m r = Some h"
      then show "h < length (leaders (cs @ [c])) \<and> (cs @ [c]) ! (leaders (cs @ [c]) ! h) = r"
        using old root_indexD(2,3) [OF m(2), of r h] leader_nth [of h cs]
        by (simp add: leaders_snoc nth_append)
    next
      fix r assume "m r = None"
      then show "r \<notin> set (cs @ [c])" using root_indexD(1) [OF m(2), of r] Some by auto
    qed
    ultimately show ?thesis
      unfolding run using Some old by (simp add: group_step_def leaders_snoc)
  qed
qed

lemma group_members_eq: "group_members cs = map (group_of cs) (leaders cs)"
  using group_run [of cs] by (auto simp: group_members_def)

text \<open>The groups depend on which entries are equal, not on the entries.\<close>

lemma group_members_cong:
  assumes "length cs = length ds" "\<And>i j. i < length cs \<Longrightarrow> j < length cs \<Longrightarrow> cs ! i = cs ! j \<longleftrightarrow> ds ! i = ds ! j"
  shows "group_members cs = group_members ds"
proof -
  have "cs ! i \<in> set (take i cs) \<longleftrightarrow> ds ! i \<in> set (take i ds)" if "i < length cs" for i
    using assms that by (auto simp: in_set_conv_nth)
  then have "leaders cs = leaders ds" unfolding leaders_def using assms(1) by (auto intro!: filter_cong)
  moreover have "group_of cs i = group_of ds i" if "i \<in> set (leaders cs)" for i
    unfolding group_of_def using assms leaders_bound [OF that] by (auto intro!: filter_cong)
  ultimately show ?thesis by (simp add: group_members_eq)
qed

lemma group_members_partition:
  shows "g \<in> set (group_members cs) \<Longrightarrow> g \<noteq> [] \<and> set g \<subseteq> {..<length cs} \<and> sorted_wrt (<) g"
    and "i < length cs \<Longrightarrow> \<exists>g \<in> set (group_members cs). i \<in> set g"
    and "g \<in> set (group_members cs) \<Longrightarrow> i \<in> set g \<Longrightarrow> j < length cs \<Longrightarrow> j \<in> set g \<longleftrightarrow> cs ! i = cs ! j"
proof -
  show "g \<noteq> [] \<and> set g \<subseteq> {..<length cs} \<and> sorted_wrt (<) g" if g: "g \<in> set (group_members cs)"
  proof -
    obtain l where l: "l \<in> set (leaders cs)" "g = group_of cs l" using g by (auto simp: group_members_eq)
    then have "l \<in> set g" using leaders_bound by (auto simp: group_of_def)
    then have "g \<noteq> []" by auto
    moreover have "set g \<subseteq> {..<length cs} \<and> sorted_wrt (<) g"
      unfolding l(2) by (auto simp: group_of_def sorted_wrt_filter)
    ultimately show ?thesis by blast
  qed
  show "\<exists>g \<in> set (group_members cs). i \<in> set g" if i: "i < length cs"
  proof -
    obtain l where "l \<in> set (leaders cs)" "cs ! l = cs ! i" using leader_exists [OF nth_mem [OF i]] by blast
    then have "group_of cs l \<in> set (group_members cs)" "i \<in> set (group_of cs l)"
      using i by (simp add: group_members_eq, simp add: group_of_def)
    then show ?thesis by blast
  qed
  show "j \<in> set g \<longleftrightarrow> cs ! i = cs ! j" if g: "g \<in> set (group_members cs)" "i \<in> set g" "j < length cs"
  proof -
    obtain l where "g = group_of cs l" using g(1) by (auto simp: group_members_eq)
    then show ?thesis using g(2,3) by (auto simp: group_of_def)
  qed
qed

lemma group_members_disjoint:
  assumes "a < b" "b < length (group_members cs)"
  shows "set (group_members cs ! a) \<inter> set (group_members cs ! b) = {}"
proof -
  have ab: "a < length (leaders cs)" "b < length (leaders cs)" using assms by (simp_all add: group_members_eq)
  then have "leaders cs ! a \<noteq> leaders cs ! b" using assms(1) by (simp add: nth_eq_iff_index_eq)
  then have "cs ! (leaders cs ! a) \<noteq> cs ! (leaders cs ! b)"
    using leaders_distinct_roots [OF nth_mem [OF ab(1)] nth_mem [OF ab(2)]] by auto
  then have "set (group_of cs (leaders cs ! a)) \<inter> set (group_of cs (leaders cs ! b)) = {}"
    by (auto simp: group_of_def)
  then show ?thesis using ab by (simp add: group_members_eq)
qed

end
