(* ===== verification/Identity_Fusion.thy ===== *)
theory Identity_Fusion
  imports Identity_Merge
begin

text \<open>
  What fusing a group of records means, independently of how the identity fuser computes it, and that
  \<^verbatim>\<open>merge_group\<close> and \<^verbatim>\<open>merge_components\<close> compute it without a failing \<^verbatim>\<open>expect\<close>. The specification
  \<^verbatim>\<open>fuses\<close> relates the members' records, in order, to the fused record.
\<close>

section \<open>Specification\<close>

definition conf_of :: "DeviceRecord \<Rightarrow> f64" where
  "conf_of r = confidence_value (dr_confidence r)"

definition valid_confidence :: "DeviceRecord \<Rightarrow> bool" where
  "valid_confidence r \<longleftrightarrow> (\<exists>c. dr_confidence r = Confidence (Fin c) \<and> 0 \<le> c \<and> c \<le> 1)"

definition optional_fields :: "(DeviceRecord \<Rightarrow> string option) list" where
  "optional_fields = [dr_mac, dr_manufacturer, dr_model, dr_product_family, dr_platform, dr_os_version,
     dr_ssh_version, dr_http_server, dr_http_version, dr_role]"

definition mgmt_ips :: "DeviceRecord list \<Rightarrow> IpAddr set" where
  "mgmt_ips rs = {ip. \<exists>r \<in> set rs. dr_mgmt_ip r = Some ip}"

text \<open>The winner is the first member of maximal confidence; it gives the identity, and the optional
  fields unless it lacks them, in which case the first member that has one does.\<close>

definition wins :: "DeviceRecord list \<Rightarrow> DeviceRecord \<Rightarrow> bool" where
  "wins rs best \<longleftrightarrow> (\<exists>xs ys. rs = xs @ best # ys \<and>
     (\<forall>r \<in> set xs. flt (conf_of r) (conf_of best)) \<and> (\<forall>r \<in> set ys. fle (conf_of r) (conf_of best)))"

definition fuses :: "DeviceRecord list \<Rightarrow> DeviceRecord \<Rightarrow> bool" where
  "fuses rs m \<longleftrightarrow>
     (\<exists>best. wins rs best \<and> dr_identity_key m = dr_identity_key best \<and>
        dr_scan_metadata m = dr_scan_metadata best \<and> dr_schema_version m = dr_schema_version best \<and>
        dr_schema_id m = dr_schema_id best \<and>
        dr_confidence m = Confidence (fclamp (fadd (conf_of best) MERGE_CONFIDENCE_BONUS) (Fin 0) (Fin 1)) \<and>
        (\<forall>f \<in> set optional_fields. f m = or_else (f best) (find_map f rs))) \<and>
     valid_confidence m \<and>
     dr_mgmt_ip m = dr_mgmt_ip (hd rs) \<and>
     distinct (map alt_address (dr_alt_ips m)) \<and>
     alt_address ` set (dr_alt_ips m) = mgmt_ips rs - set_option (dr_mgmt_ip m) \<and>
     distinct (dr_signals m) \<and> set (dr_signals m) = (\<Union>r \<in> set rs. set (dr_signals r)) \<and>
     distinct (dr_probe_kinds m) \<and> set (dr_probe_kinds m) = (\<Union>r \<in> set rs. set (dr_probe_kinds r)) \<and>
     dr_last_seen m = Max (dr_last_seen ` set rs) \<and>
     dr_possible_alias_of m = None"

section \<open>The loops over the members\<close>

lemma best_member_ok:
  assumes "\<forall>i \<in> set (b # is). valid_confidence (R i)" "\<forall>i \<in> set is. records ! i = Some (R i)"
  shows "\<exists>w xs ys. best_member records is b (conf_of (R b)) = Some (w, conf_of (R w)) \<and>
    b # is = xs @ w # ys \<and> (\<forall>i \<in> set xs. flt (conf_of (R i)) (conf_of (R w))) \<and>
    (\<forall>i \<in> set ys. fle (conf_of (R i)) (conf_of (R w)))"
  using assms
proof (induction "is" arbitrary: b)
  case Nil
  show ?case by (rule exI [of _ b], rule exI [of _ "[]"], rule exI [of _ "[]"]) simp
next
  case (Cons i "is")
  obtain cb ci where c: "conf_of (R b) = Fin cb" "conf_of (R i) = Fin ci"
    using Cons.prems(1) by (auto simp: valid_confidence_def conf_of_def)
  have fin: "\<exists>c. conf_of (R j) = Fin c" if "j \<in> set (b # i # is)" for j
    using Cons.prems(1) that by (auto simp: valid_confidence_def conf_of_def)
  show ?case
  proof (cases "cb < ci")
    case True
    obtain w xs ys where w: "best_member records is i (conf_of (R i)) = Some (w, conf_of (R w))"
      "i # is = xs @ w # ys" "\<forall>j \<in> set xs. flt (conf_of (R j)) (conf_of (R w))"
      "\<forall>j \<in> set ys. fle (conf_of (R j)) (conf_of (R w))"
      using Cons.IH [of i] Cons.prems by auto
    have "w \<in> set (b # i # is)" "i = w \<or> i \<in> set xs" using w(2) by (auto simp: Cons_eq_append_conv)
    then have "flt (conf_of (R b)) (conf_of (R w))" using True c w(3) fin by fastforce
    moreover have "best_member records (i # is) b (conf_of (R b)) = Some (w, conf_of (R w))"
      using True c w(1) Cons.prems by (simp add: conf_of_def Let_def)
    ultimately show ?thesis using w by (intro exI [of _ w] exI [of _ "b # xs"] exI [of _ ys]) auto
  next
    case False
    obtain w xs ys where w: "best_member records is b (conf_of (R b)) = Some (w, conf_of (R w))"
      "b # is = xs @ w # ys" "\<forall>j \<in> set xs. flt (conf_of (R j)) (conf_of (R w))"
      "\<forall>j \<in> set ys. fle (conf_of (R j)) (conf_of (R w))"
      using Cons.IH [of b] Cons.prems by auto
    have step: "best_member records (i # is) b (conf_of (R b)) = Some (w, conf_of (R w))"
      using False c w(1) Cons.prems by (simp add: conf_of_def Let_def)
    show ?thesis
    proof (cases xs)
      case Nil
      then have "b # i # is = [] @ w # (i # ys)" "fle (conf_of (R i)) (conf_of (R w))"
        using w(2) c False by auto
      then show ?thesis using step w(4) by (intro exI [of _ w] exI [of _ "[]"] exI [of _ "i # ys"]) auto
    next
      case (Cons x xs')
      then have eq: "b # i # is = (b # i # xs') @ w # ys" and "x = b" using w(2) by auto
      obtain cw where "conf_of (R w) = Fin cw" using fin [of w] eq by auto
      then have "flt (conf_of (R i)) (conf_of (R w))" using w(3) Cons \<open>x = b\<close> c False by auto
      then show ?thesis
        using step w(3,4) Cons eq \<open>x = b\<close> by (intro exI [of _ w] exI [of _ "b # i # xs'"] exI [of _ ys]) auto
    qed
  qed
qed

lemma alt_ip_fold:
  assumes "\<forall>i \<in> set is. records ! i = Some (R i)"
    and "foldl (alt_ip_step records first) (alts, seen) is = (alts', seen')"
    and "distinct (map alt_address alts)" "alt_address ` set alts \<subseteq> seen"
  shows "distinct (map alt_address alts') \<and>
    alt_address ` set alts' = alt_address ` set alts \<union> ({ip. \<exists>i \<in> set is. i \<noteq> first \<and> dr_mgmt_ip (R i) = Some ip} - seen)"
  using assms
proof (induction "is" arbitrary: alts seen)
  case (Cons i "is")
  obtain a1 s1 where step: "alt_ip_step records first (alts, seen) i = (a1, s1)" by fastforce
  have "(a1, s1) = (alts, seen) \<and> (i = first \<or> dr_mgmt_ip (R i) = None \<or> (\<exists>ip \<in> seen. dr_mgmt_ip (R i) = Some ip)) \<or>
    (\<exists>ip x. i \<noteq> first \<and> dr_mgmt_ip (R i) = Some ip \<and> ip \<notin> seen \<and> alt_address x = ip \<and> a1 = alts @ [x] \<and> s1 = insert ip seen)"
    using step Cons.prems(1) by (auto simp: alt_ip_step_def split: if_splits option.splits)
  note steps = this
  have run: "foldl (alt_ip_step records first) (a1, s1) is = (alts', seen')" using Cons.prems(2) step by simp
  from steps consider "(a1, s1) = (alts, seen)" "i = first \<or> dr_mgmt_ip (R i) = None \<or> (\<exists>ip \<in> seen. dr_mgmt_ip (R i) = Some ip)"
    | ip x where "i \<noteq> first" "dr_mgmt_ip (R i) = Some ip" "ip \<notin> seen" "alt_address x = ip" "a1 = alts @ [x]" "s1 = insert ip seen"
    by blast
  note split = this
  have inv: "distinct (map alt_address a1)" "alt_address ` set a1 \<subseteq> s1"
    using Cons.prems(3,4) by (cases rule: split; auto)+
  have IH: "distinct (map alt_address alts')" "alt_address ` set alts' =
      alt_address ` set a1 \<union> ({ip. \<exists>i \<in> set is. i \<noteq> first \<and> dr_mgmt_ip (R i) = Some ip} - s1)"
    using Cons.IH [OF _ run inv] Cons.prems(1) by simp_all
  have "alt_address ` set alts' = alt_address ` set alts \<union>
      ({ip. \<exists>j \<in> set (i # is). j \<noteq> first \<and> dr_mgmt_ip (R j) = Some ip} - seen)"
    using IH(2) by (cases rule: split) auto
  with IH(1) show ?case by blast
qed auto

lemma fold_extend_new:
  assumes "\<forall>i \<in> set is. records ! i = Some (R i)"
  shows "set (foldl (\<lambda>acc i. case records ! i of None \<Rightarrow> acc | Some r \<Rightarrow> extend_new acc (f r)) acc is) =
      set acc \<union> (\<Union>i \<in> set is. set (f (R i)))"
    "distinct (foldl (\<lambda>acc i. case records ! i of None \<Rightarrow> acc | Some r \<Rightarrow> extend_new acc (f r)) acc is) = distinct acc"
  using assms by (induction "is" arbitrary: acc) auto

lemma merge_last_seen_Max:
  assumes "\<forall>i \<in> set is. records ! i = Some (R i)"
  shows "merge_last_seen records is t = Max (insert t ((\<lambda>i. dr_last_seen (R i)) ` set is))"
  using assms
proof (induction "is" arbitrary: t)
  case (Cons i "is")
  have "merge_last_seen records (i # is) t = merge_last_seen records is (max t (dr_last_seen (R i)))"
    using Cons.prems by (simp add: merge_last_seen_def max_def)
  also have "\<dots> = Max (insert (max t (dr_last_seen (R i))) ((\<lambda>i. dr_last_seen (R i)) ` set is))"
    using Cons by simp
  also have "\<dots> = Max (insert t (insert (dr_last_seen (R i)) ((\<lambda>i. dr_last_seen (R i)) ` set is)))"
    by (cases "is = []") (simp_all add: max.assoc)
  finally show ?case by simp
qed (simp add: merge_last_seen_def)

lemma first_non_none_map:
  assumes "\<forall>i \<in> set is. records ! i = Some (R i)"
  shows "first_non_none records is f = find_map f (map R is)"
  using assms unfolding first_non_none_def by (induction "is") (auto split: option.splits)

section \<open>Fusing a group meets the specification\<close>

lemma merged_confidence:
  assumes "conf_of r = Fin c"
  shows "\<exists>q. fclamp (fadd (conf_of r) MERGE_CONFIDENCE_BONUS) (Fin 0) (Fin 1) = Fin q \<and> 0 \<le> q \<and> q \<le> 1"
proof -
  have "fadd (conf_of r) MERGE_CONFIDENCE_BONUS \<noteq> NaN" using assms by (simp add: weight_constants)
  then show ?thesis by (rule fclamp_unit)
qed

lemma merged_record_fuses:
  assumes "is = first # rest" "\<forall>i \<in> set is. records ! i = Some (R i)" "w \<in> set is" "wins (map R is) (R w)"
    and "c = Confidence (fclamp (fadd (conf_of (R w)) MERGE_CONFIDENCE_BONUS) (Fin 0) (Fin 1))"
    and "\<exists>q. c = Confidence (Fin q) \<and> 0 \<le> q \<and> q \<le> 1"
  shows "fuses (map R is) (merged_record records is first (R w) c)"
proof -
  let ?m = "merged_record records is first (R w) c"
  have first: "records ! first = Some (R first)" using assms(1,2) by simp
  have fill: "or_else (f (R w)) (first_non_none records is f) = or_else (f (R w)) (find_map f (map R is))" for f
    using first_non_none_map [OF assms(2)] by simp
  have mgmt: "dr_mgmt_ip ?m = dr_mgmt_ip (R first)" by (simp add: merged_record_def Let_def first)
  obtain alts seen where run: "foldl (alt_ip_step records first) ([], set_option (dr_mgmt_ip (R first))) is = (alts, seen)"
    by fastforce
  then have alts: "dr_alt_ips ?m = alts" by (simp add: merged_record_def merge_alt_ips_def Let_def first)
  have "distinct (map alt_address alts) \<and> alt_address ` set alts =
      {ip. \<exists>i \<in> set is. i \<noteq> first \<and> dr_mgmt_ip (R i) = Some ip} - set_option (dr_mgmt_ip (R first))"
    using alt_ip_fold [OF assms(2) run] by simp
  moreover have "{ip. \<exists>i \<in> set is. i \<noteq> first \<and> dr_mgmt_ip (R i) = Some ip} - set_option (dr_mgmt_ip (R first)) =
      mgmt_ips (map R is) - set_option (dr_mgmt_ip (R first))"
    by (auto simp: mgmt_ips_def)
  ultimately have alt: "distinct (map alt_address (dr_alt_ips ?m))"
    "alt_address ` set (dr_alt_ips ?m) = mgmt_ips (map R is) - set_option (dr_mgmt_ip ?m)"
    using alts mgmt by auto
  have sig: "distinct (dr_signals ?m)" "set (dr_signals ?m) = (\<Union>r \<in> set (map R is). set (dr_signals r))"
    using fold_extend_new [OF assms(2), of dr_signals "[]"] by (simp_all add: merged_record_def merge_signals_def Let_def)
  have kinds: "distinct (dr_probe_kinds ?m)" "set (dr_probe_kinds ?m) = (\<Union>r \<in> set (map R is). set (dr_probe_kinds r))"
    using fold_extend_new [OF assms(2), of dr_probe_kinds "[]"]
    by (simp_all add: merged_record_def merge_probe_kinds_def Let_def)
  have "insert (dr_last_seen (R w)) ((\<lambda>i. dr_last_seen (R i)) ` set is) = dr_last_seen ` set (map R is)"
    using assms(3) by auto
  then have seen: "dr_last_seen ?m = Max (dr_last_seen ` set (map R is))"
    using merge_last_seen_Max [OF assms(2)] by (simp add: merged_record_def Let_def)
  have opt: "\<forall>f \<in> set optional_fields. f ?m = or_else (f (R w)) (find_map f (map R is))"
    by (simp add: optional_fields_def merged_record_def Let_def fill)
  have fixed: "dr_identity_key ?m = dr_identity_key (R w)" "dr_scan_metadata ?m = dr_scan_metadata (R w)"
    "dr_schema_version ?m = dr_schema_version (R w)" "dr_schema_id ?m = dr_schema_id (R w)"
    "dr_confidence ?m = c" "dr_possible_alias_of ?m = None"
    by (simp_all add: merged_record_def Let_def)
  show ?thesis
    unfolding fuses_def
    using alt sig kinds seen opt fixed assms(4,5,6) mgmt assms(1)
    by (intro conjI exI [of _ "R w"]) (simp_all add: valid_confidence_def)
qed

lemma merge_group_ok:
  assumes "is \<noteq> []" "\<forall>i \<in> set is. records ! i = Some (R i)" "\<forall>i \<in> set is. valid_confidence (R i)"
  shows "\<exists>w m. w \<in> set is \<and> merge_group records is = Some (m, records[w := None]) \<and> fuses (map R is) m"
proof -
  obtain first rest where "is": "is = first # rest" using assms(1) by (cases "is") auto
  obtain w xs ys where w: "best_member records rest first (conf_of (R first)) = Some (w, conf_of (R w))"
    "is = xs @ w # ys" "\<forall>i \<in> set xs. flt (conf_of (R i)) (conf_of (R w))"
    "\<forall>i \<in> set ys. fle (conf_of (R i)) (conf_of (R w))"
    using best_member_ok [of first rest R records] assms "is" by auto
  have mem: "w \<in> set is" using w(2) by simp
  have wins: "wins (map R is) (R w)"
    unfolding wins_def using w by (intro exI [of _ "map R xs"] exI [of _ "map R ys"]) auto
  obtain c where "conf_of (R w) = Fin c" using assms(3) mem by (auto simp: valid_confidence_def conf_of_def)
  then obtain q where q: "fclamp (fadd (conf_of (R w)) MERGE_CONFIDENCE_BONUS) (Fin 0) (Fin 1) = Fin q" "0 \<le> q" "q \<le> 1"
    using merged_confidence by blast
  let ?m = "merged_record records is first (R w) (Confidence (Fin q))"
  have "records ! w = Some (R w)" using assms(2) mem by blast
  then have "merge_group records is = Some (?m, records[w := None])"
    using w(1) q assms(2) "is" by (simp add: merge_group_def conf_of_def confidence_new_Fin)
  moreover have "fuses (map R is) ?m"
    by (rule merged_record_fuses [OF "is" assms(2) mem wins]) (use q in simp_all)
  ultimately show ?thesis using mem by blast
qed

text \<open>Fusing reads the members only.\<close>

lemma best_member_cong:
  "\<forall>i \<in> set is. r1 ! i = r2 ! i \<Longrightarrow> best_member r1 is b c = best_member r2 is b c"
  by (induction "is" arbitrary: b c) (simp_all add: Let_def split: option.split)

lemma best_member_mem: "best_member rs is b c = Some (w, cw) \<Longrightarrow> w \<in> set (b # is)"
  by (induction "is" arbitrary: b c) (auto simp: Let_def split: option.splits if_splits)

lemma fold_extend_cong:
  assumes "\<forall>i \<in> set is. r1 ! i = r2 ! i"
  shows "foldl (\<lambda>acc i. case r1 ! i of None \<Rightarrow> acc | Some r \<Rightarrow> extend_new acc (f r)) acc is =
    foldl (\<lambda>acc i. case r2 ! i of None \<Rightarrow> acc | Some r \<Rightarrow> extend_new acc (f r)) acc is"
  using assms by (induction "is" arbitrary: acc) simp_all

lemma merged_record_cong:
  assumes "\<forall>i \<in> set is. r1 ! i = r2 ! i" "first \<in> set is"
  shows "merged_record r1 is first best c = merged_record r2 is first best c"
proof -
  have "foldl (alt_ip_step r1 first) st is = foldl (alt_ip_step r2 first) st is" for st
    using assms(1) by (induction "is" arbitrary: st) (simp_all add: alt_ip_step_def)
  moreover have "first_non_none r1 is f = first_non_none r2 is f" for f
    using assms(1) unfolding first_non_none_def by (induction "is") (simp_all split: option.split)
  moreover have "merge_last_seen r1 is t = merge_last_seen r2 is t" for t
    using assms(1) unfolding merge_last_seen_def by (induction "is" arbitrary: t) simp_all
  ultimately show ?thesis
    using assms(2) assms(1)
    by (simp add: merged_record_def Let_def merge_alt_ips_def merge_signals_def merge_probe_kinds_def
        fold_extend_cong [OF assms(1)])
qed

lemma merge_group_cong:
  assumes "\<forall>i \<in> set is. r1 ! i = r2 ! i"
  shows "map_option fst (merge_group r1 is) = map_option fst (merge_group r2 is)"
proof (cases "is")
  case (Cons first rest)
  have b: "best_member r1 rest first c = best_member r2 rest first c" for c
    using best_member_cong [of rest r1 r2] assms Cons by simp
  have w: "r1 ! w = r2 ! w" if "best_member r2 rest first c = Some (w, cw)" for w c cw
    using best_member_mem [OF that] assms Cons by auto
  have m: "merged_record r1 is first best c = merged_record r2 is first best c" for best c
    using merged_record_cong [OF assms] Cons by simp
  show ?thesis
    using Cons assms b w m
    by (auto simp: merge_group_def split: option.split sum.split)
qed (simp add: merge_group_def)

section \<open>Fusing all groups\<close>

definition single_record :: "MediumPeer list \<Rightarrow> (IdentityKey \<times> f64) list \<Rightarrow> DeviceRecord \<Rightarrow> DeviceRecord" where
  "single_record peers snapshot r =
     (case pick_best_medium_peer peers snapshot of
        Some peer \<Rightarrow> r\<lparr>dr_possible_alias_of := Some peer\<rparr>
      | None \<Rightarrow> r)"

definition fused ::
  "MediumPeer list list \<Rightarrow> (IdentityKey \<times> f64) list \<Rightarrow> DeviceRecord list \<Rightarrow> nat list \<Rightarrow> DeviceRecord" where
  "fused peers snapshot records g =
     (if length g = 1 then single_record (peers ! hd g) snapshot (records ! hd g)
      else fst (the (merge_group (map Some records) g)))"

definition untouched :: "DeviceRecord list \<Rightarrow> DeviceRecord option list \<Rightarrow> nat list list \<Rightarrow> bool" where
  "untouched records opt gs \<longleftrightarrow> length opt = length records \<and> (\<forall>g \<in> set gs. \<forall>i \<in> set g. opt ! i = Some (records ! i))"

lemma merge_groups_ok:
  assumes "untouched records opt gs" "\<forall>g \<in> set gs. g \<noteq> [] \<and> set g \<subseteq> {..<length records}"
    and "\<And>a b. a < b \<Longrightarrow> b < length gs \<Longrightarrow> set (gs ! a) \<inter> set (gs ! b) = {}"
    and "\<forall>r \<in> set records. valid_confidence r"
  shows "merge_groups peers snapshot opt gs = Some (map (fused peers snapshot records) gs)"
  using assms(1-3)
proof (induction gs arbitrary: opt)
  case (Cons g gs)
  have g: "g \<noteq> []" "\<forall>i \<in> set g. opt ! i = Some (records ! i)" "\<forall>i \<in> set g. valid_confidence (records ! i)"
    using Cons.prems assms(4) by (auto simp: untouched_def)
  have disj: "set g \<inter> set h = {}" if h: "h \<in> set gs" for h
  proof -
    obtain b where "b < length gs" "h = gs ! b" using h by (auto simp: in_set_conv_nth)
    then show ?thesis using Cons.prems(3) [of 0 "Suc b"] by simp
  qed
  have rest: "merge_groups peers snapshot (opt[w := None]) gs = Some (map (fused peers snapshot records) gs)"
    if "w \<in> set g" for w
  proof (rule Cons.IH)
    have "opt[w := None] ! i = opt ! i" if "h \<in> set gs" "i \<in> set h" for h i
      using that disj \<open>w \<in> set g\<close> by (metis disjoint_iff nth_list_update_neq)
    then show "untouched records (opt[w := None]) gs"
      using Cons.prems(1) unfolding untouched_def by simp
    show "set (gs ! a) \<inter> set (gs ! b) = {}" if "a < b" "b < length gs" for a b
      using Cons.prems(3) [of "Suc a" "Suc b"] that by simp
  qed (use Cons.prems(2) in simp)
  show ?case
  proof (cases "length g = 1")
    case True
    then have hd: "hd g \<in> set g" using g(1) by simp
    then show ?thesis
      using True g(2) rest [OF hd]
      by (auto simp: fused_def single_record_def Let_def split: option.split)
  next
    case False
    obtain w m where w: "w \<in> set g" "merge_group opt g = Some (m, opt[w := None])"
      using merge_group_ok [OF g] by blast
    have "\<forall>i \<in> set g. opt ! i = map Some records ! i" using g(2) Cons.prems(2) by auto
    from merge_group_cong [OF this] have "fused peers snapshot records g = m"
      using w(2) False by (cases "merge_group (map Some records) g") (auto simp: fused_def)
    then show ?thesis using False w(2) rest [OF w(1)] by simp
  qed
qed simp

lemma merge_components_ok:
  assumes "length components = length records" "\<forall>r \<in> set records. valid_confidence r"
  shows "merge_components records components peers =
    Some (map (fused peers (map (\<lambda>r. (dr_identity_key r, conf_of r)) records) records) (group_members components))"
proof -
  have "untouched records (map Some records) (group_members components)"
    unfolding untouched_def using group_members_partition(1) assms(1) by fastforce
  moreover have "\<forall>g \<in> set (group_members components). g \<noteq> [] \<and> set g \<subseteq> {..<length records}"
    using group_members_partition(1) assms(1) by metis
  ultimately show ?thesis
    using merge_groups_ok [OF _ _ group_members_disjoint assms(2)] assms(1)
    by (simp add: merge_components_def conf_of_def)
qed

lemma fused_fuses:
  assumes "length g \<noteq> 1" "g \<noteq> []" "set g \<subseteq> {..<length records}" "\<forall>r \<in> set records. valid_confidence r"
  shows "fuses (map ((!) records) g) (fused peers snapshot records g)"
proof -
  have "\<forall>i \<in> set g. map Some records ! i = Some (records ! i)" "\<forall>i \<in> set g. valid_confidence (records ! i)"
    using assms(3,4) by auto
  from merge_group_ok [OF assms(2) this] show ?thesis using assms(1) by (auto simp: fused_def)
qed

end
