(* ===== verification/Identity_Fuser.thy ===== *)
theory Identity_Fuser
  imports Identity_Fusion
begin

text \<open>
  \<^verbatim>\<open>IdentityFuser::correlate\<close> of \<^verbatim>\<open>fuser/identity.rs\<close>; the constructor and the two \<^verbatim>\<open>Fuser\<close> methods are
  with the other fusers in \<^verbatim>\<open>Fuser_Stack\<close>.
  A panic inside \<^verbatim>\<open>correlate\<close> (an \<^verbatim>\<open>expect\<close>, an index, an overflow) is the value \<^verbatim>\<open>None\<close>; it never
  arises, and the result does not depend on the order in which hash sets are visited.
\<close>

section \<open>Definitions\<close>

definition high_pairs :: "(nat \<times> nat \<times> f64) list \<Rightarrow> (nat \<times> nat) list" where
  "high_pairs weights =
     map (\<lambda>(i, j, w). (i, j)) (filter (\<lambda>(i, j, w). fle HIGH_BAND_THRESHOLD w) weights)"

definition correlate_weights :: "(nat \<times> nat \<times> f64) list \<Rightarrow> DeviceRecord list \<Rightarrow> DeviceRecord list option" where
  "correlate_weights weights records =
     (let n = length records in
      case union_all (uf_new n) (high_pairs weights) of
        None \<Rightarrow> None
      | Some uf \<Rightarrow>
          (case collect_medium_peers n weights uf of
             None \<Rightarrow> None
           | Some medium_peers \<Rightarrow>
               (case uf_components uf of
                  None \<Rightarrow> None
                | Some components \<Rightarrow> merge_components records components medium_peers)))"

definition correlate ::
  "((nat \<times> nat) list \<Rightarrow> (nat \<times> nat) list) \<Rightarrow> IdentityHints \<Rightarrow> DeviceRecord list \<Rightarrow> DeviceRecord list option" where
  "correlate visit hints records =
     (if length records \<le> 1 then Some records
      else correlate_weights (compute_pair_weights visit hints records) records)"

definition correlate_bruteforce :: "IdentityHints \<Rightarrow> DeviceRecord list \<Rightarrow> DeviceRecord list option" where
  "correlate_bruteforce hints records =
     (if length records \<le> 1 then Some records
      else correlate_weights (compute_pair_weights_bruteforce hints records) records)"

section \<open>What correlate computes\<close>

text \<open>The pairs in the merge band, as a relation on record positions, and the positions each
  connected component of it covers.\<close>

lemma pick_best_spec:
  assumes "\<forall>p \<in> set peers. finite_candidate (peer_candidate snapshot p)"
  shows "peers = [] \<and> pick_best_medium_peer peers snapshot = None \<or>
    (\<exists>p \<in> set peers. pick_best_medium_peer peers snapshot = Some (fst (snapshot ! mp_peer_index p)) \<and>
       (\<forall>q \<in> set peers. fle (snd (snapshot ! mp_peer_index q)) (snd (snapshot ! mp_peer_index p))))"
proof (cases peers)
  case (Cons p ps)
  have "pick_step snapshot None p = Some (peer_candidate snapshot p)"
    by (simp add: pick_step_def peer_candidate_def Let_def)
  then obtain m where m: "foldl (pick_step snapshot) None peers = Some m"
    "m \<in> peer_candidate snapshot ` set peers"
    "\<forall>c \<in> peer_candidate snapshot ` set peers. c = m \<or> better_peer m c"
    using foldl_pick_step [of "peer_candidate snapshot p" ps snapshot] assms Cons by auto
  obtain b where b: "b \<in> set peers" "m = peer_candidate snapshot b" using m(2) by blast
  have "fle (snd (snapshot ! mp_peer_index q)) (snd (snapshot ! mp_peer_index b))" if q: "q \<in> set peers" for q
  proof -
    have "finite_candidate (peer_candidate snapshot q)" "finite_candidate (peer_candidate snapshot b)"
      using assms q b(1) by blast+
    moreover have "peer_candidate snapshot q = m \<or> better_peer m (peer_candidate snapshot q)" using m(3) q by blast
    ultimately show ?thesis
      unfolding b(2)
      by (auto simp: finite_candidate_def peer_candidate_def better_peer_def feq_def elim!: is_finiteE)
  qed
  then show ?thesis using m(1) b by (auto simp: pick_best_medium_peer_def peer_candidate_def)
qed (simp add: pick_best_medium_peer_def)

definition good_weights :: "nat \<Rightarrow> (nat \<times> nat \<times> f64) list \<Rightarrow> bool" where
  "good_weights n ws \<longleftrightarrow> (\<forall>(i, j, w) \<in> set ws. i < n \<and> j < n \<and> is_finite w)"

definition weight_links :: "(nat \<times> nat \<times> f64) list \<Rightarrow> nat \<Rightarrow> MediumPeer set" where
  "weight_links ws k =
     {\<lparr>mp_peer_index = j, mp_weight = w\<rparr> | j w.
        ((k, j, w) \<in> set ws \<or> (j, k, w) \<in> set ws) \<and> medium_band w \<and> (k, j) \<notin> linked (high_pairs ws)}"

definition snapshot_of :: "DeviceRecord list \<Rightarrow> (IdentityKey \<times> f64) list" where
  "snapshot_of records = map (\<lambda>r. (dr_identity_key r, conf_of r)) records"

lemma correlate_weights_ok:
  assumes "length records \<le> 2 ^ 64" "good_weights (length records) ws" "\<forall>r \<in> set records. valid_confidence r"
  obtains components peers where
    "correlate_weights ws records = Some (map (fused peers (snapshot_of records) records) (group_members components))"
    "length components = length records" "length peers = length records"
    "\<And>i j. i < length records \<Longrightarrow> j < length records \<Longrightarrow>
       components ! i = components ! j \<longleftrightarrow> (i, j) \<in> linked (high_pairs ws)"
    "\<And>k. k < length records \<Longrightarrow> set (peers ! k) = weight_links ws k"
proof -
  let ?n = "length records"
  have hp: "\<forall>(a, b) \<in> set (high_pairs ws). a < ?n \<and> b < ?n"
    using assms(2) by (auto simp: high_pairs_def good_weights_def)
  obtain uf where uf: "union_all (uf_new ?n) (high_pairs ws) = Some uf" "uf_invar uf"
    "length (uf_parent uf) = ?n" "\<And>i j. i < ?n \<Longrightarrow> j < ?n \<Longrightarrow> uf_same uf i j \<longleftrightarrow> (i, j) \<in> linked (high_pairs ws)"
    by (rule union_all_linked [OF assms(1) hp]) (rule that; blast)
  have rng: "\<forall>(i, j, w) \<in> set ws. i < ?n \<and> j < ?n" using assms(2) by (auto simp: good_weights_def)
  obtain peers where peers: "collect_medium_peers ?n ws uf = Some peers" "length peers = ?n"
    "\<forall>k < ?n. set (peers ! k) = medium_links uf ws k"
    using collect_medium_peers_ok [OF uf(2) uf(3) [symmetric] rng] by blast
  obtain cs where cs: "uf_components uf = Some cs" "length cs = ?n"
    "\<And>i j. i < ?n \<Longrightarrow> j < ?n \<Longrightarrow> cs ! i = cs ! j \<longleftrightarrow> uf_same uf i j"
    using uf_components_same [OF uf(2)] uf(3) by metis
  have "medium_links uf ws k = weight_links ws k" if "k < ?n" for k
    unfolding medium_links_def weight_links_def using rng uf(4) [OF that] that by fastforce
  moreover have "correlate_weights ws records =
      Some (map (fused peers (snapshot_of records) records) (group_members cs))"
    using uf(1) peers(1) cs(1) merge_components_ok [OF cs(2) assms(3)]
    by (simp add: correlate_weights_def Let_def snapshot_of_def)
  ultimately show thesis using that [of peers cs] cs(2,3) peers(2,3) uf(4) by simp
qed

lemma linked_cong: "set xs = set ys \<Longrightarrow> linked xs = linked ys"
  by (simp add: linked_def)

lemma candidate_finite:
  assumes "p \<in> weight_links ws k" "good_weights (length records) ws" "\<forall>r \<in> set records. valid_confidence r"
  shows "finite_candidate (peer_candidate (snapshot_of records) p)" "mp_peer_index p < length records"
proof -
  obtain j w where jw: "p = \<lparr>mp_peer_index = j, mp_weight = w\<rparr>" "(k, j, w) \<in> set ws \<or> (j, k, w) \<in> set ws"
    using assms(1) by (auto simp: weight_links_def)
  have "j < length records" "is_finite w" using jw(2) assms(2) by (auto simp: good_weights_def)
  moreover have "is_finite (conf_of (records ! j))"
    using assms(3) nth_mem [OF \<open>j < length records\<close>] by (auto simp: valid_confidence_def conf_of_def)
  ultimately show "finite_candidate (peer_candidate (snapshot_of records) p)" "mp_peer_index p < length records"
    using jw(1) by (simp_all add: finite_candidate_def peer_candidate_def snapshot_of_def)
qed

text \<open>The result is a function of the set of weights: the order in which they were found is immaterial.\<close>

lemma correlate_weights_cong:
  assumes "length records \<le> 2 ^ 64" "good_weights (length records) ws" "\<forall>r \<in> set records. valid_confidence r"
    and "set ws = set vs"
  shows "correlate_weights ws records = correlate_weights vs records"
proof -
  have gv: "good_weights (length records) vs" using assms(2,4) by (simp add: good_weights_def)
  have hp: "linked (high_pairs ws) = linked (high_pairs vs)"
    by (rule linked_cong) (simp add: high_pairs_def assms(4))
  have wl: "weight_links ws k = weight_links vs k" for k
    by (simp add: weight_links_def assms(4) hp)
  obtain cs ps where ws: "correlate_weights ws records = Some (map (fused ps (snapshot_of records) records) (group_members cs))"
    "length cs = length records" "length ps = length records"
    "\<And>i j. i < length records \<Longrightarrow> j < length records \<Longrightarrow> cs ! i = cs ! j \<longleftrightarrow> (i, j) \<in> linked (high_pairs ws)"
    "\<And>k. k < length records \<Longrightarrow> set (ps ! k) = weight_links ws k"
    by (rule correlate_weights_ok [OF assms(1-3)]) (rule that; blast)
  obtain ds qs where vs: "correlate_weights vs records = Some (map (fused qs (snapshot_of records) records) (group_members ds))"
    "length ds = length records" "length qs = length records"
    "\<And>i j. i < length records \<Longrightarrow> j < length records \<Longrightarrow> ds ! i = ds ! j \<longleftrightarrow> (i, j) \<in> linked (high_pairs vs)"
    "\<And>k. k < length records \<Longrightarrow> set (qs ! k) = weight_links vs k"
    by (rule correlate_weights_ok [OF assms(1) gv assms(3)]) (rule that; blast)
  have groups: "group_members cs = group_members ds"
    by (rule group_members_cong) (simp_all add: ws(2,4) vs(2,4) hp)
  have "fused ps (snapshot_of records) records g = fused qs (snapshot_of records) records g"
    if g: "g \<in> set (group_members cs)" for g
  proof -
    have "g \<noteq> [] \<and> set g \<subseteq> {..<length records}" using group_members_partition(1) [OF g] ws(2) by simp
    then have hd: "hd g < length records" by (cases g) auto
    have "set (ps ! hd g) = set (qs ! hd g)" using ws(5) [OF hd] vs(5) [OF hd] wl by simp
    moreover have "\<forall>p \<in> set (ps ! hd g). finite_candidate (peer_candidate (snapshot_of records) p)"
      using candidate_finite(1) [OF _ assms(2,3)] unfolding ws(5) [OF hd] by blast
    ultimately have "pick_best_medium_peer (ps ! hd g) (snapshot_of records) =
        pick_best_medium_peer (qs ! hd g) (snapshot_of records)" by (rule pick_best_cong)
    then show ?thesis by (simp add: fused_def single_record_def)
  qed
  then show ?thesis using ws(1) vs(1) groups by simp
qed

section \<open>Correlation in terms of the records\<close>

definition merge_band :: "IdentityHints \<Rightarrow> DeviceRecord list \<Rightarrow> (nat \<times> nat) set" where
  "merge_band h rs = {(i, j). comparable h rs i j \<and> 8 / 10 \<le> decimal_pair_weight h (rs ! i) (rs ! j)}"

definition same_device :: "IdentityHints \<Rightarrow> DeviceRecord list \<Rightarrow> (nat \<times> nat) set" where
  "same_device h rs = (merge_band h rs \<union> (merge_band h rs)\<inverse>)\<^sup>*"

definition possible_aliases :: "IdentityHints \<Rightarrow> DeviceRecord list \<Rightarrow> nat \<Rightarrow> nat set" where
  "possible_aliases h rs i =
     {j. (comparable h rs i j \<or> comparable h rs j i) \<and> (i, j) \<notin> same_device h rs \<and>
         4 / 10 \<le> decimal_pair_weight h (rs ! i) (rs ! j) \<and> decimal_pair_weight h (rs ! i) (rs ! j) < 8 / 10}"

text \<open>The groups of a correlation: the classes of an equivalence on positions, each in increasing order,
  listed by their least member.\<close>

definition classes :: "nat \<Rightarrow> (nat \<times> nat) set \<Rightarrow> nat list list \<Rightarrow> bool" where
  "classes n R gs \<longleftrightarrow> (\<forall>g \<in> set gs. g \<noteq> [] \<and> set g \<subseteq> {..<n} \<and> sorted_wrt (<) g) \<and>
     (\<forall>i < n. \<exists>g \<in> set gs. i \<in> set g) \<and>
     (\<forall>g \<in> set gs. \<forall>i \<in> set g. \<forall>j < n. j \<in> set g \<longleftrightarrow> (i, j) \<in> R) \<and>
     sorted_wrt (<) (map hd gs)"

text \<open>A record that merged with nothing is passed on, pointing at a possible alias of maximal confidence if
  it has any.\<close>

definition passed_on :: "IdentityHints \<Rightarrow> DeviceRecord list \<Rightarrow> nat \<Rightarrow> DeviceRecord \<Rightarrow> bool" where
  "passed_on h rs i out \<longleftrightarrow>
     (if possible_aliases h rs i = {} then out = rs ! i
      else \<exists>j \<in> possible_aliases h rs i. out = (rs ! i)\<lparr>dr_possible_alias_of := Some (dr_identity_key (rs ! j))\<rparr> \<and>
             (\<forall>k \<in> possible_aliases h rs i. fle (conf_of (rs ! k)) (conf_of (rs ! j))))"

definition correlates :: "IdentityHints \<Rightarrow> DeviceRecord list \<Rightarrow> DeviceRecord list \<Rightarrow> bool" where
  "correlates h rs out \<longleftrightarrow> (\<exists>gs. classes (length rs) (same_device h rs) gs \<and>
     list_all2 (\<lambda>g r. if length g = 1 then passed_on h rs (hd g) r else fuses (map ((!) rs) g) r) gs out)"

lemma pair_weight_band_iff:
  "fle HIGH_BAND_THRESHOLD (pair_weight h a b) \<longleftrightarrow> 8 / 10 \<le> decimal_pair_weight h a b"
  "medium_band (pair_weight h a b) \<longleftrightarrow> 4 / 10 \<le> decimal_pair_weight h a b \<and> decimal_pair_weight h a b < 8 / 10"
  "flt (Fin 0) (pair_weight h a b) \<longleftrightarrow> 0 < decimal_pair_weight h a b"
  "is_finite (pair_weight h a b)"
proof -
  have b: "is_finite (pair_weight h a b)"
    "fle HIGH_BAND_THRESHOLD (pair_weight h a b) \<longleftrightarrow> 8 / 10 \<le> decimal_pair_weight h a b"
    "fle MEDIUM_BAND_THRESHOLD (pair_weight h a b) \<longleftrightarrow> 4 / 10 \<le> decimal_pair_weight h a b"
    "flt (Fin 0) (pair_weight h a b) \<longleftrightarrow> 0 < decimal_pair_weight h a b"
    using pair_weight_same_bands [of h a b] unfolding same_bands_def by simp_all
  obtain q where q: "pair_weight h a b = Fin q" using b(1) by (rule is_finiteE)
  show "fle HIGH_BAND_THRESHOLD (pair_weight h a b) \<longleftrightarrow> 8 / 10 \<le> decimal_pair_weight h a b"
    "flt (Fin 0) (pair_weight h a b) \<longleftrightarrow> 0 < decimal_pair_weight h a b" "is_finite (pair_weight h a b)"
    by (rule b)+
  show "medium_band (pair_weight h a b) \<longleftrightarrow> 4 / 10 \<le> decimal_pair_weight h a b \<and> decimal_pair_weight h a b < 8 / 10"
    using b(2,3) unfolding medium_band_def q weight_constants by (simp add: not_less not_le conj_commute)
qed

lemma decimal_pair_weight_commute: "decimal_pair_weight h a b = decimal_pair_weight h b a"
proof -
  have "conflicting_manufacturer a b = conflicting_manufacturer b a"
    by (auto simp: conflicting_manufacturer_def eq_ignore_ascii_case_sym split: option.splits)
  moreover have "pair_is_declared_vrrp_members h a b = pair_is_declared_vrrp_members h b a"
    by (auto simp: pair_is_declared_vrrp_members_def split: option.splits)
  ultimately show ?thesis
    by (simp add: decimal_pair_weight_def CONTRIBUTIONS_def contribution_sym [of h a b])
qed

lemma weights_of:
  assumes "permutes visit"
  shows "(i, j, w) \<in> set (compute_pair_weights visit h rs) \<longleftrightarrow>
    comparable h rs i j \<and> w = pair_weight h (rs ! i) (rs ! j) \<and> flt (Fin 0) w"
  using assms by (intro set_compute_pair_weights) (simp add: permutes_def)

lemma good_weights_of: "permutes visit \<Longrightarrow> good_weights (length rs) (compute_pair_weights visit h rs)"
  unfolding good_weights_def by (auto simp: weights_of comparable_def pair_weight_band_iff(4))

lemma high_pairs_of: "permutes visit \<Longrightarrow> linked (high_pairs (compute_pair_weights visit h rs)) = same_device h rs"
proof -
  assume v: "permutes visit"
  have "(i, j) \<in> set (high_pairs (compute_pair_weights visit h rs)) \<longleftrightarrow> (i, j) \<in> merge_band h rs" for i j
  proof -
    have "(i, j) \<in> set (high_pairs (compute_pair_weights visit h rs)) \<longleftrightarrow>
        (\<exists>w. (i, j, w) \<in> set (compute_pair_weights visit h rs) \<and> fle HIGH_BAND_THRESHOLD w)"
      by (force simp: high_pairs_def)
    also have "\<dots> \<longleftrightarrow> (i, j) \<in> merge_band h rs"
      using pair_weight_band_iff [of h "rs ! i" "rs ! j"] by (auto simp: weights_of [OF v] merge_band_def)
    finally show ?thesis .
  qed
  then have "set (high_pairs (compute_pair_weights visit h rs)) = merge_band h rs" by auto
  then show ?thesis by (simp add: linked_def same_device_def)
qed

lemma weight_links_of:
  assumes "permutes visit"
  shows "mp_peer_index ` weight_links (compute_pair_weights visit h rs) i = possible_aliases h rs i"
proof -
  let ?d = "\<lambda>i j. decimal_pair_weight h (rs ! i) (rs ! j)"
  have "(\<exists>w. ((i, j, w) \<in> set (compute_pair_weights visit h rs) \<or> (j, i, w) \<in> set (compute_pair_weights visit h rs)) \<and>
      medium_band w) \<longleftrightarrow> (comparable h rs i j \<or> comparable h rs j i) \<and> 4 / 10 \<le> ?d i j \<and> ?d i j < 8 / 10" for j
    using pair_weight_band_iff [of h "rs ! i" "rs ! j"] pair_weight_band_iff [of h "rs ! j" "rs ! i"]
      decimal_pair_weight_commute [of h "rs ! i" "rs ! j"]
    by (auto simp: weights_of [OF assms])
  note eq = this
  show ?thesis
  proof (rule set_eqI)
    fix j
    have "j \<in> mp_peer_index ` weight_links (compute_pair_weights visit h rs) i \<longleftrightarrow>
        (\<exists>w. ((i, j, w) \<in> set (compute_pair_weights visit h rs) \<or> (j, i, w) \<in> set (compute_pair_weights visit h rs)) \<and>
          medium_band w) \<and> (i, j) \<notin> same_device h rs"
      by (force simp: weight_links_def high_pairs_of [OF assms])
    then show "j \<in> mp_peer_index ` weight_links (compute_pair_weights visit h rs) i \<longleftrightarrow> j \<in> possible_aliases h rs i"
      unfolding eq by (auto simp: possible_aliases_def)
  qed
qed

lemma hd_group_of:
  assumes "l \<in> set (leaders cs)"
  shows "hd (group_of cs l) = l"
proof -
  have l: "l < length cs" "cs ! l \<notin> set (take l cs)" using assms by (simp_all add: leaders_def)
  have "filter (\<lambda>j. cs ! j = cs ! l) [0..<l] = []"
    using l by (auto simp: filter_empty_conv in_set_conv_nth)
  moreover have "[0..<length cs] = [0..<l] @ l # [Suc l..<length cs]"
    using l(1) upt_add_eq_append [of 0 l "length cs - l"] upt_conv_Cons [of l "length cs"] by simp
  ultimately show ?thesis by (simp add: group_of_def)
qed

lemma classes_group_members:
  assumes "length cs = n" "\<And>i j. i < n \<Longrightarrow> j < n \<Longrightarrow> cs ! i = cs ! j \<longleftrightarrow> (i, j) \<in> R"
  shows "classes n R (group_members cs)"
proof -
  have heads: "map hd (group_members cs) = leaders cs"
    by (simp add: group_members_eq hd_group_of map_idI)
  show ?thesis
    unfolding classes_def heads
  proof (intro conjI ballI allI impI)
    fix g assume g: "g \<in> set (group_members cs)"
    then show "g \<noteq> []" "set g \<subseteq> {..<n}" "sorted_wrt (<) g"
      using group_members_partition(1) [OF g] assms(1) by auto
    fix i j assume "i \<in> set g" "j < n"
    moreover have "i < n" using \<open>set g \<subseteq> {..<n}\<close> \<open>i \<in> set g\<close> by auto
    ultimately show "j \<in> set g \<longleftrightarrow> (i, j) \<in> R"
      using group_members_partition(3) [OF g] assms by simp
  next
    fix i assume "i < n"
    then show "\<exists>g \<in> set (group_members cs). i \<in> set g" using group_members_partition(2) assms(1) by simp
  next
    show "sorted_wrt (<) (leaders cs)" by (simp add: leaders_def sorted_wrt_filter)
  qed
qed

lemma correlate_eq_weights:
  assumes "\<forall>r \<in> set rs. valid_confidence r" "length rs \<le> 1" "good_weights (length rs) ws" "\<forall>(i, j, w) \<in> set ws. i < j"
  shows "correlate_weights ws rs = Some rs"
proof -
  have ws: "ws = []" using assms(2-4) by (cases ws) (auto simp: good_weights_def)
  have len: "length rs \<le> 2 ^ 64" using assms(2) by simp
  obtain cs ps where c: "correlate_weights ws rs = Some (map (fused ps (snapshot_of rs) rs) (group_members cs))"
    "length cs = length rs" "length ps = length rs"
    "\<And>i j. i < length rs \<Longrightarrow> j < length rs \<Longrightarrow> cs ! i = cs ! j \<longleftrightarrow> (i, j) \<in> linked (high_pairs ws)"
    "\<And>k. k < length rs \<Longrightarrow> set (ps ! k) = weight_links ws k"
    by (rule correlate_weights_ok [OF len assms(3,1)]) (rule that; blast)
  show ?thesis
  proof (cases rs)
    case Nil
    then show ?thesis using c(1,2) by (simp add: group_members_eq leaders_def)
  next
    case (Cons r rs')
    then have n: "rs = [r]" using assms(2) by simp
    then have "group_members cs = [[0]]" using c(2) by (simp add: group_members_eq leaders_def group_of_def)
    moreover have "ps ! 0 = []" using c(5) [of 0] n ws by (simp add: weight_links_def)
    ultimately show ?thesis
      using c(1) n by (simp add: fused_def single_record_def pick_best_medium_peer_def)
  qed
qed

lemma correlate_alt:
  assumes "permutes visit" "\<forall>r \<in> set rs. valid_confidence r"
  shows "correlate visit h rs = correlate_weights (compute_pair_weights visit h rs) rs"
proof (cases "length rs \<le> 1")
  case True
  have "\<forall>(i, j, w) \<in> set (compute_pair_weights visit h rs). i < j"
    by (auto simp: weights_of [OF assms(1)] comparable_def)
  then show ?thesis
    using correlate_eq_weights [OF assms(2) True good_weights_of [OF assms(1)]] True by (simp add: correlate_def)
qed (simp add: correlate_def)

lemma fused_single:
  assumes "i < length rs" "set (peers ! i) = weight_links ws i" "good_weights (length rs) ws"
    "\<forall>r \<in> set rs. valid_confidence r" "mp_peer_index ` weight_links ws i = possible_aliases h rs i"
  shows "passed_on h rs i (single_record (peers ! i) (snapshot_of rs) (rs ! i))"
proof -
  let ?ps = "peers ! i"
  have fin: "\<forall>p \<in> set ?ps. finite_candidate (peer_candidate (snapshot_of rs) p)"
    and rng: "\<forall>p \<in> set ?ps. mp_peer_index p < length rs"
    using candidate_finite [OF _ assms(3,4)] unfolding assms(2) by blast+
  have al: "possible_aliases h rs i = mp_peer_index ` set ?ps" using assms(2,5) by simp
  from pick_best_spec [OF fin] show ?thesis
  proof (elim disjE conjE bexE)
    assume "?ps = []" "pick_best_medium_peer ?ps (snapshot_of rs) = None"
    then show ?thesis by (simp add: passed_on_def al single_record_def)
  next
    fix p assume 2: "p \<in> set ?ps"
      "pick_best_medium_peer ?ps (snapshot_of rs) = Some (fst (snapshot_of rs ! mp_peer_index p))"
      "\<forall>q \<in> set ?ps. fle (snd (snapshot_of rs ! mp_peer_index q)) (snd (snapshot_of rs ! mp_peer_index p))"
    have j: "mp_peer_index p < length rs" using rng 2(1) by blast
    have "fle (conf_of (rs ! k)) (conf_of (rs ! mp_peer_index p))" if k: "k \<in> possible_aliases h rs i" for k
    proof -
      obtain q where q: "q \<in> set ?ps" "k = mp_peer_index q" using k al by auto
      then have "fle (snd (snapshot_of rs ! k)) (snd (snapshot_of rs ! mp_peer_index p))" using 2(3) by simp
      then show ?thesis using j q rng by (simp add: snapshot_of_def)
    qed
    moreover have "single_record ?ps (snapshot_of rs) (rs ! i) =
        (rs ! i)\<lparr>dr_possible_alias_of := Some (dr_identity_key (rs ! mp_peer_index p))\<rparr>"
      using 2(2) j by (simp add: single_record_def snapshot_of_def)
    moreover have "mp_peer_index p \<in> possible_aliases h rs i" using 2(1) al by blast
    ultimately show ?thesis unfolding passed_on_def by (auto intro!: bexI [of _ "mp_peer_index p"])
  qed
qed

lemma correlate_correlates:
  assumes "permutes visit" "length rs \<le> 2 ^ 64" "\<forall>r \<in> set rs. valid_confidence r"
  shows "\<exists>out. correlate visit h rs = Some out \<and> correlates h rs out"
proof -
  let ?ws = "compute_pair_weights visit h rs"
  note good = good_weights_of [OF assms(1), of rs h]
  obtain cs ps where c: "correlate_weights ?ws rs = Some (map (fused ps (snapshot_of rs) rs) (group_members cs))"
    "length cs = length rs" "length ps = length rs"
    "\<And>i j. i < length rs \<Longrightarrow> j < length rs \<Longrightarrow> cs ! i = cs ! j \<longleftrightarrow> (i, j) \<in> linked (high_pairs ?ws)"
    "\<And>k. k < length rs \<Longrightarrow> set (ps ! k) = weight_links ?ws k"
    by (rule correlate_weights_ok [OF assms(2) good assms(3)]) (rule that; blast)
  have classes: "classes (length rs) (same_device h rs) (group_members cs)"
    using c(4) unfolding high_pairs_of [OF assms(1)] by (rule classes_group_members [OF c(2)])
  have "if length g = 1 then passed_on h rs (hd g) (fused ps (snapshot_of rs) rs g)
      else fuses (map ((!) rs) g) (fused ps (snapshot_of rs) rs g)" if g: "g \<in> set (group_members cs)" for g
  proof -
    have p: "g \<noteq> []" "set g \<subseteq> {..<length rs}" using group_members_partition(1) [OF g] c(2) by auto
    then have hd: "hd g < length rs" by (cases g) auto
    show ?thesis
    proof (cases "length g = 1")
      case True
      then show ?thesis
        using fused_single [OF hd c(5) [OF hd] good assms(3) weight_links_of [OF assms(1)]]
        by (simp add: fused_def)
    next
      case False
      then show ?thesis using fused_fuses [OF False p assms(3)] by simp
    qed
  qed
  then have "correlates h rs (map (fused ps (snapshot_of rs) rs) (group_members cs))"
    unfolding correlates_def using classes
    by (intro exI [of _ "group_members cs"]) (simp add: list_all2_map2 list_all2_same)
  then show ?thesis using c(1) correlate_alt [OF assms(1,3)] by simp
qed

end
