(* ===== verification/Identity_Properties.thy ===== *)
theory Identity_Properties
  imports Identity_Fuser
begin

text \<open>
  What the identity fuser guarantees: the band of a pair is the one the decimal weights spell, looking
  into buckets loses nothing, the outcome does not depend on hash iteration order, the emitted
  records are the classes of the correlation, and nothing observed is lost.
\<close>

section \<open>Conservation\<close>

definition addresses_of :: "DeviceRecord \<Rightarrow> IpAddr set" where
  "addresses_of r = set_option (dr_mgmt_ip r) \<union> alt_address ` set (dr_alt_ips r)"

definition group_result :: "IdentityHints \<Rightarrow> DeviceRecord list \<Rightarrow> nat list \<Rightarrow> DeviceRecord \<Rightarrow> bool" where
  "group_result h rs g r \<longleftrightarrow>
     (if length g = 1 then passed_on h rs (hd g) r else fuses (map ((!) rs) g) r)"

lemma passed_on_fields:
  assumes "passed_on h rs i r"
  shows "dr_signals r = dr_signals (rs ! i)" "dr_probe_kinds r = dr_probe_kinds (rs ! i)"
    "dr_mgmt_ip r = dr_mgmt_ip (rs ! i)" "dr_alt_ips r = dr_alt_ips (rs ! i)"
    "dr_identity_key r = dr_identity_key (rs ! i)" "dr_confidence r = dr_confidence (rs ! i)"
  using assms by (auto simp: passed_on_def split: if_splits)

lemma wins_mem: "wins rs best \<Longrightarrow> best \<in> set rs"
  by (auto simp: wins_def)

lemma fuses_key: "fuses rs m \<Longrightarrow> dr_identity_key m \<in> dr_identity_key ` set rs"
  unfolding fuses_def by (elim conjE exE) (simp add: wins_mem)

lemma fuses_sets:
  assumes "fuses rs m"
  shows "alt_address ` set (dr_alt_ips m) = mgmt_ips rs - set_option (dr_mgmt_ip m)"
    "set (dr_signals m) = (\<Union>r \<in> set rs. set (dr_signals r))"
    "set (dr_probe_kinds m) = (\<Union>r \<in> set rs. set (dr_probe_kinds r))"
  using assms unfolding fuses_def by simp_all

lemma group_result_fields:
  assumes "group_result h rs g r" "g \<noteq> []"
  shows "set (dr_signals r) = (\<Union>i \<in> set g. set (dr_signals (rs ! i)))"
    "set (dr_probe_kinds r) = (\<Union>i \<in> set g. set (dr_probe_kinds (rs ! i)))"
    "i \<in> set g \<Longrightarrow> set_option (dr_mgmt_ip (rs ! i)) \<subseteq> addresses_of r"
    "dr_identity_key r \<in> (\<lambda>i. dr_identity_key (rs ! i)) ` set g"
proof -
  have "set (dr_signals r) = (\<Union>i \<in> set g. set (dr_signals (rs ! i))) \<and>
    set (dr_probe_kinds r) = (\<Union>i \<in> set g. set (dr_probe_kinds (rs ! i))) \<and>
    (\<forall>i \<in> set g. set_option (dr_mgmt_ip (rs ! i)) \<subseteq> addresses_of r) \<and>
    dr_identity_key r \<in> (\<lambda>i. dr_identity_key (rs ! i)) ` set g"
  proof (cases "length g = 1")
    case True
    then obtain i where g: "g = [i]" by (cases g) auto
    then have "passed_on h rs i r" using assms(1) by (simp add: group_result_def)
    then show ?thesis using passed_on_fields [of h rs i r] g by (simp add: addresses_of_def)
  next
    case False
    then have f: "fuses (map ((!) rs) g) r" using assms(1) by (simp add: group_result_def)
    have "dr_identity_key r \<in> (\<lambda>i. dr_identity_key (rs ! i)) ` set g"
      using fuses_key [OF f] by (simp add: image_image)
    moreover have "mgmt_ips (map ((!) rs) g) \<subseteq> addresses_of r"
      unfolding addresses_of_def fuses_sets(1) [OF f] by blast
    then have "\<forall>i \<in> set g. set_option (dr_mgmt_ip (rs ! i)) \<subseteq> addresses_of r"
      by (auto simp: mgmt_ips_def)
    ultimately show ?thesis using fuses_sets(2,3) [OF f] by simp
  qed
  then show "set (dr_signals r) = (\<Union>i \<in> set g. set (dr_signals (rs ! i)))"
    "set (dr_probe_kinds r) = (\<Union>i \<in> set g. set (dr_probe_kinds (rs ! i)))"
    "i \<in> set g \<Longrightarrow> set_option (dr_mgmt_ip (rs ! i)) \<subseteq> addresses_of r"
    "dr_identity_key r \<in> (\<lambda>i. dr_identity_key (rs ! i)) ` set g" by blast+
qed

lemma correlates_groups:
  assumes "correlates h rs out"
  obtains gs where "classes (length rs) (same_device h rs) gs" "length out = length gs"
    "\<And>k. k < length gs \<Longrightarrow> group_result h rs (gs ! k) (out ! k)"
  using assms unfolding correlates_def list_all2_conv_all_nth group_result_def [symmetric] by auto

lemma classes_union:
  assumes "classes n R gs"
  shows "(\<Union>g \<in> set gs. \<Union>i \<in> set g. f i) = (\<Union>i < n. f i)"
proof -
  have "(\<Union>g \<in> set gs. set g) = {..<n}" using assms unfolding classes_def by blast
  then show ?thesis by (metis UN_UN_flatten)
qed

lemma set_nth_image: "set xs = (!) xs ` {..<length xs}"
  by (auto simp: in_set_conv_nth)

lemma classes_through:
  assumes "classes (length rs) R gs" "length out = length gs"
    and "\<And>k. k < length gs \<Longrightarrow> F (out ! k) = (\<Union>i \<in> set (gs ! k). F (rs ! i))"
  shows "(\<Union>r \<in> set out. F r) = (\<Union>r \<in> set rs. F r)"
proof -
  have "(\<Union>r \<in> set out. F r) = (\<Union>k < length gs. F (out ! k))" using assms(2) by (simp add: set_nth_image)
  also have "\<dots> = (\<Union>k < length gs. \<Union>i \<in> set (gs ! k). F (rs ! i))" using assms(3) by simp
  also have "\<dots> = (\<Union>g \<in> set gs. \<Union>i \<in> set g. F (rs ! i))"
    by (simp add: set_nth_image [of gs])
  also have "\<dots> = (\<Union>i < length rs. F (rs ! i))" by (rule classes_union [OF assms(1)])
  also have "\<dots> = (\<Union>r \<in> set rs. F r)" by (simp add: set_nth_image [of rs])
  finally show ?thesis .
qed

lemma correlates_conserves:
  assumes "correlates h rs out"
  shows "(\<Union>r \<in> set out. set (dr_signals r)) = (\<Union>r \<in> set rs. set (dr_signals r))"
    "(\<Union>r \<in> set out. set (dr_probe_kinds r)) = (\<Union>r \<in> set rs. set (dr_probe_kinds r))"
    "mgmt_ips rs \<subseteq> (\<Union>r \<in> set out. addresses_of r)"
    "dr_identity_key ` set out \<subseteq> dr_identity_key ` set rs"
proof -
  obtain gs where gs: "classes (length rs) (same_device h rs) gs" "length out = length gs"
    "\<And>k. k < length gs \<Longrightarrow> group_result h rs (gs ! k) (out ! k)"
    by (rule correlates_groups [OF assms]) (rule that; blast)
  have ne: "gs ! k \<noteq> []" "set (gs ! k) \<subseteq> {..<length rs}" if "k < length gs" for k
    using gs(1) nth_mem [OF that] unfolding classes_def by (elim conjE; blast)+
  show "(\<Union>r \<in> set out. set (dr_signals r)) = (\<Union>r \<in> set rs. set (dr_signals r))"
    by (rule classes_through [OF gs(1,2)]) (rule group_result_fields(1) [OF gs(3) ne(1)])
  show "(\<Union>r \<in> set out. set (dr_probe_kinds r)) = (\<Union>r \<in> set rs. set (dr_probe_kinds r))"
    by (rule classes_through [OF gs(1,2)]) (rule group_result_fields(2) [OF gs(3) ne(1)])
  show "mgmt_ips rs \<subseteq> (\<Union>r \<in> set out. addresses_of r)"
  proof
    fix ip assume "ip \<in> mgmt_ips rs"
    then obtain i where i: "i < length rs" "dr_mgmt_ip (rs ! i) = Some ip"
      by (auto simp: mgmt_ips_def in_set_conv_nth)
    obtain g where "g \<in> set gs" "i \<in> set g" using gs(1) i(1) unfolding classes_def by blast
    then obtain k where k: "k < length gs" "i \<in> set (gs ! k)" by (auto simp: in_set_conv_nth)
    then have "ip \<in> addresses_of (out ! k)"
      using group_result_fields(3) [OF gs(3) [OF k(1)] ne(1) [OF k(1)] k(2)] i(2) by auto
    then show "ip \<in> (\<Union>r \<in> set out. addresses_of r)" using k(1) gs(2) nth_mem [of k out] by auto
  qed
  show "dr_identity_key ` set out \<subseteq> dr_identity_key ` set rs"
  proof
    fix key assume "key \<in> dr_identity_key ` set out"
    then obtain k where k: "k < length gs" "key = dr_identity_key (out ! k)"
      using gs(2) by (auto simp: in_set_conv_nth)
    then obtain i where "i \<in> set (gs ! k)" "key = dr_identity_key (rs ! i)"
      using group_result_fields(4) [OF gs(3) [OF k(1)] ne(1) [OF k(1)]] by auto
    then show "key \<in> dr_identity_key ` set rs" using ne(2) [OF k(1)] by auto
  qed
qed

section \<open>Properties\<close>

text \<open>A record with the given key, address, confidence and signals; everything else is absent.\<close>

definition plain_record :: "string \<Rightarrow> IpAddr \<Rightarrow> rat \<Rightarrow> Signal list \<Rightarrow> DeviceRecord" where
  "plain_record key ip conf signals =
     \<lparr>dr_identity_key = IdentityKey key, dr_mgmt_ip = Some ip, dr_mac = None, dr_manufacturer = None,
      dr_model = None, dr_product_family = None, dr_platform = None, dr_os_version = None,
      dr_ssh_version = None, dr_http_server = None, dr_http_version = None, dr_role = None,
      dr_confidence = Confidence (Fin conf), dr_last_seen = 0, dr_signals = signals, dr_probe_kinds = [],
      dr_schema_version = CURRENT_SCHEMA_VERSION, dr_schema_id = CURRENT_SCHEMA_ID, dr_alt_ips = [],
      dr_possible_alias_of = None, dr_scan_metadata = scan_metadata_default\<rparr>"

lemma valid_plain_record [simp]: "0 \<le> c \<Longrightarrow> c \<le> 1 \<Longrightarrow> valid_confidence (plain_record k ip c s)"
  by (simp add: valid_confidence_def plain_record_def)

definition two_records :: "DeviceRecord list" where
  "two_records = [plain_record ''a'' (V4 1) (1 / 2) [SshHostKey ''k''], plain_record ''b'' (V4 2) (1 / 2) [SshHostKey ''k'']]"

lemma two_records_valid [simp]: "\<forall>r \<in> set two_records. valid_confidence r" "length two_records = 2"
  by (simp_all add: two_records_def)

lemmas weight_eval =
  decimal_pair_weight_def CONTRIBUTIONS_def contribute_mac_def contribute_sysname_def
  contribute_ssh_host_key_def contribute_tls_subject_def contribute_tls_san_def contribute_reverse_dns_def
  collect_tls_san_names_def collect_reverse_dns_names_def find_sysname_def find_ssh_host_key_def
  find_tls_subject_def conflicting_manufacturer_def pair_is_declared_vrrp_members_def
  weight_constants map_filter_simps eq_ignore_ascii_case_def plain_record_def

text \<open>Two records of one device: the same host key seen on two addresses.\<close>

definition merging_records :: "DeviceRecord list" where
  "merging_records = [plain_record ''a'' (V4 1) (1 / 2) [SshHostKey ''k'', OpenPort 22],
     plain_record ''b'' (V4 2) (9 / 10) [SshHostKey ''k'', OpenPort 80]]"

lemma merging_records_valid: "\<forall>r \<in> set merging_records. valid_confidence r" "length merging_records = 2"
  by (simp_all add: merging_records_def)

lemma merging_records_merge:
  assumes "correlates identity_hints_default merging_records out"
  shows "\<exists>r. out = [r]"
proof -
  let ?h = identity_hints_default and ?rs = merging_records
  have len: "length (holders ?h ?rs k) \<le> length [0..<length ?rs]" for k
    unfolding holders_def by (rule length_filter_le)
  have "length (holders ?h ?rs k) \<le> ih_max_correlation_bucket ?h" for k
    using len [of k] by (simp add: merging_records_valid identity_hints_default_def default_max_correlation_bucket_def)
  moreover have "KSshHostKey ''k'' \<in> set (bucket_keys ?h (?rs ! 0))" "KSshHostKey ''k'' \<in> set (bucket_keys ?h (?rs ! 1))"
    by (rule bucket_keysI(3); simp add: merging_records_def plain_record_def find_ssh_host_key_def)+
  ultimately have "comparable ?h ?rs 0 1" by (auto simp: comparable_def merging_records_valid)
  moreover have "8 / 10 \<le> decimal_pair_weight ?h (?rs ! 0) (?rs ! 1)"
    by (simp add: weight_eval merging_records_def identity_hints_default_def)
  ultimately have dev: "(1, 0) \<in> same_device ?h ?rs" by (auto simp: same_device_def merge_band_def)
  obtain gs where gs: "classes 2 (same_device ?h ?rs) gs" "length out = length gs"
    using correlates_groups [OF assms] by (metis merging_records_valid(2))
  have all: "hd g = 0" if "g \<in> set gs" for g
  proof -
    have g: "g \<noteq> []" "set g \<subseteq> {..<2}" "sorted_wrt (<) g" "\<forall>i \<in> set g. \<forall>j < 2. j \<in> set g \<longleftrightarrow> (i, j) \<in> same_device ?h ?rs"
      using gs(1) that unfolding classes_def by blast+
    then have "hd g \<in> {0, 1}" using hd_in_set [OF g(1)] by fastforce
    moreover have "0 \<in> set g" if "hd g = 1" using g(1,4) dev that hd_in_set [OF g(1)] by auto
    ultimately show ?thesis using g(1,3) by (cases g) auto
  qed
  have "\<exists>g \<in> set gs. 0 \<in> set g" using gs(1) by (simp add: classes_def)
  then have "gs \<noteq> []" by auto
  moreover have "sorted_wrt (<) (map hd gs)" using gs(1) by (simp add: classes_def)
  ultimately have "length gs = 1" using all by (cases gs; cases "tl gs") auto
  then show ?thesis using gs(2) by (auto simp: length_Suc_conv)
qed

text \<open>C7: The weight of a pair is computed in binary64, but always lands in the same band (merge at 0.8,
  possible alias at 0.4, any evidence above 0) as the exact sum of the decimal constants, for every
  combination of shared signals, the manufacturer penalty and the VRRP cap.\<close>

theorem pair_weight_bands:
  "(fle HIGH_BAND_THRESHOLD (pair_weight h a b) \<longleftrightarrow> 8 / 10 \<le> decimal_pair_weight h a b) \<and>
   (fle MEDIUM_BAND_THRESHOLD (pair_weight h a b) \<longleftrightarrow> 4 / 10 \<le> decimal_pair_weight h a b) \<and>
   (flt (Fin 0) (pair_weight h a b) \<longleftrightarrow> 0 < decimal_pair_weight h a b)"
  using pair_weight_same_bands [of h a b] unfolding same_bands_def by simp

text \<open>C3: As long as no correlation value is held by more records than the bucket cap, correlating through
  buckets gives exactly the records that weighing every pair gives, whatever order the hash set of
  candidate pairs is visited in.\<close>

theorem correlate_eq_bruteforce:
  assumes "permutes visit" "length rs \<le> 2 ^ 64" "\<forall>r \<in> set rs. valid_confidence r"
    and "\<forall>k. length (holders h rs k) \<le> ih_max_correlation_bucket h"
  shows "correlate visit h rs = correlate_bruteforce h rs"
proof -
  have "comparable h rs i j \<longleftrightarrow> i < j \<and> j < length rs"
    if "flt (Fin 0) (pair_weight h (rs ! i) (rs ! j))" for i j
    using positive_weight_shares_key [OF that] assms(4) by (auto simp: comparable_def)
  then have "(i, j, w) \<in> set (compute_pair_weights visit h rs) \<longleftrightarrow>
      (i, j, w) \<in> set (compute_pair_weights_bruteforce h rs)" for i j w
    unfolding weights_of [OF assms(1)] set_bruteforce by auto
  then have "set (compute_pair_weights visit h rs) = set (compute_pair_weights_bruteforce h rs)" by auto
  from correlate_weights_cong [OF assms(2) good_weights_of [OF assms(1)] assms(3) this]
  show ?thesis by (simp add: correlate_def correlate_bruteforce_def)
qed

theorem correlate_eq_bruteforce_witness:
  "correlate rev identity_hints_default two_records = correlate_bruteforce identity_hints_default two_records"
proof (rule correlate_eq_bruteforce)
  have len: "length (holders identity_hints_default two_records k) \<le> length [0..<length two_records]" for k
    unfolding holders_def by (rule length_filter_le)
  have "length (holders identity_hints_default two_records k) \<le> 256" for k
    by (rule order_trans [OF len]) simp
  then show "\<forall>k. length (holders identity_hints_default two_records k) \<le> ih_max_correlation_bucket identity_hints_default"
    by (simp add: identity_hints_default_def default_max_correlation_bucket_def)
qed simp_all

text \<open>C5: Correlation is deterministic: the emitted records do not depend on the order in which the hash
  set of candidate pairs happens to be visited.\<close>

theorem correlate_visit_independent:
  assumes "permutes visit" "permutes visit'" "length rs \<le> 2 ^ 64" "\<forall>r \<in> set rs. valid_confidence r"
  shows "correlate visit h rs = correlate visit' h rs"
proof -
  have "(i, j, w) \<in> set (compute_pair_weights visit h rs) \<longleftrightarrow> (i, j, w) \<in> set (compute_pair_weights visit' h rs)" for i j w
    unfolding weights_of [OF assms(1)] weights_of [OF assms(2)] ..
  then have "set (compute_pair_weights visit h rs) = set (compute_pair_weights visit' h rs)" by auto
  from correlate_weights_cong [OF assms(3) good_weights_of [OF assms(1)] assms(4) this]
  show ?thesis by (simp add: correlate_def)
qed

theorem correlate_visit_independent_witness:
  "correlate rev identity_hints_default two_records = correlate (\<lambda>xs. xs) identity_hints_default two_records"
  by (rule correlate_visit_independent) simp_all

text \<open>C2: \<^verbatim>\<open>correlate\<close> never panics, and what it emits is one record per connected component of the merge
  band, in the order of the components' first members: a component of one record is passed on, with
  \<^verbatim>\<open>possible_alias_of\<close> naming a medium-band peer of maximal confidence if there is one; a larger component
  is fused field by field as \<^verbatim>\<open>fuses\<close> prescribes, with a confidence in the unit interval.\<close>

theorem correlate_correct:
  assumes "permutes visit" "length rs \<le> 2 ^ 64" "\<forall>r \<in> set rs. valid_confidence r"
  shows "\<exists>out. correlate visit h rs = Some out \<and> correlates h rs out"
  using assms by (rule correlate_correlates)

theorem correlate_correct_witness:
  "\<exists>out. correlate rev identity_hints_default two_records = Some out \<and> correlates identity_hints_default two_records out"
  by (rule correlate_correct) simp_all

text \<open>C4: Correlation loses no observation: the emitted records carry exactly the signals and probe kinds of
  the input, every management address survives as a management or alternative address, and no
  identity key is invented.\<close>

theorem correlate_conserves:
  assumes "permutes visit" "length rs \<le> 2 ^ 64" "\<forall>r \<in> set rs. valid_confidence r"
    and "correlate visit h rs = Some out"
  shows "(\<Union>r \<in> set out. set (dr_signals r)) = (\<Union>r \<in> set rs. set (dr_signals r)) \<and>
    (\<Union>r \<in> set out. set (dr_probe_kinds r)) = (\<Union>r \<in> set rs. set (dr_probe_kinds r)) \<and>
    mgmt_ips rs \<subseteq> (\<Union>r \<in> set out. addresses_of r) \<and>
    dr_identity_key ` set out \<subseteq> dr_identity_key ` set rs"
proof -
  have "correlates h rs out" using correlate_correlates [OF assms(1-3), of h] assms(4) by auto
  from correlates_conserves [OF this] show ?thesis by blast
qed

theorem correlate_conserves_witness:
  "\<exists>r. correlate rev identity_hints_default merging_records = Some [r] \<and>
     set (dr_signals r) = {SshHostKey ''k'', OpenPort 22, OpenPort 80} \<and> {V4 1, V4 2} \<subseteq> addresses_of r \<and>
     dr_identity_key r \<in> {IdentityKey ''a'', IdentityKey ''b''}"
proof -
  have small: "length merging_records \<le> 2 ^ 64" by (simp add: merging_records_valid)
  obtain r where r: "correlate rev identity_hints_default merging_records = Some [r]"
    using correlate_correlates [OF permutes_rev(1) small merging_records_valid(1)] merging_records_merge by blast
  have "mgmt_ips merging_records = {V4 1, V4 2}" by (auto simp: mgmt_ips_def merging_records_def plain_record_def)
  then show ?thesis
    using correlate_conserves [OF permutes_rev(1) small merging_records_valid(1) r] r
    by (auto simp: merging_records_def plain_record_def)
qed

end
