(* ===== verification/Identity_Findings.thy ===== *)
theory Identity_Findings
  imports Identity_Properties
begin

text \<open>
  Two behaviours of the identity fuser (\<^verbatim>\<open>fuser/identity.rs\<close>) that its documentation rules out, each on
  a concrete set of records: a correlation value over the bucket cap still decides a merge, and
  \<^verbatim>\<open>possible_alias_of\<close> can name an identity key that no emitted record carries.
\<close>

definition no_hints :: "nat \<Rightarrow> IdentityHints" where
  "no_hints cap = \<lparr>ih_vrrp_groups = [], ih_max_correlation_bucket = cap\<rparr>"

section \<open>A value over the cap\<close>

definition over_cap_records :: "DeviceRecord list" where
  "over_cap_records =
     [plain_record ''a'' (V4 1) (1 / 2) [SshHostKey ''k'', TlsSubject ''s''],
      plain_record ''b'' (V4 2) (1 / 2) [SshHostKey ''k'', TlsSubject ''s''],
      plain_record ''c'' (V4 3) (1 / 2) [SshHostKey ''k'']]"

text \<open>C12: A correlation value held by more records than the cap is not skipped altogether: here three
  records share an SSH host key under a cap of two, so the key must not merge anything, but two of
  them also share a TLS subject; that pair is found through the subject, and the host key then
  contributes its full weight and puts the pair in the merge band, where the subject alone would not
  even make it a possible alias.\<close>

theorem over_cap_value_still_merges:
  "ih_max_correlation_bucket (no_hints 2) <
     length (entry_list (fill_buckets (bucket_keys (no_hints 2)) over_cap_records) (KSshHostKey ''k'')) \<and>
   (\<exists>w. (0, 1, w) \<in> set (compute_pair_weights rev (no_hints 2) over_cap_records) \<and> fle HIGH_BAND_THRESHOLD w) \<and>
   \<not> fle MEDIUM_BAND_THRESHOLD (pair_weight (no_hints 2)
       (plain_record ''a'' (V4 1) (1 / 2) [TlsSubject ''s'']) (plain_record ''b'' (V4 2) (1 / 2) [TlsSubject ''s'']))"
proof (intro conjI)
  have key: "KSshHostKey ''k'' \<in> set (bucket_keys (no_hints 2) (over_cap_records ! i))" if "i < 3" for i
  proof (rule bucket_keysI(3))
    have "i = 0 \<or> i = 1 \<or> i = 2" using that by linarith
    then show "find_ssh_host_key (dr_signals (over_cap_records ! i)) = Some ''k''"
      by (auto simp: over_cap_records_def plain_record_def find_ssh_host_key_def numeral_2_eq_2)
  qed simp
  have len: "length over_cap_records = 3" by (simp add: over_cap_records_def)
  have "holders (no_hints 2) over_cap_records (KSshHostKey ''k'') = [0..<3]"
    unfolding holders_def len using key by (intro filter_True) simp
  then show "ih_max_correlation_bucket (no_hints 2) <
      length (entry_list (fill_buckets (bucket_keys (no_hints 2)) over_cap_records) (KSshHostKey ''k''))"
    by (simp add: fill_buckets_holders no_hints_def)
  have subj: "KTlsSubject ''s'' \<in> set (bucket_keys (no_hints 2) (over_cap_records ! i)) \<longleftrightarrow> i < 2" if "i < 3" for i
  proof -
    have "i = 0 \<or> i = 1 \<or> i = 2" using that by linarith
    then show ?thesis
      by (auto simp: set_bucket_keys over_cap_records_def plain_record_def find_tls_subject_def numeral_2_eq_2)
  qed
  have "holders (no_hints 2) over_cap_records (KTlsSubject ''s'') = [0, 1]"
    unfolding holders_def len using subj [of 0] subj [of 1] subj [of 2] by (simp add: upt_rec numeral_2_eq_2)
  then have "comparable (no_hints 2) over_cap_records 0 1"
    unfolding comparable_def using subj [of 0] subj [of 1] by (auto simp: no_hints_def len)
  moreover have "8 / 10 \<le> decimal_pair_weight (no_hints 2) (over_cap_records ! 0) (over_cap_records ! 1)"
    by (simp add: weight_eval over_cap_records_def no_hints_def)
  ultimately show "\<exists>w. (0, 1, w) \<in> set (compute_pair_weights rev (no_hints 2) over_cap_records) \<and> fle HIGH_BAND_THRESHOLD w"
    by (simp add: weights_of pair_weight_band_iff)
  have "decimal_pair_weight (no_hints 2) (plain_record ''a'' (V4 1) (1 / 2) [TlsSubject ''s''])
      (plain_record ''b'' (V4 2) (1 / 2) [TlsSubject ''s'']) = 3 / 10"
    by (simp add: weight_eval no_hints_def)
  then show "\<not> fle MEDIUM_BAND_THRESHOLD (pair_weight (no_hints 2)
       (plain_record ''a'' (V4 1) (1 / 2) [TlsSubject ''s'']) (plain_record ''b'' (V4 2) (1 / 2) [TlsSubject ''s'']))"
    using pair_weight_same_bands [of "no_hints 2" "plain_record ''a'' (V4 1) (1 / 2) [TlsSubject ''s'']"
        "plain_record ''b'' (V4 2) (1 / 2) [TlsSubject ''s'']"]
    unfolding same_bands_def by simp
qed

section \<open>A dangling alias\<close>

definition dangling_records :: "DeviceRecord list" where
  "dangling_records =
     [plain_record ''a'' (V4 1) (1 / 2) [SshHostKey ''k'', SnmpSysName ''n''],
      plain_record ''b'' (V4 2) (9 / 10) [SshHostKey ''k''],
      plain_record ''c'' (V4 3) (1 / 2) [SnmpSysName ''n'']]"

lemma below_3: "(i :: nat) < j \<Longrightarrow> j < 3 \<Longrightarrow> (i, j) \<in> {(0, 1), (0, 2), (1, 2)}"
  by auto

lemma dangling_weights:
  "decimal_pair_weight (no_hints 256) (dangling_records ! 0) (dangling_records ! 1) = 8 / 10"
  "decimal_pair_weight (no_hints 256) (dangling_records ! 0) (dangling_records ! 2) = 5 / 10"
  "decimal_pair_weight (no_hints 256) (dangling_records ! 1) (dangling_records ! 2) = 0"
  by (simp_all add: weight_eval dangling_records_def no_hints_def)

lemma dangling_comparable:
  assumes "i < j" "j < 3"
  shows "comparable (no_hints 256) dangling_records i j \<longleftrightarrow> (i, j) \<noteq> (1, 2)"
proof -
  have hold: "length (holders (no_hints 256) dangling_records k) \<le> 256" for k
  proof -
    have "length (holders (no_hints 256) dangling_records k) \<le> length [0..<length dangling_records]"
      unfolding holders_def by (rule length_filter_le)
    then show ?thesis by (simp add: dangling_records_def)
  qed
  consider "(i, j) = (0, 1)" | "(i, j) = (0, 2)" | "(i, j) = (1, 2)" using below_3 [OF assms] by auto
  then show ?thesis
    using hold assms unfolding comparable_def set_bucket_keys
    by cases (auto simp: dangling_records_def plain_record_def no_hints_def find_sysname_def
        find_ssh_host_key_def find_tls_subject_def collect_tls_san_names_def collect_reverse_dns_names_def
        map_filter_simps)
qed

lemma dangling_band: "merge_band (no_hints 256) dangling_records = {(0, 1)}"
proof -
  have "(i, j) \<in> merge_band (no_hints 256) dangling_records \<longleftrightarrow> (i, j) = (0, 1)" for i j
  proof (cases "i < j \<and> j < 3")
    case True
    then show ?thesis
      using below_3 [of i j] dangling_comparable [of i j] dangling_weights by (auto simp: merge_band_def)
  next
    case False
    then show ?thesis by (auto simp: merge_band_def comparable_def dangling_records_def)
  qed
  then show ?thesis by auto
qed

lemma dangling_same_device:
  "(i, j) \<in> same_device (no_hints 256) dangling_records \<longleftrightarrow> i = j \<or> (i, j) = (0, 1) \<or> (i, j) = (1, 0)"
proof -
  have "(i, j) \<in> ({(0, 1)} \<union> {(0, 1)}\<inverse>)\<^sup>* \<Longrightarrow> i = j \<or> (i, j) = (0, 1) \<or> (i, j) = (1, 0)" for i j :: nat
    by (induction rule: rtrancl_induct) auto
  then show ?thesis unfolding same_device_def dangling_band by auto
qed

lemma dangling_aliases: "possible_aliases (no_hints 256) dangling_records 2 = {0}"
proof -
  have "comparable (no_hints 256) dangling_records 2 j \<longleftrightarrow> False" for j
    by (auto simp: comparable_def dangling_records_def)
  moreover have "comparable (no_hints 256) dangling_records j 2 \<longleftrightarrow> j = 0" for j
    using dangling_comparable [of j 2] below_3 [of j 2] by (auto simp: comparable_def)
  ultimately show ?thesis
    unfolding possible_aliases_def dangling_same_device
    using dangling_weights(2) decimal_pair_weight_commute [of _ "dangling_records ! 2" "dangling_records ! 0"]
    by auto
qed

lemma sorted_of_set:
  assumes "sorted_wrt (<) g" "set g = set xs" "sorted_wrt (<) xs"
  shows "g = (xs :: nat list)"
  using assms by (metis strict_sorted_equal)

text \<open>C13: \<^verbatim>\<open>possible_alias_of\<close> can dangle. The first two records share a host key and merge under the second
  one's identity key, because its confidence is higher; the third shares a system name with the
  first and points at it, by the key that the merge made disappear from the output.\<close>

theorem possible_alias_can_dangle:
  "\<exists>out. correlate rev (no_hints 256) dangling_records = Some out \<and>
     (\<exists>r \<in> set out. \<exists>k. dr_possible_alias_of r = Some k \<and> k \<notin> dr_identity_key ` set out)"
proof -
  let ?h = "no_hints 256" and ?rs = "dangling_records"
  have valid: "\<forall>r \<in> set ?rs. valid_confidence r" and len: "length ?rs = 3" by (simp_all add: dangling_records_def)
  have len64: "length ?rs \<le> 2 ^ 64" using len by simp
  obtain out where out: "correlate rev ?h ?rs = Some out" "correlates ?h ?rs out"
    using correlate_correlates [OF permutes_rev(1) len64 valid, of ?h] by blast
  obtain gs where gs: "classes (length ?rs) (same_device ?h ?rs) gs" "length out = length gs"
    "\<And>k. k < length gs \<Longrightarrow> group_result ?h ?rs (gs ! k) (out ! k)"
    by (rule correlates_groups [OF out(2)]) (rule that; blast)
  have group: "g = [0, 1] \<or> g = [2]" if "g \<in> set gs" for g
  proof -
    have g: "g \<noteq> []" "set g \<subseteq> {..<3}" "sorted_wrt (<) g"
      "\<forall>i \<in> set g. \<forall>j < 3. j \<in> set g \<longleftrightarrow> (i, j) \<in> same_device ?h ?rs"
      using gs(1) that unfolding classes_def len by blast+
    obtain i where i: "i \<in> set g" using g(1) by (cases g) auto
    have eq: "set g = {j. j < 3 \<and> (i = j \<or> (i, j) = (0, 1) \<or> (i, j) = (1, 0))}"
      using g(2,4) i unfolding dangling_same_device by blast
    have "i = 0 \<or> i = 1 \<or> i = 2" using g(2) i by auto
    then have "set g = set [0, 1] \<or> set g = set [2]"
    proof (elim disjE)
      assume "i = 0"
      then have "set g = {0, 1}" unfolding eq by (simp add: set_eq_iff) linarith
      then show ?thesis by simp
    next
      assume "i = 1"
      then have "set g = {0, 1}" unfolding eq by (simp add: set_eq_iff) linarith
      then show ?thesis by simp
    next
      assume "i = 2"
      then have "set g = {2}" unfolding eq by (simp add: set_eq_iff) linarith
      then show ?thesis by simp
    qed
    then show ?thesis
      using sorted_of_set [OF g(3), of "[0, 1]"] sorted_of_set [OF g(3), of "[2]"] by (simp, blast)
  qed
  have "\<exists>g \<in> set gs. 2 \<in> set g" using gs(1) unfolding classes_def len by simp
  then obtain g where g: "g \<in> set gs" "2 \<in> set g" by blast
  then have "g = [2]" using group [OF g(1)] by auto
  then obtain k where k: "k < length gs" "gs ! k = [2]" using g(1) by (auto simp: in_set_conv_nth)
  have "passed_on ?h ?rs 2 (out ! k)" using gs(3) [OF k(1)] k(2) by (simp add: group_result_def)
  then have points: "dr_possible_alias_of (out ! k) = Some (IdentityKey ''a'')"
    by (simp add: passed_on_def dangling_aliases) (simp add: dangling_records_def plain_record_def)
  have "dr_identity_key (out ! m) \<noteq> IdentityKey ''a''" if m: "m < length gs" for m
  proof (cases "gs ! m = [2]")
    case True
    then have "passed_on ?h ?rs 2 (out ! m)" using gs(3) [OF m] by (simp add: group_result_def)
    then show ?thesis
      using passed_on_fields(5) by (simp add: dangling_records_def plain_record_def)
  next
    case False
    then have "gs ! m = [0, 1]" using group [OF nth_mem [OF m]] by blast
    then have "fuses [?rs ! 0, ?rs ! 1] (out ! m)" using gs(3) [OF m] by (simp add: group_result_def)
    then obtain best where "wins [?rs ! 0, ?rs ! 1] best" "dr_identity_key (out ! m) = dr_identity_key best"
      unfolding fuses_def by (elim conjE exE)
    then show ?thesis
      by (auto simp: wins_def dangling_records_def plain_record_def conf_of_def Cons_eq_append_conv)
  qed
  then have "IdentityKey ''a'' \<notin> dr_identity_key ` set out"
    using gs(2) by (metis (no_types, lifting) imageE in_set_conv_nth)
  then show ?thesis using out(1) points k(1) gs(2) nth_mem [of k out] by auto
qed

end
