(* ===== verification/Fuser_Direct.thy ===== *)
theory Fuser_Direct
  imports Identity_Fusion
begin

text \<open>
  The direct fuser of \<^verbatim>\<open>fuser/mod.rs\<close>: one record per target from that target's probe outcomes. The
  lemmas give the record field by field and show that under a validated configuration no input
  makes \<^verbatim>\<open>fuse_one\<close> fail. \<^verbatim>\<open>group_outcomes_by_ip\<close> is the batch grouping the streaming pipeline is
  compared with.
\<close>

section \<open>Definitions\<close>

definition group_by_ip_step ::
  "ProbeOutcome list list \<times> (IpAddr \<rightharpoonup> nat) \<Rightarrow> ProbeOutcome \<Rightarrow> ProbeOutcome list list \<times> (IpAddr \<rightharpoonup> nat)" where
  "group_by_ip_step st outcome =
     (let (groups, index) = st in
      case index (po_target_ip outcome) of
        Some i \<Rightarrow> (push_at groups i outcome, index)
      | None \<Rightarrow> (groups @ [[outcome]], index(po_target_ip outcome \<mapsto> length groups)))"

definition group_outcomes_by_ip :: "ProbeOutcome list \<Rightarrow> ProbeOutcome list list" where
  "group_outcomes_by_ip outcomes = fst (foldl group_by_ip_step ([], Map.empty) outcomes)"

record DirectFuser =
  df_confidence_per_signal :: f64
  df_confidence_baseline :: f64
  df_include_unreachable :: bool

definition DEFAULT_CONFIDENCE_BASELINE :: f64 where "DEFAULT_CONFIDENCE_BASELINE = round64 (1 / 10)"
definition DEFAULT_CONFIDENCE_PER_SIGNAL :: f64 where "DEFAULT_CONFIDENCE_PER_SIGNAL = round64 (1 / 10)"
definition DEFAULT_INCLUDE_UNREACHABLE :: bool where "DEFAULT_INCLUDE_UNREACHABLE = False"

definition direct_fuser_new :: DirectFuser where
  "direct_fuser_new = \<lparr>df_confidence_per_signal = DEFAULT_CONFIDENCE_PER_SIGNAL,
     df_confidence_baseline = DEFAULT_CONFIDENCE_BASELINE, df_include_unreachable = DEFAULT_INCLUDE_UNREACHABLE\<rparr>"

definition first_mac :: "ProbeOutcome list \<Rightarrow> string option" where
  "first_mac outcomes =
     find_map (\<lambda>s. case s of Mac m \<Rightarrow> Some m | _ \<Rightarrow> None) (concat (map po_signals outcomes))"

definition identity_value :: "IpAddr \<Rightarrow> string option \<Rightarrow> string" where
  "identity_value mgmt_ip mac = (case mac of Some m \<Rightarrow> ''mac:'' @ m | None \<Rightarrow> ''ip:'' @ show_ip mgmt_ip)"

definition fused_signals :: "ProbeOutcome list \<Rightarrow> Signal list" where
  "fused_signals outcomes = foldl (\<lambda>acc o'. extend_new acc (po_signals o')) [] outcomes"

definition fused_kinds :: "ProbeOutcome list \<Rightarrow> ProbeKind list" where
  "fused_kinds outcomes = foldl (\<lambda>acc o'. if po_reachable o' then push_new acc (po_kind o') else acc) [] outcomes"

definition latest_timestamp :: "ProbeOutcome list \<Rightarrow> system_time" where
  "latest_timestamp outcomes =
     (case map po_timestamp outcomes of [] \<Rightarrow> UNIX_EPOCH | t # ts \<Rightarrow> fold max ts t)"

definition raw_confidence :: "DirectFuser \<Rightarrow> nat \<Rightarrow> f64" where
  "raw_confidence f n = fadd (df_confidence_baseline f) (fmul (f64_of_nat n) (df_confidence_per_signal f))"

definition fuse_one :: "DirectFuser \<Rightarrow> ProbeOutcome list \<Rightarrow> DeviceRecord option result" where
  "fuse_one f outcomes =
     (if outcomes = [] then Inr None
      else if \<not> (\<exists>o' \<in> set outcomes. po_reachable o') \<and> \<not> df_include_unreachable f then Inr None
      else
        (let mgmt_ip = po_target_ip (hd outcomes); mac = first_mac outcomes in
         case identity_key_new (identity_value mgmt_ip mac) of
           Inl e \<Rightarrow> Inl (EConfig e)
         | Inr identity_key \<Rightarrow>
             (let signals = fused_signals outcomes in
              case confidence_new (fmin (raw_confidence f (length signals)) (Fin 1)) of
                Inl e \<Rightarrow> Inl (EConfig e)
              | Inr confidence \<Rightarrow>
                  Inr (Some
                    \<lparr>dr_identity_key = identity_key, dr_mgmt_ip = Some mgmt_ip, dr_mac = mac,
                     dr_manufacturer = None, dr_model = None, dr_product_family = None, dr_platform = None,
                     dr_os_version = None, dr_ssh_version = None, dr_http_server = None,
                     dr_http_version = None, dr_role = None, dr_confidence = confidence,
                     dr_last_seen = latest_timestamp outcomes, dr_signals = signals,
                     dr_probe_kinds = fused_kinds outcomes, dr_schema_version = CURRENT_SCHEMA_VERSION,
                     dr_schema_id = CURRENT_SCHEMA_ID, dr_alt_ips = [], dr_possible_alias_of = None,
                     dr_scan_metadata = scan_metadata_default\<rparr>))))"

definition direct_ingest :: "DirectFuser \<Rightarrow> ProbeOutcome list \<Rightarrow> DeviceRecord list result" where
  "direct_ingest f outcomes =
     (case fuse_one f outcomes of
        Inl e \<Rightarrow> Inl e
      | Inr (Some record) \<Rightarrow> Inr [record]
      | Inr None \<Rightarrow> Inr [])"

definition direct_finish :: "DirectFuser \<Rightarrow> DeviceRecord list result" where
  "direct_finish f = Inr []"

section \<open>Facts\<close>

text \<open>The configurations \<^verbatim>\<open>FuserConfig::validate\<close> lets through, and the records any fuser may emit.\<close>

definition direct_valid :: "DirectFuser \<Rightarrow> bool" where
  "direct_valid f \<longleftrightarrow> (\<exists>b p. df_confidence_baseline f = Fin b \<and> 0 \<le> b \<and> b \<le> 1 \<and>
     df_confidence_per_signal f = Fin p \<and> 0 \<le> p)"

definition record_ok :: "DeviceRecord \<Rightarrow> bool" where
  "record_ok r \<longleftrightarrow> valid_confidence r \<and> distinct (dr_signals r) \<and> distinct (dr_probe_kinds r) \<and>
     identity_key_as_str (dr_identity_key r) \<noteq> []"

lemma set_fused_signals: "set (fused_signals outcomes) = (\<Union>o' \<in> set outcomes. set (po_signals o'))"
proof -
  have "set (foldl (\<lambda>acc o'. extend_new acc (po_signals o')) acc os) = set acc \<union> (\<Union>o' \<in> set os. set (po_signals o'))" for acc and os :: "ProbeOutcome list"
    by (induction os arbitrary: acc) auto
  then show ?thesis by (simp add: fused_signals_def)
qed

lemma distinct_fused_signals [simp]: "distinct (fused_signals outcomes)"
proof -
  have "distinct acc \<Longrightarrow> distinct (foldl (\<lambda>acc o'. extend_new acc (po_signals o')) acc os)" for acc and os :: "ProbeOutcome list"
    by (induction os arbitrary: acc) auto
  then show ?thesis by (simp add: fused_signals_def)
qed

lemma set_fused_kinds: "set (fused_kinds outcomes) = {po_kind o' | o'. o' \<in> set outcomes \<and> po_reachable o'}"
proof -
  have "set (foldl (\<lambda>acc o'. if po_reachable o' then push_new acc (po_kind o') else acc) acc os) =
      set acc \<union> {po_kind o' | o'. o' \<in> set os \<and> po_reachable o'}" for acc and os :: "ProbeOutcome list"
    by (induction os arbitrary: acc) auto
  then show ?thesis by (simp add: fused_kinds_def)
qed

lemma distinct_fused_kinds [simp]: "distinct (fused_kinds outcomes)"
proof -
  have "distinct acc \<Longrightarrow> distinct (foldl (\<lambda>acc o'. if po_reachable o' then push_new acc (po_kind o') else acc) acc os)" for acc and os :: "ProbeOutcome list"
    by (induction os arbitrary: acc) auto
  then show ?thesis by (simp add: fused_kinds_def)
qed

lemma latest_timestamp_Max: "outcomes \<noteq> [] \<Longrightarrow> latest_timestamp outcomes = Max (po_timestamp ` set outcomes)"
  by (cases outcomes) (simp_all add: latest_timestamp_def Max.set_eq_fold [symmetric])

lemma dropWhile_snoc_mem: "\<not> P c \<Longrightarrow> c \<in> set (dropWhile P (xs @ [c]))"
  by (induction xs) auto

lemma trim_Cons: "\<not> is_whitespace c \<Longrightarrow> trim (c # s) \<noteq> []"
proof -
  assume c: "\<not> is_whitespace c"
  have "c \<in> set (dropWhile is_whitespace (rev s @ [c]))" using c by (simp add: dropWhile_snoc_mem)
  then show ?thesis using c by (auto simp: trim_def)
qed

lemma identity_value_ok: "\<exists>k. identity_key_new (identity_value ip mac) = Inr k \<and> identity_key_as_str k \<noteq> []"
proof -
  have "trim (identity_value ip mac) \<noteq> []"
    by (cases mac) (auto simp: identity_value_def is_whitespace_def intro!: trim_Cons)
  then show ?thesis by (simp add: identity_key_new_def)
qed

lemma f64_of_nat_finite:
  assumes "n \<le> 2 ^ 64"
  shows "\<exists>q. f64_of_nat n = Fin q \<and> 0 \<le> q"
proof (cases "n = 0")
  case False
  let ?p = "int n"
  have p: "0 < ?p" using False by simp
  have lo: "pow2 (bitlen ?p - 1) \<le> of_nat n" and hi: "of_nat n < pow2 (bitlen ?p - 1 + 1)"
    using bitlen_pow2_bounds [OF p] by simp_all
  have b: "0 < bitlen ?p" using p bitlen_eq_zero_iff [of ?p] bitlen_nonneg [of ?p] by linarith
  have "(of_nat n :: rat) \<le> of_nat (2 ^ 64)" using assms by (simp only: of_nat_le_iff)
  then have "pow2 (bitlen ?p - 1) \<le> pow2 64" using lo by (simp add: pow2_def)
  then have "bitlen ?p - 1 \<le> 64" by (simp only: pow2_le_iff)
  then have "round64 (of_nat n) =
      Fin (of_int (round_half_even (of_nat n / pow2 (bitlen ?p - 1 - 52))) * pow2 (bitlen ?p - 1 - 52))"
    using b by (intro round64_binade [OF lo hi]) linarith+
  then show ?thesis using nonneg_f64_of_nat [of n] by (auto simp: f64_of_nat_def)
qed (simp add: f64_of_nat_def)

lemma raw_confidence_unit:
  assumes "direct_valid f" "n \<le> 2 ^ 64"
  shows "\<exists>r. fmin (raw_confidence f n) (Fin 1) = Fin r \<and> 0 \<le> r \<and> r \<le> 1"
proof -
  obtain b p where bp: "df_confidence_baseline f = Fin b" "0 \<le> b" "df_confidence_per_signal f = Fin p" "0 \<le> p"
    using assms(1) by (auto simp: direct_valid_def)
  obtain q where q: "f64_of_nat n = Fin q" "0 \<le> q" using f64_of_nat_finite [OF assms(2)] by blast
  have "nonneg (fmul (f64_of_nat n) (df_confidence_per_signal f))"
    unfolding q(1) bp(3) by (rule nonneg_fmul) (simp_all add: q(2) bp(4))
  then have "nonneg (raw_confidence f n)"
    unfolding raw_confidence_def bp(1) using bp(2) by (intro nonneg_fadd) simp_all
  then show ?thesis by (rule fmin_unit)
qed

lemma fuse_one_ok:
  assumes "direct_valid f" "length (fused_signals outcomes) \<le> 2 ^ 64"
  shows "\<exists>r. fuse_one f outcomes = Inr r \<and> (r = None \<longleftrightarrow>
      outcomes = [] \<or> \<not> (\<exists>o' \<in> set outcomes. po_reachable o') \<and> \<not> df_include_unreachable f) \<and>
    (\<forall>rec. r = Some rec \<longrightarrow> record_ok rec \<and> dr_mgmt_ip rec = Some (po_target_ip (hd outcomes)) \<and>
       dr_mac rec = first_mac outcomes \<and> dr_signals rec = fused_signals outcomes \<and>
       dr_probe_kinds rec = fused_kinds outcomes \<and> dr_last_seen rec = Max (po_timestamp ` set outcomes) \<and>
       dr_alt_ips rec = [])"
proof -
  obtain k where k: "identity_key_new (identity_value (po_target_ip (hd outcomes)) (first_mac outcomes)) = Inr k"
    "identity_key_as_str k \<noteq> []" using identity_value_ok by blast
  obtain c where c: "fmin (raw_confidence f (length (fused_signals outcomes))) (Fin 1) = Fin c" "0 \<le> c" "c \<le> 1"
    using raw_confidence_unit [OF assms] by blast
  then have c': "confidence_new (fmin (raw_confidence f (length (fused_signals outcomes))) (Fin 1)) = Inr (Confidence (Fin c))"
    by (simp add: confidence_new_Fin)
  show ?thesis
    unfolding fuse_one_def Let_def k(1) c' sum.case
    using k(2) c latest_timestamp_Max [of outcomes] by (auto simp: record_ok_def valid_confidence_def)
qed

section \<open>Grouping\<close>

lemma push_new_cases: "push_new xs x = (if x \<in> set xs then xs else xs @ [x])"
  by (simp add: push_new_def)

text \<open>The loop keeps the groups of what it has read, in the order of the first occurrences, and an index
  that finds the group of an address.\<close>

definition target_groups :: "ProbeOutcome list \<Rightarrow> ProbeOutcome list list" where
  "target_groups outcomes =
     map (\<lambda>ip. filter (\<lambda>o'. po_target_ip o' = ip) outcomes) (extend_new [] (map po_target_ip outcomes))"

definition indexes :: "(IpAddr \<rightharpoonup> nat) \<Rightarrow> IpAddr list \<Rightarrow> bool" where
  "indexes index ips \<longleftrightarrow> (\<forall>ip i. index ip = Some i \<longleftrightarrow> i < length ips \<and> ips ! i = ip)"

lemma group_by_ip_step_ok:
  assumes "indexes index (extend_new [] (map po_target_ip seen))"
  shows "\<exists>index'. group_by_ip_step (target_groups seen, index) x = (target_groups (seen @ [x]), index') \<and>
    indexes index' (extend_new [] (map po_target_ip (seen @ [x])))"
proof (cases "index (po_target_ip x)")
  case None
  let ?ips = "extend_new [] (map po_target_ip seen)"
  have new: "po_target_ip x \<notin> set ?ips"
    using None assms unfolding indexes_def in_set_conv_nth by (metis option.distinct(1))
  then have empty: "filter (\<lambda>o'. po_target_ip o' = po_target_ip x) seen = []" by (simp add: filter_empty_conv) (metis image_eqI)
  have "target_groups (seen @ [x]) = target_groups seen @ [[x]]"
    using new empty by (auto simp: target_groups_def push_new_cases)
  moreover have "\<forall>i < length ?ips. ?ips ! i \<noteq> po_target_ip x" using new nth_mem by metis
  then have "indexes (index(po_target_ip x \<mapsto> length ?ips)) (?ips @ [po_target_ip x])"
    using assms unfolding indexes_def by (auto simp: nth_append less_Suc_eq split: if_splits)
  ultimately show ?thesis using None new by (simp add: group_by_ip_step_def push_new_cases target_groups_def)
next
  case (Some i)
  let ?ips = "extend_new [] (map po_target_ip seen)"
  have i: "i < length ?ips" "?ips ! i = po_target_ip x" using Some assms unfolding indexes_def by blast+
  then have old: "push_new ?ips (po_target_ip x) = ?ips" using nth_mem [OF i(1)] by (simp add: push_new_cases)
  have "distinct ?ips" by simp
  then have "target_groups (seen @ [x]) = push_at (target_groups seen) i x"
    using i old by (auto simp: target_groups_def push_at_def intro!: nth_equalityI simp: nth_list_update nth_eq_iff_index_eq)
  then show ?thesis using Some assms old by (simp add: group_by_ip_step_def)
qed

lemma group_by_ip_run:
  assumes "indexes index (extend_new [] (map po_target_ip seen))"
  shows "fst (foldl group_by_ip_step (target_groups seen, index) outcomes) = target_groups (seen @ outcomes)"
  using assms
proof (induction outcomes arbitrary: seen index)
  case (Cons x outcomes)
  obtain index' where s: "group_by_ip_step (target_groups seen, index) x = (target_groups (seen @ [x]), index')"
    "indexes index' (extend_new [] (map po_target_ip (seen @ [x])))"
    using group_by_ip_step_ok [OF Cons.prems] by blast
  show ?case using Cons.IH [OF s(2)] s(1) by simp
qed simp

lemma group_outcomes_by_ip_groups: "group_outcomes_by_ip outcomes = target_groups outcomes"
  using group_by_ip_run [of Map.empty "[]" outcomes]
  by (simp add: group_outcomes_by_ip_def target_groups_def indexes_def)

end
