(* ===== verification/Fuser_Mib.thy ===== *)
theory Fuser_Mib
  imports Fuser_Direct
begin

text \<open>
  MIB enrichment (\<^verbatim>\<open>fuser/mib.rs\<close>): the tab-separated identity table and the fuser that fills the
  hardware fields of a record from it. A reader is the list of its lines, each either the text or
  an I/O error. The bundled table and the file system are parameters. The lemmas say which lines
  the parser accepts, that user entries win over bundled ones, and that enrichment only ever fills
  empty fields.
\<close>

section \<open>The table\<close>

record MibEntry =
  me_manufacturer :: "string option"
  me_model :: "string option"
  me_product_family :: "string option"

type_synonym MibTable = "string \<rightharpoonup> MibEntry"
type_synonym lines = "(string + string) list"

datatype MibLineError = BadColumnCount nat | BadOid string | NoIdentityColumn

datatype MibParseError = LineError nat MibLineError | IoError string

definition then_some :: "string \<Rightarrow> string option" where
  "then_some s = (if s = [] then None else Some s)"

definition parse_mib_row :: "string \<Rightarrow> MibLineError + (string \<times> MibEntry)" where
  "parse_mib_row trimmed =
     (let cols = split_on (CHR 0x09) trimmed in
      if length cols \<noteq> 4 then Inl (BadColumnCount (length cols))
      else
        (let oid = trim (cols ! 0) in
         if \<not> is_dotted_decimal oid then Inl (BadOid oid)
         else
           (let manufacturer = trim (cols ! 1); model = trim (cols ! 2); product_family = trim (cols ! 3) in
            if manufacturer = [] \<and> model = [] \<and> product_family = [] then Inl NoIdentityColumn
            else Inr (oid, \<lparr>me_manufacturer = then_some manufacturer, me_model = then_some model,
                            me_product_family = then_some product_family\<rparr>))))"

definition skipped_line :: "string \<Rightarrow> bool" where
  "skipped_line trimmed \<longleftrightarrow> trimmed = [] \<or> hd trimmed = CHR ''#''"

fun parse_mib_lines :: "nat \<Rightarrow> MibTable \<Rightarrow> lines \<Rightarrow> MibParseError + MibTable" where
  "parse_mib_lines n entries [] = Inr entries"
| "parse_mib_lines n entries (Inl e # rest) = Inl (IoError e)"
| "parse_mib_lines n entries (Inr raw # rest) =
     (let trimmed = trim raw in
      if skipped_line trimmed then parse_mib_lines (Suc n) entries rest
      else case parse_mib_row trimmed of
             Inl e \<Rightarrow> Inl (LineError n e)
           | Inr (oid, entry) \<Rightarrow> parse_mib_lines (Suc n) (entries(oid \<mapsto> entry)) rest)"

definition parse_mib :: "lines \<Rightarrow> MibParseError + MibTable" where
  "parse_mib reader = parse_mib_lines 1 Map.empty reader"

definition from_bundled :: "lines \<Rightarrow> MibTable result" where
  "from_bundled bundled =
     (case parse_mib bundled of
        Inl (LineError _ _) \<Rightarrow> Inl (EConfig (InvalidValue ''failed to parse bundled MIB identity table''))
      | Inl (IoError _) \<Rightarrow> Inl (EConfig (InvalidValue ''failed to read bundled MIB identity table''))
      | Inr table \<Rightarrow> Inr table)"

definition from_path :: "lines \<Rightarrow> (string \<Rightarrow> lines option) \<Rightarrow> string \<Rightarrow> MibTable result" where
  "from_path bundled open_file path =
     (case from_bundled bundled of
        Inl e \<Rightarrow> Inl e
      | Inr table \<Rightarrow>
          (case open_file path of
             None \<Rightarrow> Inl (EConfig (InvalidValue ''MIB data file could not be opened''))
           | Some reader \<Rightarrow>
               (case parse_mib reader of
                  Inl (LineError _ _) \<Rightarrow> Inl (EConfig (InvalidValue ''MIB data file is not a valid mib-identity file''))
                | Inl (IoError _) \<Rightarrow> Inl (EConfig (InvalidValue ''MIB data file could not be read''))
                | Inr overlay \<Rightarrow> Inr (table ++ overlay))))"

section \<open>Enrichment\<close>

definition fill_if_empty :: "string option \<Rightarrow> string option \<Rightarrow> string option" where
  "fill_if_empty field value = (if field = None then value else field)"

definition enrich :: "MibTable \<Rightarrow> DeviceRecord \<Rightarrow> DeviceRecord" where
  "enrich table r =
     (case find_map (\<lambda>s. case s of SnmpSysObjectId oid \<Rightarrow> Some oid | _ \<Rightarrow> None) (dr_signals r) of
        None \<Rightarrow> r
      | Some oid \<Rightarrow>
          (case table oid of
             None \<Rightarrow> r
           | Some entry \<Rightarrow>
               r\<lparr>dr_model := fill_if_empty (dr_model r) (me_model entry),
                 dr_product_family := fill_if_empty (dr_product_family r) (me_product_family entry),
                 dr_manufacturer := fill_if_empty (dr_manufacturer r) (me_manufacturer entry)\<rparr>))"

section \<open>Facts\<close>

lemma enrich_keeps [simp]:
  "dr_confidence (enrich t r) = dr_confidence r" "dr_signals (enrich t r) = dr_signals r"
  "dr_probe_kinds (enrich t r) = dr_probe_kinds r" "dr_identity_key (enrich t r) = dr_identity_key r"
  "dr_mgmt_ip (enrich t r) = dr_mgmt_ip r" "dr_mac (enrich t r) = dr_mac r" "dr_alt_ips (enrich t r) = dr_alt_ips r"
  by (simp_all add: enrich_def split: option.split)

lemma enrich_record_ok [simp]: "record_ok (enrich t r) = record_ok r"
  by (simp add: record_ok_def valid_confidence_def)

lemma enrich_keeps_filled:
  assumes "f \<in> {dr_manufacturer, dr_model, dr_product_family}" "f r = Some v"
  shows "f (enrich t r) = Some v"
  using assms by (auto simp: enrich_def fill_if_empty_def split: option.split)

text \<open>The innermost enricher keeps a field: enriching twice gives the first table priority, as one
  lookup in the overlaid tables would.\<close>

lemma enrich_enrich:
  assumes "t1 oid = Some e1" "t2 oid = Some e2"
    and "find_map (\<lambda>s. case s of SnmpSysObjectId oid \<Rightarrow> Some oid | _ \<Rightarrow> None) (dr_signals r) = Some oid"
  shows "dr_manufacturer (enrich t2 (enrich t1 r)) =
      or_else (dr_manufacturer r) (or_else (me_manufacturer e1) (me_manufacturer e2))"
    "dr_model (enrich t2 (enrich t1 r)) = or_else (dr_model r) (or_else (me_model e1) (me_model e2))"
    "dr_product_family (enrich t2 (enrich t1 r)) =
      or_else (dr_product_family r) (or_else (me_product_family e1) (me_product_family e2))"
  using assms by (auto simp: enrich_def fill_if_empty_def or_else_def split: option.split)

text \<open>Trimming the whole line first drops an empty last column together with its tab.\<close>

lemma length_split_on: "length (split_on c s) = Suc (length (filter ((=) c) s))"
proof (induction s)
  case (Cons x xs)
  obtain p ps where "split_on c xs = p # ps" by (cases "split_on c xs") auto
  then show ?case using Cons by auto
qed simp

lemma filter_trim_le: "length (filter P (trim s)) \<le> length (filter P s)"
proof -
  have d: "length (filter P (dropWhile Q xs)) \<le> length (filter P xs)" for Q xs
    by (induction xs) auto
  have "length (filter P (trim s)) = length (filter P (dropWhile is_whitespace (rev (dropWhile is_whitespace s))))"
    by (simp add: trim_def rev_filter [symmetric])
  also have "\<dots> \<le> length (filter P (rev (dropWhile is_whitespace s)))" by (rule d)
  also have "\<dots> \<le> length (filter P s)" using d by (simp add: rev_filter [symmetric])
  finally show ?thesis .
qed

lemma tab_whitespace [simp]: "is_whitespace (CHR 0x09)"
  by (simp add: is_whitespace_def)

lemma trim_snoc_whitespace: "is_whitespace c \<Longrightarrow> trim (s @ [c]) = trim s"
proof -
  assume c: "is_whitespace c"
  have "dropWhile is_whitespace (s @ [c]) = (if dropWhile is_whitespace s = [] then [] else dropWhile is_whitespace s @ [c])"
    using c by (induction s) auto
  note eq = this
  show ?thesis
  proof (cases "dropWhile is_whitespace s = []")
    case True
    then show ?thesis unfolding trim_def eq by (simp only: simp_thms if_True)
  next
    case False
    then show ?thesis unfolding trim_def eq using c by (simp only: if_False rev_append rev.simps append_Nil append_Cons dropWhile.simps if_True)
  qed
qed

lemma dropWhile_snoc_stop: "\<not> P c \<Longrightarrow> dropWhile P (xs @ [c]) = dropWhile P xs @ [c]"
  by (induction xs) auto

lemma trim_Cons_stop: "\<not> is_whitespace c \<Longrightarrow> \<exists>r. trim (c # s) = c # r"
  by (simp add: trim_def dropWhile_snoc_stop)

lemma is_dotted_decimal_hd:
  assumes "is_dotted_decimal oid"
  shows "\<exists>c cs. oid = c # cs \<and> is_ascii_digit c"
proof (cases oid)
  case Nil
  then show ?thesis using assms by (simp add: is_dotted_decimal_def)
next
  case (Cons c cs)
  obtain p ps where p: "split_on (CHR ''.'') cs = p # ps" by (cases "split_on (CHR ''.'') cs") auto
  have "is_ascii_digit c"
    using assms Cons p by (cases "c = CHR ''.''") (auto simp: is_dotted_decimal_def)
  then show ?thesis using Cons by simp
qed

section \<open>The rows of a file\<close>

text \<open>What a data line says, read off its text: four columns between tabs, blanks around a column dropped,
  the identifier dotted decimal, an empty column no value, and not all three values missing.\<close>

definition describes :: "string \<Rightarrow> string \<Rightarrow> MibEntry \<Rightarrow> bool" where
  "describes raw oid e \<longleftrightarrow>
     (\<exists>c0 c1 c2 c3. trim raw = c0 @ [CHR 0x09] @ c1 @ [CHR 0x09] @ c2 @ [CHR 0x09] @ c3 \<and>
        CHR 0x09 \<notin> set c0 \<union> set c1 \<union> set c2 \<union> set c3 \<and> oid = trim c0 \<and> is_dotted_decimal oid \<and>
        e = \<lparr>me_manufacturer = then_some (trim c1), me_model = then_some (trim c2),
             me_product_family = then_some (trim c3)\<rparr> \<and>
        \<not> (trim c1 = [] \<and> trim c2 = [] \<and> trim c3 = []))"

text \<open>The last line of a file that describes an identifier.\<close>

definition last_row :: "lines \<Rightarrow> string \<Rightarrow> MibEntry \<Rightarrow> bool" where
  "last_row ls oid e \<longleftrightarrow> (\<exists>before raw after. ls = before @ Inr raw # after \<and> describes raw oid e \<and>
     (\<forall>raw' e'. Inr raw' \<in> set after \<longrightarrow> \<not> describes raw' oid e'))"

lemma split_on_skip: "c \<notin> set p \<Longrightarrow> split_on c (p @ c # s) = p # split_on c s" "c \<notin> set p \<Longrightarrow> split_on c p = [p]"
  by (induction p) auto

lemma split_on_four:
  "split_on c s = [c0, c1, c2, c3] \<longleftrightarrow>
     s = c0 @ [c] @ c1 @ [c] @ c2 @ [c] @ c3 \<and> c \<notin> set c0 \<union> set c1 \<union> set c2 \<union> set c3"
proof
  assume split: "split_on c s = [c0, c1, c2, c3]"
  have "s = join [c] [c0, c1, c2, c3]" using join_split_on [of c s] split by simp
  moreover have "c \<notin> set p" if "p \<in> {c0, c1, c2, c3}" for p using split_on_no_sep [of p c s] split that by simp
  ultimately show "s = c0 @ [c] @ c1 @ [c] @ c2 @ [c] @ c3 \<and> c \<notin> set c0 \<union> set c1 \<union> set c2 \<union> set c3" by simp
qed (simp add: split_on_skip)

lemma length_4_iff: "length xs = 4 \<longleftrightarrow> (\<exists>a b c d. xs = [a, b, c, d])"
  by (auto simp: numeral_eq_Suc length_Suc_conv)

lemma parse_mib_row_describes: "parse_mib_row (trim raw) = Inr (oid, e) \<longleftrightarrow> describes raw oid e"
proof (cases "length (split_on (CHR 0x09) (trim raw)) = 4")
  case True
  then obtain c0 c1 c2 c3 where cols: "split_on (CHR 0x09) (trim raw) = [c0, c1, c2, c3]" by (auto simp: length_4_iff)
  have "describes raw oid e \<longleftrightarrow> oid = trim c0 \<and> is_dotted_decimal oid \<and>
      e = \<lparr>me_manufacturer = then_some (trim c1), me_model = then_some (trim c2), me_product_family = then_some (trim c3)\<rparr> \<and>
      \<not> (trim c1 = [] \<and> trim c2 = [] \<and> trim c3 = [])"
    unfolding describes_def by (simp only: split_on_four [symmetric] conj_assoc [symmetric] cols) auto
  then show ?thesis using cols by (auto simp: parse_mib_row_def Let_def)
next
  case False
  then have "\<not> describes raw oid e" unfolding describes_def by (auto simp: split_on_skip)
  then show ?thesis using False by (simp add: parse_mib_row_def Let_def)
qed

lemma describes_not_skipped: "describes raw oid e \<Longrightarrow> \<not> skipped_line (trim raw)"
proof
  assume d: "describes raw oid e" and "skipped_line (trim raw)"
  obtain c0 rest where c0: "trim raw = c0 @ CHR 0x09 # rest" "is_dotted_decimal (trim c0)"
    using d by (auto simp: describes_def)
  then have "hd (trim raw) = CHR ''#''" using \<open>skipped_line (trim raw)\<close> by (auto simp: skipped_line_def)
  moreover have "c0 \<noteq> []" using c0(2) is_dotted_decimal_hd by fastforce
  ultimately obtain r where "c0 = CHR ''#'' # r" using c0(1) by (cases c0) auto
  then obtain r' where "trim c0 = CHR ''#'' # r'"
    using trim_Cons_stop [of "CHR ''#''" r] by (auto simp: is_whitespace_def)
  then show False using is_dotted_decimal_hd [OF c0(2)] by (auto simp: is_ascii_digit_def)
qed

lemma describes_unique: "describes raw oid e \<Longrightarrow> describes raw oid' e' \<Longrightarrow> oid' = oid \<and> e' = e"
  by (simp add: parse_mib_row_describes [symmetric])

lemma last_row_Nil [simp]: "\<not> last_row [] oid e"
  by (simp add: last_row_def)

lemma last_row_Cons:
  "last_row (l # ls) oid e \<longleftrightarrow> last_row ls oid e \<or>
     (\<exists>raw. l = Inr raw \<and> describes raw oid e \<and> (\<forall>raw' e'. Inr raw' \<in> set ls \<longrightarrow> \<not> describes raw' oid e'))"
  unfolding last_row_def Cons_eq_append_conv by blast

lemma ex_last_row: "(\<exists>e. last_row ls oid e) \<longleftrightarrow> (\<exists>raw e. Inr raw \<in> set ls \<and> describes raw oid e)"
  by (induction ls) (auto simp: last_row_Cons)

lemma last_row_Cons_ex:
  "last_row (l # ls) oid e \<longleftrightarrow> last_row ls oid e \<or> (\<nexists>e'. last_row ls oid e') \<and> (\<exists>raw. l = Inr raw \<and> describes raw oid e)"
  unfolding last_row_Cons ex_last_row by blast

lemma parse_mib_lines_ConsE:
  assumes "parse_mib_lines n t (l # ls) = Inr t'"
  obtains (skip) raw where "l = Inr raw" "skipped_line (trim raw)" "parse_mib_lines (Suc n) t ls = Inr t'"
  | (row) raw oid e where "l = Inr raw" "describes raw oid e" "parse_mib_lines (Suc n) (t(oid \<mapsto> e)) ls = Inr t'"
proof (cases l)
  case (Inr raw)
  show ?thesis
  proof (cases "skipped_line (trim raw)")
    case False
    then obtain oid e where "parse_mib_row (trim raw) = Inr (oid, e)" "parse_mib_lines (Suc n) (t(oid \<mapsto> e)) ls = Inr t'"
      using assms Inr by (auto simp: Let_def split: sum.splits)
    then show ?thesis using row [OF Inr] by (simp add: parse_mib_row_describes)
  qed (use assms Inr skip in simp)
qed (use assms in simp)

lemma parse_mib_lines_rows:
  "parse_mib_lines n t ls = Inr t' \<Longrightarrow>
   t' oid = Some e \<longleftrightarrow> last_row ls oid e \<or> (\<nexists>e'. last_row ls oid e') \<and> t oid = Some e"
proof (induction ls arbitrary: n t)
  case (Cons l ls)
  from Cons.prems show ?case
  proof (cases rule: parse_mib_lines_ConsE)
    case (skip raw)
    then have "\<not> describes raw oid' e'" for oid' e' using describes_not_skipped by blast
    then show ?thesis using Cons.IH [OF skip(3)] skip(1) by (simp add: last_row_Cons_ex)
  next
    case (row raw oid' e')
    then have "describes raw oid e'' \<longleftrightarrow> oid = oid' \<and> e'' = e'" for e'' using describes_unique by blast
    then show ?thesis using Cons.IH [OF row(3)] row(1) by (auto simp: last_row_Cons_ex)
  qed
qed simp

lemma parse_mib_lines_reads:
  "parse_mib_lines n t ls = Inr t' \<Longrightarrow> Inr raw \<in> set ls \<Longrightarrow> skipped_line (trim raw) \<or> (\<exists>oid e. describes raw oid e)"
proof (induction ls arbitrary: n t)
  case (Cons l ls)
  from Cons.prems(1) show ?case by (cases rule: parse_mib_lines_ConsE) (use Cons in auto)
qed simp

lemma from_path_Inr:
  "from_path bundled open_file path = Inr t \<longleftrightarrow>
   (\<exists>reader overlay seed. open_file path = Some reader \<and> parse_mib reader = Inr overlay \<and>
      parse_mib bundled = Inr seed \<and> t = seed ++ overlay)"
  by (auto simp: from_path_def from_bundled_def split: option.splits sum.splits MibParseError.splits)

section \<open>Properties\<close>

text \<open>C11: A table loaded from a path is read off the text of the file and of the bundled table. Every line of the
  file is blank, a comment or a row with a dotted-decimal identifier and at least one of manufacturer,
  model and product family. An identifier has the entry of the last row of the file that describes it,
  or, when the file has none, of the last such row of the bundled table.\<close>

theorem from_path_table:
  assumes "from_path bundled open_file path = Inr t"
  shows "\<exists>reader. open_file path = Some reader \<and>
    (\<forall>raw. Inr raw \<in> set reader \<longrightarrow> trim raw = [] \<or> hd (trim raw) = CHR ''#'' \<or> (\<exists>oid e. describes raw oid e)) \<and>
    (\<forall>oid e. t oid = Some e \<longleftrightarrow> last_row reader oid e \<or> (\<nexists>e'. last_row reader oid e') \<and> last_row bundled oid e)"
proof -
  obtain reader overlay seed where f: "open_file path = Some reader" "parse_mib reader = Inr overlay"
    and seed: "parse_mib bundled = Inr seed" and t: "t = seed ++ overlay"
    using assms unfolding from_path_Inr by blast
  have o: "overlay oid = Some e \<longleftrightarrow> last_row reader oid e" "seed oid = Some e \<longleftrightarrow> last_row bundled oid e" for oid e
    using parse_mib_lines_rows [OF f(2) [unfolded parse_mib_def]] parse_mib_lines_rows [OF seed [unfolded parse_mib_def]]
    by simp_all
  then have "t oid = Some e \<longleftrightarrow> last_row reader oid e \<or> (\<nexists>e'. last_row reader oid e') \<and> last_row bundled oid e" for oid e
    unfolding t map_add_Some_iff o [symmetric] by auto
  then show ?thesis
    using f(1) parse_mib_lines_reads [OF f(2) [unfolded parse_mib_def]] unfolding skipped_line_def by blast
qed

definition sample_row :: "string \<Rightarrow> string" where
  "sample_row model = ''1.3'' @ [CHR 0x09] @ ''Nokia'' @ [CHR 0x09] @ model @ [CHR 0x09] @ ''SRL''"

definition sample_entry :: "string \<Rightarrow> MibEntry" where
  "sample_entry model = \<lparr>me_manufacturer = Some ''Nokia'', me_model = Some model, me_product_family = Some ''SRL''\<rparr>"

lemma parse_sample_rows:
  "parse_mib [Inr (sample_row ''A'')] = Inr [''1.3'' \<mapsto> sample_entry ''A'']"
  "parse_mib [Inr (sample_row ''B''), Inr (sample_row ''C'')] = Inr [''1.3'' \<mapsto> sample_entry ''C'']"
  by (simp_all add: parse_mib_def sample_row_def sample_entry_def parse_mib_row_def skipped_line_def trim_def is_whitespace_def
      is_dotted_decimal_def is_ascii_digit_def then_some_def)

theorem from_path_table_witness:
  "\<exists>t. from_path [Inr (sample_row ''A'')] (\<lambda>_. Some [Inr (sample_row ''B''), Inr (sample_row ''C'')]) ''f'' = Inr t \<and>
     t ''1.3'' = Some (sample_entry ''C'') \<and>
     last_row [Inr (sample_row ''B''), Inr (sample_row ''C'')] ''1.3'' (sample_entry ''C'')"
proof -
  let ?t = "[''1.3'' \<mapsto> sample_entry ''C'']"
  have t: "from_path [Inr (sample_row ''A'')] (\<lambda>_. Some [Inr (sample_row ''B''), Inr (sample_row ''C'')]) ''f'' = Inr ?t"
    by (simp add: from_path_def from_bundled_def parse_sample_rows)
  have row: "describes (sample_row ''C'') ''1.3'' (sample_entry ''C'')"
    unfolding parse_mib_row_describes [symmetric]
    by (simp add: sample_row_def sample_entry_def parse_mib_row_def trim_def is_whitespace_def
      is_dotted_decimal_def is_ascii_digit_def then_some_def)
  have "\<exists>e. last_row [Inr (sample_row ''B''), Inr (sample_row ''C'')] ''1.3'' e"
    unfolding ex_last_row using row by auto
  then have "last_row [Inr (sample_row ''B''), Inr (sample_row ''C'')] ''1.3'' (sample_entry ''C'')"
    using from_path_table [OF t] by (metis fun_upd_same option.inject)
  then show ?thesis using t by (intro exI [of _ ?t]) simp
qed

text \<open>C14: A row with an empty \<^verbatim>\<open>product_family\<close> column, which the format allows, is rejected: trimming the line
  before splitting it removes the tab that delimits the empty last column, and the row is then
  reported as having too few columns.\<close>

theorem empty_product_family_rejected:
  assumes "is_dotted_decimal oid"
    and "CHR 0x09 \<notin> set oid" "CHR 0x09 \<notin> set manufacturer" "CHR 0x09 \<notin> set model"
  shows "\<exists>k \<le> 3. parse_mib [Inr (oid @ [CHR 0x09] @ manufacturer @ [CHR 0x09] @ model @ [CHR 0x09])] =
    Inl (LineError 1 (BadColumnCount k))"
proof -
  let ?s = "oid @ [CHR 0x09] @ manufacturer @ [CHR 0x09] @ model"
  have row: "trim (?s @ [CHR 0x09]) = trim ?s" by (rule trim_snoc_whitespace) simp
  obtain c cs where c: "oid = c # cs" "is_ascii_digit c" using is_dotted_decimal_hd [OF assms(1)] by blast
  then have "\<not> is_whitespace c" by (auto simp: is_ascii_digit_def is_whitespace_def Let_def)
  then obtain r where r: "trim ?s = c # r" using trim_Cons_stop [of c] c(1) by auto
  have ns: "\<not> skipped_line (trim ?s)" using r c(2) by (auto simp: skipped_line_def is_ascii_digit_def)
  have "length (filter ((=) (CHR 0x09)) (trim ?s)) \<le> length (filter ((=) (CHR 0x09)) ?s)" by (rule filter_trim_le)
  also have "\<dots> = 2" using assms(2-4) by (auto simp: filter_empty_conv)
  finally have "length (split_on (CHR 0x09) (trim ?s)) \<le> 3" by (simp add: length_split_on)
  then show ?thesis using ns row by (auto simp: parse_mib_def parse_mib_row_def Let_def)
qed

theorem empty_product_family_rejected_witness:
  "\<exists>k \<le> 3. parse_mib [Inr (''1.3.6.1'' @ [CHR 0x09] @ ''Nokia'' @ [CHR 0x09] @ ''IXR'' @ [CHR 0x09])] =
    Inl (LineError 1 (BadColumnCount k))"
  by (rule empty_product_family_rejected) (simp_all add: is_dotted_decimal_def is_ascii_digit_def)

end
