(* ===== verification/Fuser_Stack.thy ===== *)
theory Fuser_Stack
  imports Fuser_Mib Identity_Properties
begin

text \<open>
  Fuser configuration and composition: \<^verbatim>\<open>FuserConfig\<close>, its validation and \<^verbatim>\<open>create_fuser\<close>
  (\<^verbatim>\<open>fuser/mod.rs\<close>), the selection of fusers by name (\<^verbatim>\<open>fuser/selection.rs\<close>), and the dynamic dispatch
  of the \<^verbatim>\<open>Fuser\<close> trait: a boxed fuser is a value of \<^verbatim>\<open>AnyFuser\<close>. The bundled MIB table and the file
  system are the parameters \<^verbatim>\<open>bundled\<close> and \<^verbatim>\<open>open_file\<close>; whether the build has the MIB feature is
  the parameter \<^verbatim>\<open>mib\<close>. An error of \<^verbatim>\<open>ingest\<close> or \<^verbatim>\<open>finish\<close> ends the run, so the state after it is not kept.

  The \<^verbatim>\<open>Fuser\<close> contract is the locale \<^verbatim>\<open>streaming_fuser\<close>; what a driver of a fuser may rely on is
  proved there once, and every validated configuration is shown to satisfy it.
\<close>

section \<open>Configuration\<close>

datatype FuserConfig =
    ConfigDirect "bool option" "f64 option" "f64 option"
  | ConfigMibEnrichment "string option" FuserConfig
  | ConfigIdentity IdentityHints FuserConfig

fun subtree_contains_identity :: "FuserConfig \<Rightarrow> bool" where
  "subtree_contains_identity (ConfigDirect _ _ _) = False"
| "subtree_contains_identity (ConfigMibEnrichment _ inner) = subtree_contains_identity inner"
| "subtree_contains_identity (ConfigIdentity _ _) = True"

definition reject_nested_identity :: "FuserConfig \<Rightarrow> ConfigError + unit" where
  "reject_nested_identity inner =
     (if subtree_contains_identity inner
      then Inl (InvalidValue ''identity fuser must be the outermost fuser; it cannot be nested inside another fuser'')
      else Inr ())"

definition validate_direct :: "f64 option \<Rightarrow> f64 option \<Rightarrow> ConfigError + unit" where
  "validate_direct confidence_baseline confidence_per_signal =
     (if case confidence_baseline of
           Some v \<Rightarrow> \<not> is_finite v \<or> \<not> (fle (Fin 0) v \<and> fle v (Fin 1)) | None \<Rightarrow> False
      then Inl (InvalidValue ''confidence_baseline must be finite and in [0.0, 1.0]'')
      else if case confidence_per_signal of
           Some v \<Rightarrow> \<not> is_finite v \<or> flt v (Fin 0) | None \<Rightarrow> False
      then Inl (InvalidValue ''confidence_per_signal must be finite and non-negative'')
      else Inr ())"

definition invalid_group :: "IdentityHints \<Rightarrow> VrrpGroup option" where
  "invalid_group hints = find (\<lambda>g. parse_mac_prefix (vg_virtual_mac g) = None) (ih_vrrp_groups hints)"

fun validate :: "FuserConfig \<Rightarrow> ConfigError + unit" where
  "validate (ConfigDirect _ baseline per_signal) = validate_direct baseline per_signal"
| "validate (ConfigMibEnrichment _ inner) =
     (case reject_nested_identity inner of Inl e \<Rightarrow> Inl e | Inr _ \<Rightarrow> validate inner)"
| "validate (ConfigIdentity hints inner) =
     (case reject_nested_identity inner of
        Inl e \<Rightarrow> Inl e
      | Inr _ \<Rightarrow>
          (case validate inner of
             Inl e \<Rightarrow> Inl e
           | Inr _ \<Rightarrow>
               (case invalid_group hints of
                  Some g \<Rightarrow> Inl (invalid_virtual_mac (vg_virtual_mac g))
                | None \<Rightarrow> Inr ())))"

section \<open>Boxed fusers\<close>

datatype AnyFuser =
    Direct DirectFuser
  | MibEnrichment AnyFuser MibTable
  | Identity AnyFuser IdentityHints "DeviceRecord list"

fun ingest :: "AnyFuser \<Rightarrow> ProbeOutcome list \<Rightarrow> (DeviceRecord list \<times> AnyFuser) result" where
  "ingest (Direct f) outcomes =
     (case direct_ingest f outcomes of Inl e \<Rightarrow> Inl e | Inr records \<Rightarrow> Inr (records, Direct f))"
| "ingest (MibEnrichment inner table) outcomes =
     (case ingest inner outcomes of
        Inl e \<Rightarrow> Inl e
      | Inr (records, inner') \<Rightarrow> Inr (map (enrich table) records, MibEnrichment inner' table))"
| "ingest (Identity inner hints buffer) outcomes =
     (case ingest inner outcomes of
        Inl e \<Rightarrow> Inl e
      | Inr (records, inner') \<Rightarrow> Inr ([], Identity inner' hints (buffer @ records)))"

fun finish ::
  "((nat \<times> nat) list \<Rightarrow> (nat \<times> nat) list) \<Rightarrow> AnyFuser \<Rightarrow> (DeviceRecord list \<times> AnyFuser) result option" where
  "finish visit (Direct f) =
     Some (case direct_finish f of Inl e \<Rightarrow> Inl e | Inr records \<Rightarrow> Inr (records, Direct f))"
| "finish visit (MibEnrichment inner table) =
     (case finish visit inner of
        None \<Rightarrow> None
      | Some (Inl e) \<Rightarrow> Some (Inl e)
      | Some (Inr (records, inner')) \<Rightarrow> Some (Inr (map (enrich table) records, MibEnrichment inner' table)))"
| "finish visit (Identity inner hints buffer) =
     (case finish visit inner of
        None \<Rightarrow> None
      | Some (Inl e) \<Rightarrow> Some (Inl e)
      | Some (Inr (tail, inner')) \<Rightarrow>
          map_option (\<lambda>out. Inr (out, Identity inner' hints [])) (correlate visit hints (buffer @ tail)))"

definition identity_fuser_new :: "AnyFuser \<Rightarrow> IdentityHints \<Rightarrow> AnyFuser result" where
  "identity_fuser_new inner hints =
     (case invalid_group hints of
        Some g \<Rightarrow> Inl (EConfig (invalid_virtual_mac (vg_virtual_mac g)))
      | None \<Rightarrow> Inr (Identity inner hints []))"

definition direct_from_config :: "bool option \<Rightarrow> f64 option \<Rightarrow> f64 option \<Rightarrow> DirectFuser" where
  "direct_from_config include_unreachable baseline per_signal =
     (let f = direct_fuser_new;
          f = (case include_unreachable of Some v \<Rightarrow> f\<lparr>df_include_unreachable := v\<rparr> | None \<Rightarrow> f);
          f = (case baseline of Some v \<Rightarrow> f\<lparr>df_confidence_baseline := v\<rparr> | None \<Rightarrow> f)
      in (case per_signal of Some v \<Rightarrow> f\<lparr>df_confidence_per_signal := v\<rparr> | None \<Rightarrow> f))"

definition load_table :: "lines \<Rightarrow> (string \<Rightarrow> lines option) \<Rightarrow> string option \<Rightarrow> MibTable result" where
  "load_table bundled open_file data_path =
     (case data_path of
        Some path \<Rightarrow> if path \<noteq> [] then from_path bundled open_file path else from_bundled bundled
      | None \<Rightarrow> from_bundled bundled)"

fun create_fuser :: "lines \<Rightarrow> (string \<Rightarrow> lines option) \<Rightarrow> FuserConfig \<Rightarrow> AnyFuser result" where
  "create_fuser bundled open_file (ConfigDirect unreachable baseline per_signal) =
     (case validate (ConfigDirect unreachable baseline per_signal) of
        Inl e \<Rightarrow> Inl (EConfig e)
      | Inr _ \<Rightarrow> Inr (Direct (direct_from_config unreachable baseline per_signal)))"
| "create_fuser bundled open_file (ConfigMibEnrichment data_path inner) =
     (case validate (ConfigMibEnrichment data_path inner) of
        Inl e \<Rightarrow> Inl (EConfig e)
      | Inr _ \<Rightarrow>
          (case create_fuser bundled open_file inner of
             Inl e \<Rightarrow> Inl e
           | Inr inner_fuser \<Rightarrow>
               (case load_table bundled open_file data_path of
                  Inl e \<Rightarrow> Inl e
                | Inr table \<Rightarrow> Inr (MibEnrichment inner_fuser table))))"
| "create_fuser bundled open_file (ConfigIdentity hints inner) =
     (case validate (ConfigIdentity hints inner) of
        Inl e \<Rightarrow> Inl (EConfig e)
      | Inr _ \<Rightarrow>
          (case create_fuser bundled open_file inner of
             Inl e \<Rightarrow> Inl e
           | Inr inner_fuser \<Rightarrow> identity_fuser_new inner_fuser hints))"

section \<open>Driving a fuser\<close>

fun ingest_all ::
  "('s \<Rightarrow> ProbeOutcome list \<Rightarrow> (DeviceRecord list \<times> 's) result) \<Rightarrow> 's \<Rightarrow> ProbeOutcome list list \<Rightarrow>
   (DeviceRecord list \<times> 's) result" where
  "ingest_all ing f [] = Inr ([], f)"
| "ingest_all ing f (g # gs) =
     (case ing f g of
        Inl e \<Rightarrow> Inl e
      | Inr (records, f') \<Rightarrow>
          (case ingest_all ing f' gs of
             Inl e \<Rightarrow> Inl e
           | Inr (rest, f'') \<Rightarrow> Inr (records @ rest, f'')))"

definition drive_with ::
  "('s \<Rightarrow> ProbeOutcome list \<Rightarrow> (DeviceRecord list \<times> 's) result) \<Rightarrow>
   ('s \<Rightarrow> (DeviceRecord list \<times> 's) result option) \<Rightarrow> 's \<Rightarrow> ProbeOutcome list \<Rightarrow>
   DeviceRecord list result option" where
  "drive_with ing fin f outcomes =
     (case ingest_all ing f (group_outcomes_by_ip outcomes) of
        Inl e \<Rightarrow> Some (Inl e)
      | Inr (records, f') \<Rightarrow>
          (case fin f' of
             None \<Rightarrow> None
           | Some (Inl e) \<Rightarrow> Some (Inl e)
           | Some (Inr (tail, _)) \<Rightarrow> Some (Inr (records @ tail))))"

definition drive_fuser ::
  "((nat \<times> nat) list \<Rightarrow> (nat \<times> nat) list) \<Rightarrow> AnyFuser \<Rightarrow> ProbeOutcome list \<Rightarrow> DeviceRecord list result option" where
  "drive_fuser visit f outcomes = drive_with ingest (finish visit) f outcomes"

section \<open>Selection by name\<close>

datatype FuserKind = KindDirect | KindMibEnrichment | KindIdentity

definition fuser_kind_all :: "FuserKind list" where
  "fuser_kind_all = [KindDirect, KindMibEnrichment, KindIdentity]"

fun fuser_kind_label :: "FuserKind \<Rightarrow> string" where
  "fuser_kind_label KindDirect = ''direct''"
| "fuser_kind_label KindMibEnrichment = ''mib_enrichment''"
| "fuser_kind_label KindIdentity = ''identity''"

fun nesting_rank :: "FuserKind \<Rightarrow> nat" where
  "nesting_rank KindDirect = 0"
| "nesting_rank KindMibEnrichment = 1"
| "nesting_rank KindIdentity = 2"

fun is_compiled_in :: "bool \<Rightarrow> FuserKind \<Rightarrow> bool" where
  "is_compiled_in mib KindDirect = True"
| "is_compiled_in mib KindIdentity = True"
| "is_compiled_in mib KindMibEnrichment = mib"

fun required_feature :: "FuserKind \<Rightarrow> string option" where
  "required_feature KindDirect = None"
| "required_feature KindIdentity = None"
| "required_feature KindMibEnrichment = Some ''mib_enrichment''"

definition available_fuser_kinds :: "bool \<Rightarrow> FuserKind list" where
  "available_fuser_kinds mib = filter (is_compiled_in mib) fuser_kind_all"

record FuserSelectionOptions =
  fo_include_unreachable :: "bool option"
  fo_confidence_baseline :: "f64 option"
  fo_confidence_per_signal :: "f64 option"

definition base_config :: "FuserSelectionOptions \<Rightarrow> FuserConfig" where
  "base_config options =
     ConfigDirect (fo_include_unreachable options) (fo_confidence_baseline options) (fo_confidence_per_signal options)"

definition default_fuser_config :: FuserConfig where
  "default_fuser_config =
     base_config \<lparr>fo_include_unreachable = None, fo_confidence_baseline = None, fo_confidence_per_signal = None\<rparr>"

definition unknown_fuser_kind :: "bool \<Rightarrow> string \<Rightarrow> RastreoError" where
  "unknown_fuser_kind mib name =
     EConfig (UnknownFuserKind name (join '', '' (map fuser_kind_label (available_fuser_kinds mib))))"

fun parse_fuser_loop :: "bool \<Rightarrow> FuserKind list \<Rightarrow> string list \<Rightarrow> FuserKind list result" where
  "parse_fuser_loop mib kinds [] = Inr kinds"
| "parse_fuser_loop mib kinds (value # vs) =
     (case from_label fuser_kind_label fuser_kind_all (trim value) of
        Some kind \<Rightarrow> parse_fuser_loop mib (push_new kinds kind) vs
      | None \<Rightarrow> Inl (unknown_fuser_kind mib (trim value)))"

definition parse_fuser_selection :: "bool \<Rightarrow> string list \<Rightarrow> FuserKind list result" where
  "parse_fuser_selection mib vals = parse_fuser_loop mib [] vals"

definition fuser_not_compiled :: "FuserKind \<Rightarrow> RastreoError" where
  "fuser_not_compiled kind =
     EConfig (FuserKindNotCompiled (fuser_kind_label kind)
       (case required_feature kind of Some feature \<Rightarrow> feature | None \<Rightarrow> fuser_kind_label kind))"

fun compose :: "bool \<Rightarrow> FuserKind \<Rightarrow> FuserConfig \<Rightarrow> FuserConfig result" where
  "compose mib KindDirect inner = Inr inner"
| "compose mib KindMibEnrichment inner =
     (if mib then Inr (ConfigMibEnrichment None inner) else Inl (fuser_not_compiled KindMibEnrichment))"
| "compose mib KindIdentity inner = Inr (ConfigIdentity identity_hints_default inner)"

fun compose_all :: "bool \<Rightarrow> FuserConfig \<Rightarrow> FuserKind list \<Rightarrow> FuserConfig result" where
  "compose_all mib config [] = Inr config"
| "compose_all mib config (kind # ks) =
     (case compose mib kind config of Inl e \<Rightarrow> Inl e | Inr config' \<Rightarrow> compose_all mib config' ks)"

definition expand_fuser_selection :: "bool \<Rightarrow> FuserKind list \<Rightarrow> FuserSelectionOptions \<Rightarrow> FuserConfig result" where
  "expand_fuser_selection mib kinds options =
     (let ordered = sort_key nesting_rank (extend_new [] kinds)
      in compose_all mib (base_config options) ordered)"

section \<open>The fuser contract\<close>

definition signals_of :: "DeviceRecord list \<Rightarrow> Signal set" where
  "signals_of records = (\<Union>r \<in> set records. set (dr_signals r))"

definition outcome_signals :: "ProbeOutcome list \<Rightarrow> Signal set" where
  "outcome_signals outcomes = (\<Union>o' \<in> set outcomes. set (po_signals o'))"

lemma signals_of_simps [simp]:
  "signals_of [] = {}" "signals_of (r # rs) = set (dr_signals r) \<union> signals_of rs"
  "signals_of (rs @ rs') = signals_of rs \<union> signals_of rs'"
  by (auto simp: signals_of_def)

text \<open>A fuser in a sound state turns every target into well-formed records without failing, reports the
  signals of exactly the targets it is meant to report, at once or by the end, and holds back at
  most one record per target. \<^verbatim>\<open>held\<close> counts the records held back, \<^verbatim>\<open>pending\<close> is the set of their signals.\<close>

locale streaming_fuser =
  fixes ing :: "'s \<Rightarrow> ProbeOutcome list \<Rightarrow> (DeviceRecord list \<times> 's) result"
    and fin :: "'s \<Rightarrow> (DeviceRecord list \<times> 's) result option"
    and sound :: "'s \<Rightarrow> bool"
    and held :: "'s \<Rightarrow> nat"
    and pending :: "'s \<Rightarrow> Signal set"
    and reports :: "'s \<Rightarrow> ProbeOutcome list \<Rightarrow> bool"
  assumes ing_ok: "sound s \<Longrightarrow> length (fused_signals os) \<le> 2 ^ 64 \<Longrightarrow>
      \<exists>rs s'. ing s os = Inr (rs, s') \<and> sound s' \<and> reports s' = reports s \<and> (\<forall>r \<in> set rs. record_ok r) \<and>
        length rs + held s' \<le> Suc (held s) \<and>
        signals_of rs \<union> pending s' = pending s \<union> (if reports s os then outcome_signals os else {})"
    and fin_ok: "sound s \<Longrightarrow> held s \<le> 2 ^ 64 \<Longrightarrow>
      \<exists>rs s'. fin s = Some (Inr (rs, s')) \<and> sound s' \<and> held s' = 0 \<and> pending s' = {} \<and>
        (\<forall>r \<in> set rs. record_ok r) \<and> length rs \<le> held s \<and> signals_of rs = pending s"
begin

lemma ingest_all_ok:
  assumes "sound s" "\<forall>g \<in> set gs. length (fused_signals g) \<le> 2 ^ 64"
  shows "\<exists>rs s'. ingest_all ing s gs = Inr (rs, s') \<and> sound s' \<and> (\<forall>r \<in> set rs. record_ok r) \<and>
    length rs + held s' \<le> length gs + held s \<and>
    signals_of rs \<union> pending s' = pending s \<union> (\<Union>g \<in> {g \<in> set gs. reports s g}. outcome_signals g)"
  using assms
proof (induction gs arbitrary: s)
  case (Cons g gs)
  obtain rs s1 where 1: "ing s g = Inr (rs, s1)" "sound s1" "reports s1 = reports s" "\<forall>r \<in> set rs. record_ok r"
    "length rs + held s1 \<le> Suc (held s)"
    "signals_of rs \<union> pending s1 = pending s \<union> (if reports s g then outcome_signals g else {})"
    using ing_ok [of s g] Cons.prems by auto
  obtain rs' s2 where 2: "ingest_all ing s1 gs = Inr (rs', s2)" "sound s2" "\<forall>r \<in> set rs'. record_ok r"
    "length rs' + held s2 \<le> length gs + held s1"
    "signals_of rs' \<union> pending s2 = pending s1 \<union> (\<Union>g \<in> {g \<in> set gs. reports s1 g}. outcome_signals g)"
    using Cons.IH [OF 1(2)] Cons.prems(2) by auto
  have "signals_of (rs @ rs') \<union> pending s2 = signals_of rs \<union> (pending s1 \<union> (\<Union>g \<in> {g \<in> set gs. reports s g}. outcome_signals g))"
    using 2(5) 1(3) by (simp add: Un_assoc)
  also have "\<dots> = pending s \<union> (if reports s g then outcome_signals g else {}) \<union> (\<Union>g \<in> {g \<in> set gs. reports s g}. outcome_signals g)"
    using 1(6) by (simp add: Un_assoc [symmetric])
  also have "\<dots> = pending s \<union> (\<Union>g' \<in> {g' \<in> set (g # gs). reports s g'}. outcome_signals g')" by auto
  finally show ?case using 1 2 by auto
qed auto

lemma drive_ok:
  assumes "sound s" "held s = 0" "pending s = {}"
    and "\<forall>g \<in> set (target_groups os). length (fused_signals g) \<le> 2 ^ 64" "length (target_groups os) \<le> 2 ^ 64"
  shows "\<exists>rs. drive_with ing fin s os = Some (Inr rs) \<and> (\<forall>r \<in> set rs. record_ok r) \<and>
    length rs \<le> length (target_groups os) \<and>
    signals_of rs = (\<Union>g \<in> {g \<in> set (target_groups os). reports s g}. outcome_signals g)"
proof -
  obtain rs s' where 1: "ingest_all ing s (target_groups os) = Inr (rs, s')" "sound s'" "\<forall>r \<in> set rs. record_ok r"
    "length rs + held s' \<le> length (target_groups os)"
    "signals_of rs \<union> pending s' = (\<Union>g \<in> {g \<in> set (target_groups os). reports s g}. outcome_signals g)"
    using ingest_all_ok [OF assms(1,4)] assms(2,3) by auto
  obtain rs' s2 where 2: "fin s' = Some (Inr (rs', s2))" "\<forall>r \<in> set rs'. record_ok r" "length rs' \<le> held s'"
    "signals_of rs' = pending s'"
    using fin_ok [OF 1(2)] 1(4) assms(5) by force
  show ?thesis using 1 2 by (auto simp: drive_with_def group_outcomes_by_ip_groups)
qed

end

section \<open>Every boxed fuser keeps it\<close>

primrec fuser_sound :: "AnyFuser \<Rightarrow> bool" where
  "fuser_sound (Direct f) = direct_valid f"
| "fuser_sound (MibEnrichment inner _) = fuser_sound inner"
| "fuser_sound (Identity inner _ buffer) = (fuser_sound inner \<and> (\<forall>r \<in> set buffer. record_ok r))"

primrec fuser_held :: "AnyFuser \<Rightarrow> nat" where
  "fuser_held (Direct _) = 0"
| "fuser_held (MibEnrichment inner _) = fuser_held inner"
| "fuser_held (Identity inner _ buffer) = fuser_held inner + length buffer"

primrec fuser_pending :: "AnyFuser \<Rightarrow> Signal set" where
  "fuser_pending (Direct _) = {}"
| "fuser_pending (MibEnrichment inner _) = fuser_pending inner"
| "fuser_pending (Identity inner _ buffer) = fuser_pending inner \<union> signals_of buffer"

primrec fuser_reports :: "AnyFuser \<Rightarrow> ProbeOutcome list \<Rightarrow> bool" where
  "fuser_reports (Direct f) outcomes = ((\<exists>o' \<in> set outcomes. po_reachable o') \<or> df_include_unreachable f)"
| "fuser_reports (MibEnrichment inner _) outcomes = fuser_reports inner outcomes"
| "fuser_reports (Identity inner _ _) outcomes = fuser_reports inner outcomes"

lemma direct_ingest_ok:
  assumes "direct_valid f" "length (fused_signals os) \<le> 2 ^ 64"
  shows "\<exists>rs. direct_ingest f os = Inr rs \<and> (\<forall>r \<in> set rs. record_ok r) \<and> length rs \<le> 1 \<and>
    signals_of rs = (if (\<exists>o' \<in> set os. po_reachable o') \<or> df_include_unreachable f then outcome_signals os else {})"
proof -
  obtain r where r: "fuse_one f os = Inr r"
    "r = None \<longleftrightarrow> os = [] \<or> \<not> (\<exists>o' \<in> set os. po_reachable o') \<and> \<not> df_include_unreachable f"
    "\<forall>rec. r = Some rec \<longrightarrow> record_ok rec \<and> dr_signals rec = fused_signals os"
    using fuse_one_ok [OF assms] by auto
  show ?thesis
  proof (cases r)
    case None
    then have "os = [] \<or> \<not> (\<exists>o' \<in> set os. po_reachable o') \<and> \<not> df_include_unreachable f" using r(2) by simp
    then have "{} = (if (\<exists>o' \<in> set os. po_reachable o') \<or> df_include_unreachable f then outcome_signals os else {})"
      by (auto simp: outcome_signals_def)
    then show ?thesis using r(1) None by (simp add: direct_ingest_def)
  next
    case (Some rec)
    then have "(\<exists>o' \<in> set os. po_reachable o') \<or> df_include_unreachable f" using r(2) by auto
    then show ?thesis using r(1,3) Some by (simp add: direct_ingest_def set_fused_signals outcome_signals_def)
  qed
qed

lemma signals_of_enrich [simp]: "signals_of (map (enrich t) rs) = signals_of rs"
  by (simp add: signals_of_def)

lemma fuser_reports_wrappers [simp]:
  "fuser_reports (MibEnrichment inner t) = fuser_reports inner"
  "fuser_reports (Identity inner h b) = fuser_reports inner"
  by (simp_all add: fun_eq_iff)

definition ingested :: "AnyFuser \<Rightarrow> ProbeOutcome list \<Rightarrow> DeviceRecord list \<Rightarrow> AnyFuser \<Rightarrow> bool" where
  "ingested f os rs f' \<longleftrightarrow> fuser_sound f' \<and> fuser_reports f' = fuser_reports f \<and>
     (\<forall>r \<in> set rs. record_ok r) \<and> length rs + fuser_held f' \<le> Suc (fuser_held f) \<and>
     signals_of rs \<union> fuser_pending f' = fuser_pending f \<union> (if fuser_reports f os then outcome_signals os else {})"

lemma ingested_enrich:
  "ingested f os rs f' \<Longrightarrow> ingested (MibEnrichment f t) os (map (enrich t) rs) (MibEnrichment f' t)"
  unfolding ingested_def by simp

lemma ingested_hold:
  assumes "ingested f os rs f'" "\<forall>r \<in> set buffer. record_ok r"
  shows "ingested (Identity f h buffer) os [] (Identity f' h (buffer @ rs))"
proof -
  have "fuser_pending f' \<union> signals_of (buffer @ rs) = signals_of buffer \<union> (signals_of rs \<union> fuser_pending f')" by auto
  also have "\<dots> = fuser_pending f \<union> signals_of buffer \<union> (if fuser_reports f os then outcome_signals os else {})"
    using assms(1) unfolding ingested_def by (simp only:) blast
  finally show ?thesis using assms unfolding ingested_def by (simp add: ball_Un)
qed

lemma ingest_ok:
  assumes "fuser_sound f" "length (fused_signals os) \<le> 2 ^ 64"
  shows "\<exists>rs f'. ingest f os = Inr (rs, f') \<and> ingested f os rs f'"
  using assms(1)
proof (induction f)
  case (Direct f)
  then have "direct_valid f" by simp
  then obtain rs where "direct_ingest f os = Inr rs" "\<forall>r \<in> set rs. record_ok r" "length rs \<le> 1"
    "signals_of rs = (if fuser_reports (Direct f) os then outcome_signals os else {})"
    using direct_ingest_ok [OF _ assms(2)] unfolding fuser_reports.simps by blast
  then show ?case using \<open>direct_valid f\<close> by (simp add: ingested_def del: fuser_reports.simps)
next
  case (MibEnrichment inner table)
  then obtain rs f' where "ingest inner os = Inr (rs, f')" "ingested inner os rs f'" by auto
  then show ?case using ingested_enrich by simp
next
  case (Identity inner hints buffer)
  then obtain rs f' where "ingest inner os = Inr (rs, f')" "ingested inner os rs f'" by auto
  then show ?case using ingested_hold Identity.prems by simp
qed

text \<open>Correlation keeps records well formed and emits at most as many as it was given.\<close>

lemma group_result_ok:
  assumes "group_result h rs g r" "g \<noteq> []" "set g \<subseteq> {..<length rs}" "\<forall>r \<in> set rs. record_ok r"
  shows "record_ok r"
proof (cases "length g = 1")
  case True
  then obtain i where g: "g = [i]" by (cases g) auto
  then have "record_ok (rs ! i)" using assms(3,4) by simp
  moreover have "passed_on h rs i r" using assms(1) g by (simp add: group_result_def)
  ultimately show ?thesis using passed_on_fields [of h rs i r] by (simp add: record_ok_def valid_confidence_def)
next
  case False
  then have f: "fuses (map ((!) rs) g) r" using assms(1) by (simp add: group_result_def)
  then have "valid_confidence r" "distinct (dr_signals r)" "distinct (dr_probe_kinds r)"
    unfolding fuses_def by simp_all
  moreover obtain i where "i \<in> set g" "dr_identity_key r = dr_identity_key (rs ! i)"
    using fuses_key [OF f] by auto
  then have "identity_key_as_str (dr_identity_key r) \<noteq> []" using assms(3,4) by (auto simp: record_ok_def)
  ultimately show ?thesis by (simp add: record_ok_def)
qed

lemma classes_length:
  assumes "classes n R gs"
  shows "length gs \<le> n"
proof -
  have "set (map hd gs) \<subseteq> {..<n}" using assms unfolding classes_def by (auto dest!: hd_in_set)
  then have "card (set (map hd gs)) \<le> card {..<n}" by (intro card_mono) simp_all
  moreover have "distinct (map hd gs)" using assms unfolding classes_def by (simp add: strict_sorted_iff)
  ultimately show ?thesis using distinct_card [of "map hd gs"] by simp
qed

lemma correlate_records_ok:
  assumes "permutes visit" "length rs \<le> 2 ^ 64" "\<forall>r \<in> set rs. record_ok r"
  shows "\<exists>out. correlate visit h rs = Some out \<and> (\<forall>r \<in> set out. record_ok r) \<and> length out \<le> length rs \<and>
    signals_of out = signals_of rs"
proof -
  have "\<forall>r \<in> set rs. valid_confidence r" using assms(3) by (simp add: record_ok_def)
  then obtain out where out: "correlate visit h rs = Some out" "correlates h rs out"
    using correlate_correlates [OF assms(1,2)] by blast
  obtain gs where gs: "classes (length rs) (same_device h rs) gs" "length out = length gs"
    "\<And>k. k < length gs \<Longrightarrow> group_result h rs (gs ! k) (out ! k)"
    by (rule correlates_groups [OF out(2)]) (rule that; blast)
  have "gs ! k \<noteq> []" "set (gs ! k) \<subseteq> {..<length rs}" if "k < length gs" for k
    using gs(1) nth_mem [OF that] unfolding classes_def by (elim conjE; blast)+
  then have "record_ok (out ! k)" if "k < length gs" for k
    using group_result_ok [OF gs(3) [OF that]] that assms(3) by blast
  then have "\<forall>r \<in> set out. record_ok r" using gs(2) by (auto simp: in_set_conv_nth)
  then show ?thesis
    using out(1) classes_length [OF gs(1)] gs(2) correlates_conserves(1) [OF out(2)]
    by (simp add: signals_of_def)
qed

lemma finish_ok:
  assumes "permutes visit" "fuser_sound f" "fuser_held f \<le> 2 ^ 64"
  shows "\<exists>rs f'. finish visit f = Some (Inr (rs, f')) \<and> fuser_sound f' \<and> fuser_held f' = 0 \<and>
    fuser_pending f' = {} \<and> (\<forall>r \<in> set rs. record_ok r) \<and> length rs \<le> fuser_held f \<and> signals_of rs = fuser_pending f"
  using assms(2,3)
proof (induction f)
  case (Direct f)
  then show ?case by (simp add: direct_finish_def)
next
  case (MibEnrichment inner table)
  then show ?case by auto
next
  case (Identity inner hints buffer)
  then obtain rs f' where f': "finish visit inner = Some (Inr (rs, f'))" "fuser_sound f'" "fuser_held f' = 0"
    "fuser_pending f' = {}" "\<forall>r \<in> set rs. record_ok r" "length rs \<le> fuser_held inner" "signals_of rs = fuser_pending inner"
    by auto
  have "\<forall>r \<in> set (buffer @ rs). record_ok r" "length (buffer @ rs) \<le> 2 ^ 64"
    using f'(5,6) Identity.prems by auto
  then obtain out where "correlate visit hints (buffer @ rs) = Some out" "\<forall>r \<in> set out. record_ok r"
    "length out \<le> length (buffer @ rs)" "signals_of out = signals_of (buffer @ rs)"
    using correlate_records_ok [OF assms(1)] by blast
  then show ?case using f' by (auto simp: Un_commute)
qed

interpretation stack: streaming_fuser ingest "finish visit" "\<lambda>f. permutes visit \<and> fuser_sound f"
  fuser_held fuser_pending fuser_reports for visit
proof
  show "\<exists>rs f'. ingest f os = Inr (rs, f') \<and> (permutes visit \<and> fuser_sound f') \<and> fuser_reports f' = fuser_reports f \<and>
      (\<forall>r \<in> set rs. record_ok r) \<and> length rs + fuser_held f' \<le> Suc (fuser_held f) \<and>
      signals_of rs \<union> fuser_pending f' = fuser_pending f \<union> (if fuser_reports f os then outcome_signals os else {})"
    if "permutes visit \<and> fuser_sound f" "length (fused_signals os) \<le> 2 ^ 64" for f os
    using ingest_ok [of f os] that unfolding ingested_def by blast
  show "\<exists>rs f'. finish visit f = Some (Inr (rs, f')) \<and> (permutes visit \<and> fuser_sound f') \<and> fuser_held f' = 0 \<and>
      fuser_pending f' = {} \<and> (\<forall>r \<in> set rs. record_ok r) \<and> length rs \<le> fuser_held f \<and> signals_of rs = fuser_pending f"
    if "permutes visit \<and> fuser_sound f" "fuser_held f \<le> 2 ^ 64" for f
    using finish_ok [of visit f] that by blast
qed

section \<open>Validated configurations\<close>

primrec config_unreachable :: "FuserConfig \<Rightarrow> bool" where
  "config_unreachable (ConfigDirect u _ _) = (u = Some True)"
| "config_unreachable (ConfigMibEnrichment _ inner) = config_unreachable inner"
| "config_unreachable (ConfigIdentity _ inner) = config_unreachable inner"

primrec knobs_valid :: "FuserConfig \<Rightarrow> bool" where
  "knobs_valid (ConfigDirect _ b p) = ((\<forall>v. b = Some v \<longrightarrow> (\<exists>q. v = Fin q \<and> 0 \<le> q \<and> q \<le> 1)) \<and>
     (\<forall>v. p = Some v \<longrightarrow> (\<exists>q. v = Fin q \<and> 0 \<le> q)))"
| "knobs_valid (ConfigMibEnrichment _ inner) = knobs_valid inner"
| "knobs_valid (ConfigIdentity hints inner) =
     ((\<forall>g \<in> set (ih_vrrp_groups hints). parse_mac_prefix (vg_virtual_mac g) \<noteq> None) \<and> knobs_valid inner)"

primrec identity_outermost :: "FuserConfig \<Rightarrow> bool" where
  "identity_outermost (ConfigDirect _ _ _) = True"
| "identity_outermost (ConfigMibEnrichment _ inner) = (\<not> subtree_contains_identity inner)"
| "identity_outermost (ConfigIdentity _ inner) = (\<not> subtree_contains_identity inner)"

primrec tables_load :: "lines \<Rightarrow> (string \<Rightarrow> lines option) \<Rightarrow> FuserConfig \<Rightarrow> bool" where
  "tables_load bundled open_file (ConfigDirect _ _ _) = True"
| "tables_load bundled open_file (ConfigMibEnrichment path inner) = (tables_load bundled open_file inner \<and>
     (\<exists>t. load_table bundled open_file path = Inr t))"
| "tables_load bundled open_file (ConfigIdentity _ inner) = tables_load bundled open_file inner"

lemma validate_direct_iff:
  "validate_direct b p = Inr () \<longleftrightarrow> knobs_valid (ConfigDirect u b p)"
proof -
  have b: "(\<not> is_finite v \<or> \<not> (fle (Fin 0) v \<and> fle v (Fin 1))) \<longleftrightarrow> \<not> (\<exists>q. v = Fin q \<and> 0 \<le> q \<and> q \<le> 1)" for v
    by (cases v) auto
  have p: "(\<not> is_finite v \<or> flt v (Fin 0)) \<longleftrightarrow> \<not> (\<exists>q. v = Fin q \<and> 0 \<le> q)" for v
    by (cases v) auto
  show ?thesis unfolding validate_direct_def b p by (cases b; cases p) auto
qed

lemma invalid_group_None:
  "invalid_group hints = None \<longleftrightarrow> (\<forall>g \<in> set (ih_vrrp_groups hints). parse_mac_prefix (vg_virtual_mac g) \<noteq> None)"
  by (auto simp: invalid_group_def find_None_iff)

lemma no_identity_outermost: "\<not> subtree_contains_identity c \<Longrightarrow> identity_outermost c"
  by (cases c) simp_all

lemma validate_iff: "validate c = Inr () \<longleftrightarrow> identity_outermost c \<and> knobs_valid c"
proof (induction c)
  case (ConfigDirect u b p)
  then show ?case using validate_direct_iff [of b p u] by simp
next
  case (ConfigMibEnrichment path inner)
  then show ?case using no_identity_outermost [of inner]
    by (auto simp: reject_nested_identity_def)
next
  case (ConfigIdentity hints inner)
  then show ?case using no_identity_outermost [of inner] invalid_group_None [of hints]
    by (cases "validate inner"; cases "invalid_group hints") (auto simp: reject_nested_identity_def)
qed

lemma default_knobs_finite:
  "\<exists>q. DEFAULT_CONFIDENCE_BASELINE = Fin q \<and> 0 \<le> q \<and> q \<le> 1"
  "\<exists>q. DEFAULT_CONFIDENCE_PER_SIGNAL = Fin q \<and> 0 \<le> q"
  unfolding DEFAULT_CONFIDENCE_BASELINE_def DEFAULT_CONFIDENCE_PER_SIGNAL_def
    MERGE_CONFIDENCE_BONUS_def [symmetric] weight_constants
  by (rule exI [of _ "3602879701896397 / 36028797018963968"], simp)+

lemma direct_from_config_valid:
  assumes "knobs_valid (ConfigDirect u b p)"
  shows "direct_valid (direct_from_config u b p)" "df_include_unreachable (direct_from_config u b p) = (u = Some True)"
proof -
  show "direct_valid (direct_from_config u b p)"
    using assms default_knobs_finite
    by (cases u; cases b; cases p) (auto simp: direct_from_config_def direct_valid_def direct_fuser_new_def)
  show "df_include_unreachable (direct_from_config u b p) = (u = Some True)"
    by (cases u; cases b; cases p)
      (auto simp: direct_from_config_def direct_fuser_new_def DEFAULT_INCLUDE_UNREACHABLE_def)
qed

definition fresh :: "FuserConfig \<Rightarrow> AnyFuser \<Rightarrow> bool" where
  "fresh c f \<longleftrightarrow> fuser_sound f \<and> fuser_held f = 0 \<and> fuser_pending f = {} \<and>
     (\<forall>os. fuser_reports f os = ((\<exists>o' \<in> set os. po_reachable o') \<or> config_unreachable c))"

lemma create_fuser_fresh: "create_fuser bundled open_file c = Inr f \<Longrightarrow> fresh c f"
proof (induction c arbitrary: f)
  case (ConfigDirect u b p)
  then have "validate_direct b p = Inr ()" "f = Direct (direct_from_config u b p)"
    by (auto split: sum.splits)
  then show ?case using validate_direct_iff [of b p u] direct_from_config_valid [of u b p]
    by (simp add: fresh_def)
next
  case (ConfigMibEnrichment path inner)
  then show ?case by (auto simp: fresh_def split: sum.splits)
next
  case (ConfigIdentity hints inner)
  then show ?case by (auto simp: fresh_def identity_fuser_new_def split: sum.splits option.splits)
qed

lemma create_fuser_iff:
  "(\<exists>f. create_fuser bundled open_file c = Inr f) \<longleftrightarrow> validate c = Inr () \<and> tables_load bundled open_file c"
proof (induction c)
  case (ConfigDirect u b p)
  then show ?case by (auto split: sum.splits)
next
  case (ConfigMibEnrichment path inner)
  have "validate (ConfigMibEnrichment path inner) = Inr () \<Longrightarrow> validate inner = Inr ()"
    by (auto split: sum.splits)
  then show ?case using ConfigMibEnrichment
    by (cases "validate (ConfigMibEnrichment path inner)"; cases "create_fuser bundled open_file inner";
        cases "load_table bundled open_file path") (simp_all del: validate.simps)
next
  case (ConfigIdentity hints inner)
  have "validate (ConfigIdentity hints inner) = Inr () \<Longrightarrow> validate inner = Inr () \<and> invalid_group hints = None"
    by (auto split: sum.splits option.splits)
  then show ?case using ConfigIdentity
    by (cases "validate (ConfigIdentity hints inner)"; cases "create_fuser bundled open_file inner")
      (simp_all del: validate.simps add: identity_fuser_new_def)
qed

section \<open>Selections\<close>

lemma from_fuser_label [simp]: "from_label fuser_kind_label fuser_kind_all (fuser_kind_label k) = Some k"
  by (cases k) (simp_all add: from_label_def fuser_kind_all_def)

lemma trim_fuser_label [simp]: "trim (fuser_kind_label k) = fuser_kind_label k"
  by (cases k) (simp_all add: trim_def is_whitespace_def)

lemma from_fuser_label_None: "from_label fuser_kind_label fuser_kind_all s = None \<longleftrightarrow> s \<notin> range fuser_kind_label"
proof -
  have "k \<in> set fuser_kind_all" for k by (cases k) (simp_all add: fuser_kind_all_def)
  then show ?thesis by (auto simp: from_label_def find_None_iff)
qed

lemma parse_fuser_loop_prefix:
  "map trim vals = map fuser_kind_label kinds \<Longrightarrow>
   parse_fuser_loop mib ks (vals @ vs) = parse_fuser_loop mib (extend_new ks kinds) vs"
proof (induction vals arbitrary: kinds ks)
  case (Cons v vals)
  then obtain k kinds' where "kinds = k # kinds'" "trim v = fuser_kind_label k" "map trim vals = map fuser_kind_label kinds'"
    by (cases kinds) auto
  then show ?case using Cons.IH by simp
qed simp

text \<open>Pushing only new elements keeps the first occurrence of each.\<close>

lemma extend_new_remdups: "extend_new [] xs = rev (remdups (rev xs))"
  by (induction xs rule: rev_induct) (simp_all add: push_new_def)

lemma nesting_rank_inj [simp]: "nesting_rank k = nesting_rank l \<longleftrightarrow> k = l"
  by (cases k; cases l) simp_all

lemma sort_key_kinds:
  assumes "distinct ks"
  shows "sort_key nesting_rank ks = filter (\<lambda>k. k \<in> set ks) fuser_kind_all"
proof -
  have inj: "inj nesting_rank" by (rule injI) simp
  have all: "set fuser_kind_all = UNIV" using FuserKind.exhaust by (auto simp: fuser_kind_all_def)
  have "map nesting_rank (sort_key nesting_rank ks) = map nesting_rank (filter (\<lambda>k. k \<in> set ks) fuser_kind_all)"
  proof (rule sorted_distinct_set_unique)
    show "distinct (map nesting_rank (sort_key nesting_rank ks))"
      using assms inj by (simp add: distinct_map inj_on_def)
    show "sorted (map nesting_rank (filter (\<lambda>k. k \<in> set ks) fuser_kind_all))"
      by (rule sorted_filter) (simp add: fuser_kind_all_def)
    show "distinct (map nesting_rank (filter (\<lambda>k. k \<in> set ks) fuser_kind_all))"
      by (simp add: distinct_map inj_on_def fuser_kind_all_def)
  qed (auto simp: all)
  then show ?thesis using inj by (simp add: inj_map_eq_map)
qed

lemma expand_fuser_selection_cases:
  "expand_fuser_selection mib kinds options =
     (if KindMibEnrichment \<in> set kinds \<and> \<not> mib then Inl (fuser_not_compiled KindMibEnrichment)
      else let config = base_config options;
               config = if KindMibEnrichment \<in> set kinds then ConfigMibEnrichment None config else config
           in Inr (if KindIdentity \<in> set kinds then ConfigIdentity identity_hints_default config else config))"
  unfolding expand_fuser_selection_def Let_def sort_key_kinds [OF distinct_extend_new [THEN iffD2, OF distinct.simps(1) [THEN iffD2, OF TrueI]]]
  by (auto simp: fuser_kind_all_def)

section \<open>Properties\<close>

definition targets_of :: "ProbeOutcome list \<Rightarrow> IpAddr set" where
  "targets_of outcomes = po_target_ip ` set outcomes"

definition reported_outcomes :: "FuserConfig \<Rightarrow> ProbeOutcome list \<Rightarrow> ProbeOutcome set" where
  "reported_outcomes c outcomes = {o' \<in> set outcomes. config_unreachable c \<or>
     (\<exists>o'' \<in> set outcomes. po_target_ip o'' = po_target_ip o' \<and> po_reachable o'')}"

lemma length_target_groups: "length (target_groups os) = card (targets_of os)"
  using distinct_card [of "extend_new [] (map po_target_ip os)"] by (simp add: target_groups_def targets_of_def)

lemma set_target_groups: "set (target_groups os) = (\<lambda>ip. filter (\<lambda>o'. po_target_ip o' = ip) os) ` targets_of os"
  by (simp add: target_groups_def targets_of_def)

lemma reported_groups:
  "(\<Union>g \<in> {g \<in> set (target_groups os). (\<exists>o' \<in> set g. po_reachable o') \<or> config_unreachable c}. outcome_signals g) =
   (\<Union>o' \<in> reported_outcomes c os. set (po_signals o'))"
  unfolding set_target_groups targets_of_def outcome_signals_def reported_outcomes_def by fastforce

text \<open>C1: A fuser built from any configuration never fails and never panics on the outcomes of a scan,
  whatever the order of hash sets. It emits well-formed records (a confidence in the unit interval, no
  repeated signal or probe kind, a non-empty identity), at most one per target, and together they
  carry exactly the signals of the targets that answered, or of all targets when unreachable
  targets are included.\<close>

theorem created_fuser_ok:
  assumes "create_fuser bundled open_file c = Inr f" "permutes visit"
    and "card (targets_of os) \<le> 2 ^ 64" "\<forall>g \<in> set (target_groups os). length (fused_signals g) \<le> 2 ^ 64"
  shows "\<exists>rs. drive_fuser visit f os = Some (Inr rs) \<and> (\<forall>r \<in> set rs. record_ok r) \<and>
    length rs \<le> card (targets_of os) \<and> signals_of rs = (\<Union>o' \<in> reported_outcomes c os. set (po_signals o'))"
proof -
  have f: "fuser_sound f" "fuser_held f = 0" "fuser_pending f = {}"
    "\<And>g. fuser_reports f g = ((\<exists>o' \<in> set g. po_reachable o') \<or> config_unreachable c)"
    using create_fuser_fresh [OF assms(1)] by (simp_all add: fresh_def)
  show ?thesis
    using stack.drive_ok [of visit f os] assms(2-4) f
    unfolding drive_fuser_def length_target_groups f(4) reported_groups by simp
qed

definition sample_outcome :: ProbeOutcome where
  "sample_outcome = \<lparr>po_kind = Icmp, po_target_ip = V4 1, po_timestamp = 0, po_reachable = True,
     po_signals = [Mac ''a''], po_fault = None, po_lldp = None, po_gnmi_endpoint = None\<rparr>"

theorem created_fuser_ok_witness:
  "\<exists>f rs. create_fuser [] Map.empty (ConfigIdentity identity_hints_default (ConfigDirect None None None)) = Inr f \<and>
     drive_fuser rev f [sample_outcome] = Some (Inr rs) \<and> signals_of rs = {Mac ''a''}"
proof -
  let ?c = "ConfigIdentity identity_hints_default (ConfigDirect None None None)"
  have f: "create_fuser [] Map.empty ?c = Inr (Identity (Direct direct_fuser_new) identity_hints_default [])"
    by (simp add: reject_nested_identity_def validate_direct_def invalid_group_def identity_hints_default_def
        identity_fuser_new_def direct_from_config_def)
  have "card (targets_of [sample_outcome]) \<le> 2 ^ 64" by (simp add: targets_of_def)
  moreover have "\<forall>g \<in> set (target_groups [sample_outcome]). length (fused_signals g) \<le> 2 ^ 64"
    by (simp add: target_groups_def push_new_def fused_signals_def sample_outcome_def)
  moreover have "reported_outcomes ?c [sample_outcome] = {sample_outcome}"
    by (auto simp: reported_outcomes_def sample_outcome_def)
  moreover have "set (po_signals sample_outcome) = {Mac ''a''}" by (simp add: sample_outcome_def)
  ultimately show ?thesis
    using created_fuser_ok [OF f permutes_rev(1), of "[sample_outcome]"] f by (simp only: UN_insert UN_empty Un_empty_right) blast
qed

text \<open>C8: A fuser is created exactly when the configuration is acceptable and its tables load. Acceptable
  means the correlator is outermost and appears once, the base confidence is a finite number of the
  unit interval, the confidence per signal is finite and not negative, and every declared virtual
  MAC parses.\<close>

theorem create_fuser_accepts:
  "(\<exists>f. create_fuser bundled open_file c = Inr f) \<longleftrightarrow>
   identity_outermost c \<and> knobs_valid c \<and> tables_load bundled open_file c"
  unfolding create_fuser_iff validate_iff by blast

text \<open>C9: A selection of fusers by name means the same in any order and with any repetition. When the named
  fusers are compiled in, it expands to a configuration that correlates exactly when the correlator
  was named, and that validates whenever the base options are valid; naming a fuser that is not
  compiled in is an error that says so.\<close>

theorem expand_fuser_selection_ok:
  assumes "set kinds = set kinds'"
  shows "expand_fuser_selection mib kinds options = expand_fuser_selection mib kinds' options \<and>
    (if \<forall>k \<in> set kinds. is_compiled_in mib k
     then \<exists>c. expand_fuser_selection mib kinds options = Inr c \<and>
            (knobs_valid (base_config options) \<longrightarrow> validate c = Inr ()) \<and>
            subtree_contains_identity c = (KindIdentity \<in> set kinds)
     else expand_fuser_selection mib kinds options =
            Inl (EConfig (FuserKindNotCompiled ''mib_enrichment'' ''mib_enrichment'')))"
proof -
  have "is_compiled_in mib k \<longleftrightarrow> (k = KindMibEnrichment \<longrightarrow> mib)" for k by (cases k) simp_all
  then have "(\<forall>k \<in> set kinds. is_compiled_in mib k) \<longleftrightarrow> \<not> (KindMibEnrichment \<in> set kinds \<and> \<not> mib)" by simp
  moreover have "ih_vrrp_groups identity_hints_default = []" by (simp add: identity_hints_default_def)
  ultimately show ?thesis
    using assms unfolding expand_fuser_selection_cases validate_iff
    by (simp add: base_config_def fuser_not_compiled_def Let_def)
qed

theorem expand_fuser_selection_ok_witness:
  "expand_fuser_selection True [KindIdentity, KindDirect, KindIdentity]
     \<lparr>fo_include_unreachable = None, fo_confidence_baseline = None, fo_confidence_per_signal = None\<rparr> =
   expand_fuser_selection True [KindDirect, KindIdentity]
     \<lparr>fo_include_unreachable = None, fo_confidence_baseline = None, fo_confidence_per_signal = None\<rparr>"
  by (rule expand_fuser_selection_ok [THEN conjunct1]) auto

text \<open>C10: A selection is read name by name, each with its surrounding white space removed. When every name is
  a label, parsing gives the kinds the labels stand for, each at its first occurrence; otherwise the
  first name that is no label is reported, without its white space and with the kinds this build
  offers, whatever comes after it.\<close>

theorem parse_fuser_selection_roundtrip:
  assumes "map trim vals = map fuser_kind_label kinds"
  shows "parse_fuser_selection mib vals = Inr (rev (remdups (rev kinds))) \<and>
   (\<forall>v vs. trim v \<notin> range fuser_kind_label \<longrightarrow>
      parse_fuser_selection mib (vals @ v # vs) =
        Inl (EConfig (UnknownFuserKind (trim v)
          (if mib then ''direct, mib_enrichment, identity'' else ''direct, identity''))))"
proof -
  have "from_label fuser_kind_label fuser_kind_all (trim v) = None" if "trim v \<notin> range fuser_kind_label" for v
    using that by (simp add: from_fuser_label_None)
  then show ?thesis
    using parse_fuser_loop_prefix [OF assms, of mib "[]" "[]"] parse_fuser_loop_prefix [OF assms, of mib "[]"]
    by (simp add: parse_fuser_selection_def extend_new_remdups unknown_fuser_kind_def available_fuser_kinds_def
        fuser_kind_all_def)
qed

theorem parse_fuser_selection_roundtrip_witness:
  "parse_fuser_selection True ['' identity '', ''direct'', ''identity''] = Inr [KindIdentity, KindDirect] \<and>
   parse_fuser_selection False ['' identity '', ''direct'', ''identity'', '' bogus '', ''x''] =
     Inl (EConfig (UnknownFuserKind ''bogus'' ''direct, identity''))"
proof -
  let ?vals = "['' identity '', ''direct'', ''identity'']"
  have vals: "map trim ?vals = map fuser_kind_label [KindIdentity, KindDirect, KindIdentity]"
    by (simp add: trim_def is_whitespace_def)
  have bogus: "trim '' bogus '' = ''bogus''" by (simp add: trim_def is_whitespace_def)
  have "fuser_kind_label k \<noteq> ''bogus''" for k by (cases k) simp_all
  then have "trim '' bogus '' \<notin> range fuser_kind_label" unfolding bogus by (metis imageE)
  then show ?thesis
    using parse_fuser_selection_roundtrip [OF vals, of True] parse_fuser_selection_roundtrip [OF vals, of False]
    unfolding bogus by (simp add: bogus)
qed

end
