(* ===== verification/Topology.thy ===== *)
theory Topology
  imports Identity_Keys "HOL-Library.Char_ord" "HOL-Library.List_Lexorder" "HOL-Library.Product_Lexorder"
begin

text \<open>
  The topology assembler of \<^verbatim>\<open>topology/mod.rs\<close>: LLDP observations collected from probe outcomes become
  one link record per unordered pair of chassis identifiers. The order a hash map is drained in is
  the parameter \<^verbatim>\<open>visit\<close>; a missing endpoint (the \<^verbatim>\<open>expect\<close> of \<^verbatim>\<open>finalize_endpoint\<close>) is \<^verbatim>\<open>None\<close>. Rust orders
  strings by their UTF-8 bytes, which on the modelled characters is the lexicographic order of the
  code points.

  The lemmas flatten the nested loops into one pass over \<^verbatim>\<open>sightings\<close> and then read every field of a
  link off the sightings of its pair.
\<close>

section \<open>Definitions\<close>

definition CHASSIS_SUBTYPE_MAC :: u32 where "CHASSIS_SUBTYPE_MAC = 4"
definition CHASSIS_SUBTYPE_NETWORK_ADDRESS :: u32 where "CHASSIS_SUBTYPE_NETWORK_ADDRESS = 5"

record DeviceObservation =
  ob_local_ip :: IpAddr
  ob_local_chassis_id :: string
  ob_local_chassis_subtype :: u32
  ob_observed_at :: system_time
  ob_discovered_via :: string
  ob_neighbors :: "LldpNeighbor list"

record TopologyAssembler =
  ta_scan_metadata :: ScanMetadata
  ta_observations :: "DeviceObservation list"
  ta_mac_index :: "string \<rightharpoonup> string"
  ta_sys_name_index :: "string \<rightharpoonup> string"
  ta_addr_index :: "IpAddr \<rightharpoonup> string"

record EndpointInfo =
  ei_chassis_id :: string
  ei_subtype :: u32
  ei_port :: "string option"
  ei_port_authoritative :: bool
  ei_sys_name :: "string option"

record EndpointObservation =
  eo_chassis_norm :: string
  eo_chassis_id :: string
  eo_subtype :: u32
  eo_port :: "string option"
  eo_port_authoritative :: bool
  eo_sys_name :: "string option"

record Edge =
  ed_observed_at :: system_time
  ed_sources :: "string set"
  ed_endpoints :: "string \<rightharpoonup> EndpointInfo"

definition topology_new :: "ScanMetadata \<Rightarrow> TopologyAssembler" where
  "topology_new metadata =
     \<lparr>ta_scan_metadata = metadata, ta_observations = [], ta_mac_index = Map.empty,
      ta_sys_name_index = Map.empty, ta_addr_index = Map.empty\<rparr>"

definition observe_outcome :: "TopologyAssembler \<Rightarrow> ProbeOutcome \<Rightarrow> TopologyAssembler" where
  "observe_outcome ta outcome =
     (case po_lldp outcome of
        None \<Rightarrow> ta
      | Some lldp \<Rightarrow>
          ta\<lparr>ta_observations := ta_observations ta @
            [\<lparr>ob_local_ip = po_target_ip outcome, ob_local_chassis_id = lo_local_chassis_id lldp,
              ob_local_chassis_subtype = lo_local_chassis_subtype lldp, ob_observed_at = po_timestamp outcome,
              ob_discovered_via = lo_discovered_via lldp, ob_neighbors = lo_neighbors lldp\<rparr>]\<rparr>)"

definition observe_outcomes :: "TopologyAssembler \<Rightarrow> ProbeOutcome list \<Rightarrow> TopologyAssembler" where
  "observe_outcomes ta outcomes = foldl observe_outcome ta outcomes"

definition index_mac :: "string \<Rightarrow> TopologyAssembler \<Rightarrow> string \<Rightarrow> TopologyAssembler" where
  "index_mac identity ta mac =
     (let key = normalize_mac mac in
      if key \<noteq> [] then ta\<lparr>ta_mac_index := or_insert (ta_mac_index ta) key identity\<rparr> else ta)"

definition index_sys_name :: "string \<Rightarrow> TopologyAssembler \<Rightarrow> string \<Rightarrow> TopologyAssembler" where
  "index_sys_name identity ta name =
     (let key = normalize_sys_name name in
      if key \<noteq> [] then ta\<lparr>ta_sys_name_index := or_insert (ta_sys_name_index ta) key identity\<rparr> else ta)"

definition index_addr :: "string \<Rightarrow> TopologyAssembler \<Rightarrow> IpAddr \<Rightarrow> TopologyAssembler" where
  "index_addr identity ta ip = ta\<lparr>ta_addr_index := or_insert (ta_addr_index ta) ip identity\<rparr>"

fun index_signal :: "string \<Rightarrow> TopologyAssembler \<Rightarrow> Signal \<Rightarrow> TopologyAssembler" where
  "index_signal identity ta (Mac mac) = index_mac identity ta mac"
| "index_signal identity ta (SnmpSysName name) = index_sys_name identity ta name"
| "index_signal identity ta (ReverseDnsName name) = index_sys_name identity ta name"
| "index_signal identity ta _ = ta"

definition observe_record :: "TopologyAssembler \<Rightarrow> DeviceRecord \<Rightarrow> TopologyAssembler" where
  "observe_record ta record =
     (let identity = identity_key_as_str (dr_identity_key record);
          ta = (case dr_mac record of Some mac \<Rightarrow> index_mac identity ta mac | None \<Rightarrow> ta);
          ta = foldl (index_signal identity) ta (dr_signals record);
          ta = (case dr_mgmt_ip record of Some ip \<Rightarrow> index_addr identity ta ip | None \<Rightarrow> ta)
      in foldl (index_addr identity) ta (map alt_address (dr_alt_ips record)))"

definition normalize_chassis :: "u32 \<Rightarrow> string \<Rightarrow> string" where
  "normalize_chassis subtype chassis =
     (if subtype = CHASSIS_SUBTYPE_MAC then normalize_mac chassis else to_ascii_lowercase (trim chassis))"

definition edge_key :: "string \<Rightarrow> string \<Rightarrow> string \<times> string" where
  "edge_key a b = (if a \<le> b then (a, b) else (b, a))"

definition non_empty :: "string \<Rightarrow> string option" where
  "non_empty s = (if trim s = [] then None else Some s)"

definition join_sources :: "string set \<Rightarrow> string" where
  "join_sources sources = join '','' (sorted_list_of_set sources)"

definition edge_new :: "system_time \<Rightarrow> Edge" where
  "edge_new observed_at = \<lparr>ed_observed_at = observed_at, ed_sources = {}, ed_endpoints = Map.empty\<rparr>"

definition merge_endpoint :: "EndpointInfo \<Rightarrow> EndpointObservation \<Rightarrow> EndpointInfo" where
  "merge_endpoint entry obs =
     (let entry = (case eo_port obs of
                     Some port \<Rightarrow>
                       if eo_port_authoritative obs \<and> \<not> ei_port_authoritative entry \<or> ei_port entry = None
                       then entry\<lparr>ei_port := Some port, ei_port_authoritative := eo_port_authoritative obs\<rparr>
                       else entry
                   | None \<Rightarrow> entry)
      in if ei_sys_name entry = None
         then (case eo_sys_name obs of Some name \<Rightarrow> entry\<lparr>ei_sys_name := Some name\<rparr> | None \<Rightarrow> entry)
         else entry)"

definition edge_merge :: "Edge \<Rightarrow> EndpointObservation \<Rightarrow> Edge" where
  "edge_merge edge obs =
     (let entry = (case ed_endpoints edge (eo_chassis_norm obs) of
                     Some entry \<Rightarrow> entry
                   | None \<Rightarrow> \<lparr>ei_chassis_id = eo_chassis_id obs, ei_subtype = eo_subtype obs, ei_port = None,
                              ei_port_authoritative = False, ei_sys_name = None\<rparr>)
      in edge\<lparr>ed_endpoints := (ed_endpoints edge)(eo_chassis_norm obs \<mapsto> merge_endpoint entry obs)\<rparr>)"

text \<open>\<^verbatim>\<open>entry(key).or_insert_with(new)\<close> followed by an update in place, on a map kept as its entries.\<close>

fun entry_update :: "('k \<times> 'v) list \<Rightarrow> 'k \<Rightarrow> 'v \<Rightarrow> ('v \<Rightarrow> 'v) \<Rightarrow> ('k \<times> 'v) list" where
  "entry_update [] k new f = [(k, f new)]"
| "entry_update ((k', v) # m) k new f = (if k' = k then (k', f v) # m else (k', v) # entry_update m k new f)"

definition chassis_step ::
  "(IpAddr \<rightharpoonup> string) \<Rightarrow> (string \<rightharpoonup> string) \<Rightarrow> DeviceObservation \<Rightarrow> (string \<rightharpoonup> string)" where
  "chassis_step addr_index m obs =
     (case addr_index (ob_local_ip obs) of
        Some identity \<Rightarrow>
          (let key = normalize_chassis (ob_local_chassis_subtype obs) (ob_local_chassis_id obs) in
           if key \<noteq> [] then or_insert m key identity else m)
      | None \<Rightarrow> m)"

definition chassis_to_identity :: "TopologyAssembler \<Rightarrow> (string \<rightharpoonup> string)" where
  "chassis_to_identity ta = foldl (chassis_step (ta_addr_index ta)) Map.empty (ta_observations ta)"

type_synonym Edges = "((string \<times> string) \<times> Edge) list"

definition local_endpoint :: "string \<Rightarrow> DeviceObservation \<Rightarrow> LldpNeighbor \<Rightarrow> EndpointObservation" where
  "local_endpoint local_norm obs neighbor =
     \<lparr>eo_chassis_norm = local_norm, eo_chassis_id = ob_local_chassis_id obs,
      eo_subtype = ob_local_chassis_subtype obs, eo_port = non_empty (nb_local_port neighbor),
      eo_port_authoritative = True, eo_sys_name = None\<rparr>"

definition remote_endpoint :: "string \<Rightarrow> LldpNeighbor \<Rightarrow> EndpointObservation" where
  "remote_endpoint remote_norm neighbor =
     \<lparr>eo_chassis_norm = remote_norm, eo_chassis_id = nb_remote_chassis_id neighbor,
      eo_subtype = nb_remote_chassis_subtype neighbor, eo_port = non_empty (nb_remote_port_id neighbor),
      eo_port_authoritative = False, eo_sys_name = nb_remote_sys_name neighbor\<rparr>"

definition edge_see :: "system_time \<Rightarrow> string \<Rightarrow> EndpointObservation \<Rightarrow> EndpointObservation \<Rightarrow> Edge \<Rightarrow> Edge" where
  "edge_see observed_at via loc rem edge =
     (let edge = edge\<lparr>ed_observed_at := max (ed_observed_at edge) observed_at\<rparr>;
          edge = edge\<lparr>ed_sources := insert via (ed_sources edge)\<rparr>
      in edge_merge (edge_merge edge loc) rem)"

definition neighbor_step :: "DeviceObservation \<Rightarrow> string \<Rightarrow> Edges \<Rightarrow> LldpNeighbor \<Rightarrow> Edges" where
  "neighbor_step obs local_norm edges neighbor =
     (let remote_norm = normalize_chassis (nb_remote_chassis_subtype neighbor) (nb_remote_chassis_id neighbor) in
      if remote_norm = [] \<or> remote_norm = local_norm then edges
      else entry_update edges (edge_key local_norm remote_norm) (edge_new (ob_observed_at obs))
             (edge_see (ob_observed_at obs) (ob_discovered_via obs)
                (local_endpoint local_norm obs neighbor) (remote_endpoint remote_norm neighbor)))"

definition observation_step :: "Edges \<Rightarrow> DeviceObservation \<Rightarrow> Edges" where
  "observation_step edges obs =
     (let local_norm = normalize_chassis (ob_local_chassis_subtype obs) (ob_local_chassis_id obs) in
      if local_norm = [] then edges else foldl (neighbor_step obs local_norm) edges (ob_neighbors obs))"

definition collect_edges :: "TopologyAssembler \<Rightarrow> Edges" where
  "collect_edges ta = foldl observation_step [] (ta_observations ta)"

definition resolve_identity ::
  "TopologyAssembler \<Rightarrow> string \<Rightarrow> u32 \<Rightarrow> string option \<Rightarrow> (string \<rightharpoonup> string) \<Rightarrow> string option" where
  "resolve_identity ta chassis_norm subtype sys_name chassis_ids =
     (case chassis_ids chassis_norm of
        Some identity \<Rightarrow> Some identity
      | None \<Rightarrow>
          (case (if subtype = CHASSIS_SUBTYPE_MAC then ta_mac_index ta chassis_norm
                 else if subtype = CHASSIS_SUBTYPE_NETWORK_ADDRESS
                 then (case parse_ip chassis_norm of Some ip \<Rightarrow> ta_addr_index ta ip | None \<Rightarrow> None)
                 else None) of
             Some identity \<Rightarrow> Some identity
           | None \<Rightarrow>
               (case sys_name of
                  Some name \<Rightarrow>
                    (let key = normalize_sys_name name in
                     if key \<noteq> [] then ta_sys_name_index ta key else None)
                | None \<Rightarrow> None)))"

definition finalize_endpoint ::
  "TopologyAssembler \<Rightarrow> string \<Rightarrow> Edge \<Rightarrow> (string \<rightharpoonup> string) \<Rightarrow> LinkEndpoint option" where
  "finalize_endpoint ta chassis_norm edge chassis_ids =
     map_option (\<lambda>info.
         \<lparr>le_identity_key = resolve_identity ta chassis_norm (ei_subtype info) (ei_sys_name info) chassis_ids,
          le_chassis_id = ei_chassis_id info, le_sys_name = ei_sys_name info,
          le_port = (case ei_port info of Some port \<Rightarrow> port | None \<Rightarrow> [])\<rparr>)
       (ed_endpoints edge chassis_norm)"

fun link_record ::
  "TopologyAssembler \<Rightarrow> (string \<rightharpoonup> string) \<Rightarrow> (string \<times> string) \<times> Edge \<Rightarrow> LinkRecord option" where
  "link_record ta chassis_ids ((ka, kb), edge) =
     (case finalize_endpoint ta ka edge chassis_ids of
        None \<Rightarrow> None
      | Some a \<Rightarrow>
          (case finalize_endpoint ta kb edge chassis_ids of
             None \<Rightarrow> None
           | Some b \<Rightarrow>
               Some \<lparr>lr_schema_version = LINK_CURRENT_SCHEMA_VERSION, lr_schema_id = LINK_SCHEMA_ID,
                     lr_a = a, lr_b = b, lr_discovered_via = join_sources (ed_sources edge),
                     lr_observed_at = ed_observed_at edge, lr_scan_metadata = ta_scan_metadata ta\<rparr>))"

definition topology_finish :: "(Edges \<Rightarrow> Edges) \<Rightarrow> TopologyAssembler \<Rightarrow> LinkRecord list option" where
  "topology_finish visit ta =
     (if ta_observations ta = [] then Some []
      else those (map (link_record ta (chassis_to_identity ta)) (sort_key fst (visit (collect_edges ta)))))"

section \<open>One pass over the sightings\<close>

record Sighting =
  si_key :: "string \<times> string"
  si_at :: system_time
  si_via :: string
  si_loc :: EndpointObservation
  si_rem :: EndpointObservation

definition neighbor_norm :: "LldpNeighbor \<Rightarrow> string" where
  "neighbor_norm n = normalize_chassis (nb_remote_chassis_subtype n) (nb_remote_chassis_id n)"

definition local_norm_of :: "DeviceObservation \<Rightarrow> string" where
  "local_norm_of obs = normalize_chassis (ob_local_chassis_subtype obs) (ob_local_chassis_id obs)"

definition sighting :: "DeviceObservation \<Rightarrow> LldpNeighbor \<Rightarrow> Sighting" where
  "sighting obs n =
     \<lparr>si_key = edge_key (local_norm_of obs) (neighbor_norm n), si_at = ob_observed_at obs,
      si_via = ob_discovered_via obs, si_loc = local_endpoint (local_norm_of obs) obs n,
      si_rem = remote_endpoint (neighbor_norm n) n\<rparr>"

definition sightings_of :: "DeviceObservation \<Rightarrow> Sighting list" where
  "sightings_of obs =
     (if local_norm_of obs = [] then []
      else map (sighting obs) (filter (\<lambda>n. neighbor_norm n \<noteq> [] \<and> neighbor_norm n \<noteq> local_norm_of obs) (ob_neighbors obs)))"

definition sightings :: "TopologyAssembler \<Rightarrow> Sighting list" where
  "sightings ta = concat (map sightings_of (ta_observations ta))"

definition see :: "Edge \<Rightarrow> Sighting \<Rightarrow> Edge" where
  "see edge s = edge_see (si_at s) (si_via s) (si_loc s) (si_rem s) edge"

definition see_step :: "Edges \<Rightarrow> Sighting \<Rightarrow> Edges" where
  "see_step edges s = entry_update edges (si_key s) (edge_new (si_at s)) (\<lambda>e. see e s)"

lemma observation_step_sightings: "observation_step edges obs = foldl see_step edges (sightings_of obs)"
proof -
  have "foldl (neighbor_step obs (local_norm_of obs)) edges ns =
    foldl see_step edges (map (sighting obs) (filter (\<lambda>n. neighbor_norm n \<noteq> [] \<and> neighbor_norm n \<noteq> local_norm_of obs) ns))" for ns
    by (induction ns arbitrary: edges)
      (simp_all add: neighbor_step_def neighbor_norm_def Let_def see_step_def see_def sighting_def)
  then show ?thesis by (simp add: observation_step_def sightings_of_def local_norm_of_def Let_def)
qed

lemma collect_edges_sightings: "collect_edges ta = foldl see_step [] (sightings ta)"
proof -
  have "foldl observation_step edges os = foldl see_step edges (concat (map sightings_of os))" for edges os
    by (induction os arbitrary: edges) (simp_all add: observation_step_sightings)
  then show ?thesis by (simp add: collect_edges_def sightings_def)
qed

lemma entry_update_mem:
  "distinct ks \<Longrightarrow> k \<in> set ks \<Longrightarrow>
   entry_update (map (\<lambda>k. (k, g k)) ks) k new f = map (\<lambda>k'. (k', if k' = k then f (g k') else g k')) ks"
  by (induction ks) auto

lemma entry_update_new:
  "k \<notin> set ks \<Longrightarrow> entry_update (map (\<lambda>k. (k, g k)) ks) k new f = map (\<lambda>k. (k, g k)) ks @ [(k, f new)]"
  by (induction ks) auto

definition edge_of :: "Sighting list \<Rightarrow> Edge" where
  "edge_of ss = foldl see (edge_new (si_at (hd ss))) ss"

definition at_key :: "(string \<times> string) \<Rightarrow> Sighting list \<Rightarrow> Sighting list" where
  "at_key k ss = filter (\<lambda>s. si_key s = k) ss"

lemma at_key_Nil_iff: "at_key k ss = [] \<longleftrightarrow> k \<notin> si_key ` set ss"
  by (auto simp: at_key_def filter_empty_conv)

lemma foldl_see_step:
  "foldl see_step [] ss = map (\<lambda>k. (k, edge_of (at_key k ss))) (extend_new [] (map si_key ss))"
proof (induction ss rule: rev_induct)
  case (snoc s ss)
  let ?ks = "extend_new [] (map si_key ss)"
  have IH: "foldl see_step [] (ss @ [s]) = see_step (map (\<lambda>k. (k, edge_of (at_key k ss))) ?ks) s"
    using snoc by simp
  have other: "at_key k (ss @ [s]) = at_key k ss" if "k \<noteq> si_key s" for k using that by (simp add: at_key_def)
  show ?case
  proof (cases "si_key s \<in> set ?ks")
    case True
    then have "at_key (si_key s) ss \<noteq> []" by (simp add: at_key_Nil_iff)
    then have "see (edge_of (at_key (si_key s) ss)) s = edge_of (at_key (si_key s) (ss @ [s]))"
      by (simp add: edge_of_def at_key_def)
    then have "see_step (map (\<lambda>k. (k, edge_of (at_key k ss))) ?ks) s = map (\<lambda>k. (k, edge_of (at_key k (ss @ [s])))) ?ks"
      unfolding see_step_def by (subst entry_update_mem [OF _ True]) (auto simp: other)
    then show ?thesis using IH True by (simp add: push_new_def)
  next
    case False
    then have "at_key (si_key s) ss = []" by (simp add: at_key_Nil_iff)
    then have "see (edge_new (si_at s)) s = edge_of (at_key (si_key s) (ss @ [s]))"
      by (simp add: edge_of_def at_key_def)
    moreover have "map (\<lambda>k. (k, edge_of (at_key k ss))) ?ks = map (\<lambda>k. (k, edge_of (at_key k (ss @ [s])))) ?ks"
    proof (intro map_cong refl)
      fix k assume "k \<in> set ?ks"
      then have "k \<noteq> si_key s" using False by blast
      then show "(k, edge_of (at_key k ss)) = (k, edge_of (at_key k (ss @ [s])))" by (simp add: other)
    qed
    ultimately have "see_step (map (\<lambda>k. (k, edge_of (at_key k ss))) ?ks) s =
        map (\<lambda>k. (k, edge_of (at_key k (ss @ [s])))) (?ks @ [si_key s])"
      unfolding see_step_def by (subst entry_update_new [OF False]) simp
    then show ?thesis using IH False by (simp add: push_new_def)
  qed
qed simp

lemma sort_key_keyed:
  fixes ks :: "('k :: linorder) list"
  assumes "distinct ks" "mset xs = mset (map (\<lambda>k. (k, g k)) ks)"
  shows "sort_key fst xs = map (\<lambda>k. (k, g k)) (sorted_list_of_set (set ks))"
proof -
  have inj: "inj_on fst (set (map (\<lambda>k. (k, g k)) ks))" by (auto simp: inj_on_def)
  have s: "set xs = set (map (\<lambda>k. (k, g k)) ks)" using assms(2) by (metis set_mset_mset)
  have m: "map fst (sort_key fst xs) = sorted_list_of_set (set ks)"
  proof (rule sorted_distinct_set_unique)
    have "mset (map fst (sort_key fst xs)) = mset ks" using assms(2) by (simp add: image_mset.compositionality comp_def)
    then show "distinct (map fst (sort_key fst xs))" "set (map fst (sort_key fst xs)) = set (sorted_list_of_set (set ks))"
      using assms(1) by (metis mset_eq_imp_distinct_iff, metis set_mset_mset List.finite_set set_sorted_list_of_set)
  qed simp_all
  have "map (\<lambda>x. (fst x, g (fst x))) (sort_key fst xs) = sort_key fst xs"
    by (rule map_idI) (use s in auto)
  then have "sort_key fst xs = map (\<lambda>k. (k, g k)) (map fst (sort_key fst xs))" by (simp add: comp_def)
  then show ?thesis using m by simp
qed

lemma sorted_edges:
  assumes "permutes visit"
  shows "sort_key fst (visit (collect_edges ta)) =
    map (\<lambda>k. (k, edge_of (at_key k (sightings ta)))) (sorted_list_of_set (si_key ` set (sightings ta)))"
  using sort_key_keyed [of "extend_new [] (map si_key (sightings ta))" "visit (collect_edges ta)"
      "\<lambda>k. edge_of (at_key k (sightings ta))"] assms
  by (simp add: collect_edges_sightings foldl_see_step permutes_def)

section \<open>Reading an edge off its sightings\<close>

lemma edge_merge_simps [simp]:
  "ed_observed_at (edge_merge e o') = ed_observed_at e" "ed_sources (edge_merge e o') = ed_sources e"
  by (simp_all add: edge_merge_def Let_def)

lemma foldl_see_times:
  "ed_observed_at (foldl see e ss) = foldl max (ed_observed_at e) (map si_at ss)"
  "ed_sources (foldl see e ss) = ed_sources e \<union> si_via ` set ss"
  by (induction ss arbitrary: e) (simp_all add: see_def edge_see_def Let_def)

lemma foldl_max: "foldl max (a :: system_time) xs = Max (insert a (set xs))"
proof (induction xs arbitrary: a)
  case (Cons x xs)
  have "insert a (set (x # xs)) = insert a (insert x (set xs))" by simp
  then show ?case using Cons [of "max a x"] by (cases "xs = []") (simp_all add: max.assoc [symmetric])
qed simp

lemma edge_of_times:
  assumes "ss \<noteq> []"
  shows "ed_observed_at (edge_of ss) = Max (si_at ` set ss)" "ed_sources (edge_of ss) = si_via ` set ss"
proof -
  have "insert (si_at (hd ss)) (set (map si_at ss)) = si_at ` set ss" using assms by (auto simp: insert_absorb)
  then show "ed_observed_at (edge_of ss) = Max (si_at ` set ss)"
    by (simp only: edge_of_def foldl_see_times foldl_max) (simp add: edge_new_def)
  show "ed_sources (edge_of ss) = si_via ` set ss" by (simp add: edge_of_def foldl_see_times edge_new_def)
qed

definition endpoint_obs :: "string \<Rightarrow> Sighting list \<Rightarrow> EndpointObservation list" where
  "endpoint_obs c ss = filter (\<lambda>o'. eo_chassis_norm o' = c) (concat (map (\<lambda>s. [si_loc s, si_rem s]) ss))"

definition fresh_endpoint :: "EndpointObservation \<Rightarrow> EndpointInfo" where
  "fresh_endpoint o' = \<lparr>ei_chassis_id = eo_chassis_id o', ei_subtype = eo_subtype o', ei_port = None,
     ei_port_authoritative = False, ei_sys_name = None\<rparr>"

definition endpoint_of :: "EndpointObservation list \<Rightarrow> EndpointInfo option" where
  "endpoint_of os = (if os = [] then None else Some (foldl merge_endpoint (fresh_endpoint (hd os)) os))"

lemma endpoint_of_snoc:
  "endpoint_of (os @ [o']) =
     Some (merge_endpoint (case endpoint_of os of Some i \<Rightarrow> i | None \<Rightarrow> fresh_endpoint o') o')"
  by (cases os) (simp_all add: endpoint_of_def)

lemma edge_merge_endpoints:
  "ed_endpoints (edge_merge e o') c =
     (if c = eo_chassis_norm o'
      then Some (merge_endpoint (case ed_endpoints e c of Some i \<Rightarrow> i | None \<Rightarrow> fresh_endpoint o') o')
      else ed_endpoints e c)"
  by (cases "ed_endpoints e c") (auto simp: edge_merge_def fresh_endpoint_def Let_def)

lemma foldl_edge_merge_endpoints:
  "ed_endpoints (foldl edge_merge (edge_new t) os) c = endpoint_of (filter (\<lambda>o'. eo_chassis_norm o' = c) os)"
  by (induction os rule: rev_induct) (auto simp: edge_merge_endpoints endpoint_of_snoc edge_new_def endpoint_of_def)

lemma foldl_see_endpoints:
  "ed_endpoints (foldl see e ss) = ed_endpoints (foldl edge_merge e (concat (map (\<lambda>s. [si_loc s, si_rem s]) ss)))"
proof -
  have same: "ed_endpoints a = ed_endpoints b \<Longrightarrow> ed_endpoints (edge_merge a o') = ed_endpoints (edge_merge b o')" for a b o'
    by (rule ext) (simp add: edge_merge_endpoints)
  show ?thesis
  proof (induction ss rule: rev_induct)
    case (snoc s ss)
    have "ed_endpoints (see (foldl see e ss) s) = ed_endpoints (edge_merge (edge_merge (foldl see e ss) (si_loc s)) (si_rem s))"
      unfolding see_def edge_see_def Let_def by (rule same, rule same) simp
    also have "\<dots> = ed_endpoints (edge_merge (edge_merge
        (foldl edge_merge e (concat (map (\<lambda>s. [si_loc s, si_rem s]) ss))) (si_loc s)) (si_rem s))"
      by (rule same, rule same, rule snoc.IH)
    finally show ?case by simp
  qed simp
qed

lemma edge_of_endpoints: "ed_endpoints (edge_of ss) c = endpoint_of (endpoint_obs c ss)"
  by (simp add: edge_of_def foldl_see_endpoints foldl_edge_merge_endpoints endpoint_obs_def)

text \<open>An endpoint keeps the identifier first seen, the first system name anyone gave, and the first port the
  endpoint itself reported, or else the first port a neighbour reported for it.\<close>

definition own_port :: "EndpointObservation \<Rightarrow> string option" where
  "own_port o' = (if eo_port_authoritative o' then eo_port o' else None)"

lemma merge_endpoint_simps [simp]:
  "ei_chassis_id (merge_endpoint i o') = ei_chassis_id i" "ei_subtype (merge_endpoint i o') = ei_subtype i"
  "ei_sys_name (merge_endpoint i o') = or_else (ei_sys_name i) (eo_sys_name o')"
  "ei_port (merge_endpoint i o') =
     (if own_port o' \<noteq> None \<and> \<not> ei_port_authoritative i then eo_port o' else or_else (ei_port i) (eo_port o'))"
  "ei_port_authoritative (merge_endpoint i o') \<longleftrightarrow> own_port o' \<noteq> None \<and> (\<not> ei_port_authoritative i \<or> ei_port i = None) \<or>
     ei_port_authoritative i \<and> (ei_port i \<noteq> None \<or> eo_port o' = None)"
  by (cases "eo_port o'"; cases "eo_sys_name o'"; auto simp: merge_endpoint_def own_port_def or_else_def Let_def split: option.splits)+

lemma find_map_snoc: "find_map f (xs @ [x]) = or_else (find_map f xs) (f x)"
proof -
  have "find_map f [x] = f x" by (cases "f x") simp_all
  then show ?thesis by (simp add: find_map_append del: find_map.simps)
qed

lemma own_port_Some: "own_port o' = Some p \<Longrightarrow> eo_port o' = Some p"
  by (simp add: own_port_def split: if_splits)

lemma foldl_merge_endpoint:
  "ei_chassis_id (foldl merge_endpoint (fresh_endpoint o') os) = eo_chassis_id o'"
  "ei_subtype (foldl merge_endpoint (fresh_endpoint o') os) = eo_subtype o'"
  "ei_sys_name (foldl merge_endpoint (fresh_endpoint o') os) = find_map eo_sys_name os"
  by (induction os rule: rev_induct) (simp_all add: fresh_endpoint_def find_map_snoc)

lemma foldl_merge_endpoint_port:
  "ei_port (foldl merge_endpoint (fresh_endpoint o') os) = or_else (find_map own_port os) (find_map eo_port os) \<and>
   (ei_port_authoritative (foldl merge_endpoint (fresh_endpoint o') os) \<longleftrightarrow> find_map own_port os \<noteq> None)"
proof (induction os rule: rev_induct)
  case (snoc x os)
  then show ?case
    by (cases "find_map own_port os"; cases "find_map eo_port os"; cases "own_port x"; cases "eo_port x")
      (simp_all add: find_map_snoc own_port_Some del: find_map_None)
qed (simp add: fresh_endpoint_def)

section \<open>The links\<close>

definition expected_endpoint :: "TopologyAssembler \<Rightarrow> string \<Rightarrow> EndpointObservation list \<Rightarrow> LinkEndpoint" where
  "expected_endpoint ta c os =
     \<lparr>le_identity_key = resolve_identity ta c (eo_subtype (hd os)) (find_map eo_sys_name os) (chassis_to_identity ta),
      le_chassis_id = eo_chassis_id (hd os), le_sys_name = find_map eo_sys_name os,
      le_port = (case or_else (find_map own_port os) (find_map eo_port os) of Some p \<Rightarrow> p | None \<Rightarrow> [])\<rparr>"

definition expected_link :: "TopologyAssembler \<Rightarrow> string \<times> string \<Rightarrow> LinkRecord" where
  "expected_link ta k =
     (let ss = at_key k (sightings ta) in
      \<lparr>lr_schema_version = LINK_CURRENT_SCHEMA_VERSION, lr_schema_id = LINK_SCHEMA_ID,
       lr_a = expected_endpoint ta (fst k) (endpoint_obs (fst k) ss),
       lr_b = expected_endpoint ta (snd k) (endpoint_obs (snd k) ss),
       lr_discovered_via = join '','' (sorted_list_of_set (si_via ` set ss)),
       lr_observed_at = Max (si_at ` set ss), lr_scan_metadata = ta_scan_metadata ta\<rparr>)"

lemma sighting_endpoints:
  "s \<in> set (sightings ta) \<Longrightarrow> si_key s = edge_key (eo_chassis_norm (si_loc s)) (eo_chassis_norm (si_rem s)) \<and>
     eo_chassis_norm (si_loc s) \<noteq> eo_chassis_norm (si_rem s)"
  by (auto simp: sightings_def sightings_of_def sighting_def local_endpoint_def remote_endpoint_def split: if_splits)

lemma endpoint_obs_key:
  assumes "k \<in> si_key ` set (sightings ta)" "c = fst k \<or> c = snd k"
  shows "endpoint_obs c (at_key k (sightings ta)) \<noteq> []"
proof -
  obtain s where s: "s \<in> set (sightings ta)" "k = si_key s" using assms(1) by blast
  then have "s \<in> set (at_key k (sightings ta))" by (simp add: at_key_def)
  moreover have "c = eo_chassis_norm (si_loc s) \<or> c = eo_chassis_norm (si_rem s)"
    using sighting_endpoints [OF s(1)] s(2) assms(2) by (auto simp: edge_key_def split: if_splits)
  ultimately have "si_loc s \<in> set (endpoint_obs c (at_key k (sightings ta))) \<or>
      si_rem s \<in> set (endpoint_obs c (at_key k (sightings ta)))"
    by (auto simp: endpoint_obs_def)
  then show ?thesis by auto
qed

lemma finalize_endpoint_expected:
  assumes "endpoint_obs c ss \<noteq> []"
  shows "finalize_endpoint ta c (edge_of ss) (chassis_to_identity ta) = Some (expected_endpoint ta c (endpoint_obs c ss))"
  using assms by (simp add: finalize_endpoint_def edge_of_endpoints endpoint_of_def expected_endpoint_def
      foldl_merge_endpoint foldl_merge_endpoint_port)

lemma link_record_expected:
  assumes "k \<in> si_key ` set (sightings ta)"
  shows "link_record ta (chassis_to_identity ta) (k, edge_of (at_key k (sightings ta))) = Some (expected_link ta k)"
proof -
  obtain ka kb where k: "k = (ka, kb)" by (cases k)
  have "at_key k (sightings ta) \<noteq> []" using assms by (simp add: at_key_Nil_iff)
  then show ?thesis
    using endpoint_obs_key [OF assms, of ka] endpoint_obs_key [OF assms, of kb]
    unfolding k by (simp add: finalize_endpoint_expected expected_link_def edge_of_times join_sources_def Let_def)
qed

lemma those_map_Some: "\<forall>x \<in> set xs. f x = Some (g x) \<Longrightarrow> those (map f xs) = Some (map g xs)"
  by (induction xs) auto

lemma topology_finish_expected:
  assumes "permutes visit"
  shows "topology_finish visit ta = Some (map (expected_link ta) (sorted_list_of_set (si_key ` set (sightings ta))))"
proof (cases "ta_observations ta = []")
  case False
  have "those (map (\<lambda>k. link_record ta (chassis_to_identity ta) (k, edge_of (at_key k (sightings ta))))
      (sorted_list_of_set (si_key ` set (sightings ta)))) =
    Some (map (expected_link ta) (sorted_list_of_set (si_key ` set (sightings ta))))"
    by (rule those_map_Some) (simp add: link_record_expected)
  then show ?thesis using False by (simp add: topology_finish_def sorted_edges [OF assms] comp_def)
qed (simp add: topology_finish_def sightings_def)

lemma edge_key_eq_iff: "edge_key a b = edge_key c d \<longleftrightarrow> {a, b} = {c, d}"
  by (auto simp: edge_key_def doubleton_eq_iff)

definition reported :: "DeviceObservation \<Rightarrow> LldpNeighbor list" where
  "reported obs =
     filter (\<lambda>n. local_norm_of obs \<noteq> [] \<and> neighbor_norm n \<noteq> [] \<and> neighbor_norm n \<noteq> local_norm_of obs) (ob_neighbors obs)"

definition link_pairs :: "TopologyAssembler \<Rightarrow> string set set" where
  "link_pairs ta = (\<Union>obs \<in> set (ta_observations ta). (\<lambda>n. {local_norm_of obs, neighbor_norm n}) ` set (reported obs))"

lemma sightings_of_reported: "sightings_of obs = map (sighting obs) (reported obs)"
  by (cases "local_norm_of obs = []") (simp_all add: sightings_of_def reported_def)

lemma link_pairs_keys: "link_pairs ta = (\<lambda>(a, b). {a, b}) ` si_key ` set (sightings ta)"
proof -
  have "(\<lambda>(a, b). {a, b}) (edge_key x y) = {x, y}" for x y by (auto simp: edge_key_def)
  then have "(\<lambda>s. (\<lambda>(a, b). {a, b}) (si_key s)) ` set (sightings_of obs) =
      (\<lambda>n. {local_norm_of obs, neighbor_norm n}) ` set (reported obs)" for obs
    by (simp add: sightings_of_reported image_image sighting_def)
  then show ?thesis by (simp add: link_pairs_def sightings_def image_image image_UN)
qed


section \<open>The indexes\<close>

text \<open>Every index keeps the first record that claims a key.\<close>

definition claims :: "('r \<Rightarrow> 'k set) \<Rightarrow> ('r \<Rightarrow> string) \<Rightarrow> 'r list \<Rightarrow> 'k \<Rightarrow> string option" where
  "claims keys ident rs k = find_map (\<lambda>r. if k \<in> keys r then Some (ident r) else None) rs"

definition record_addresses :: "DeviceRecord \<Rightarrow> IpAddr set" where
  "record_addresses r = set_option (dr_mgmt_ip r) \<union> alt_address ` set (dr_alt_ips r)"

definition record_macs :: "DeviceRecord \<Rightarrow> string set" where
  "record_macs r = normalize_mac ` (set_option (dr_mac r) \<union> {m. Mac m \<in> set (dr_signals r)}) - {[]}"

definition record_names :: "DeviceRecord \<Rightarrow> string set" where
  "record_names r = normalize_sys_name ` {n. SnmpSysName n \<in> set (dr_signals r) \<or> ReverseDnsName n \<in> set (dr_signals r)} - {[]}"

definition record_identity :: "DeviceRecord \<Rightarrow> string" where
  "record_identity r = identity_key_as_str (dr_identity_key r)"

definition claimed :: "('k \<rightharpoonup> string) \<Rightarrow> 'k set \<Rightarrow> string \<Rightarrow> ('k \<rightharpoonup> string)" where
  "claimed m ks v = (\<lambda>k. if m k = None \<and> k \<in> ks then Some v else m k)"

lemma claimed_simps [simp]: "claimed m {} v = m" "claimed (claimed m A v) B v = claimed m (A \<union> B) v"
  by (auto simp: claimed_def)

lemma or_insert_claimed: "or_insert m k v = claimed m {k} v"
  by (rule ext) (auto simp: claimed_def)

lemma index_mac_claimed:
  "index_mac v ta mac = ta\<lparr>ta_mac_index := claimed (ta_mac_index ta) ({normalize_mac mac} - {[]}) v\<rparr>"
  by (simp add: index_mac_def Let_def or_insert_claimed)

lemma index_sys_name_claimed:
  "index_sys_name v ta name = ta\<lparr>ta_sys_name_index := claimed (ta_sys_name_index ta) ({normalize_sys_name name} - {[]}) v\<rparr>"
  by (simp add: index_sys_name_def Let_def or_insert_claimed)

definition signal_macs :: "Signal \<Rightarrow> string set" where
  "signal_macs s = (case s of Mac m \<Rightarrow> {normalize_mac m} - {[]} | _ \<Rightarrow> {})"

definition signal_names :: "Signal \<Rightarrow> string set" where
  "signal_names s = (case s of SnmpSysName n \<Rightarrow> {normalize_sys_name n} - {[]}
     | ReverseDnsName n \<Rightarrow> {normalize_sys_name n} - {[]} | _ \<Rightarrow> {})"

lemma index_signal_claimed:
  "index_signal v ta s = ta\<lparr>ta_mac_index := claimed (ta_mac_index ta) (signal_macs s) v,
     ta_sys_name_index := claimed (ta_sys_name_index ta) (signal_names s) v\<rparr>"
  by (cases s) (simp_all add: index_mac_claimed index_sys_name_claimed signal_macs_def signal_names_def)

lemma foldl_index_signal:
  "foldl (index_signal v) ta ss =
     ta\<lparr>ta_mac_index := claimed (ta_mac_index ta) (\<Union>s \<in> set ss. signal_macs s) v,
        ta_sys_name_index := claimed (ta_sys_name_index ta) (\<Union>s \<in> set ss. signal_names s) v\<rparr>"
  by (induction ss arbitrary: ta) (simp_all add: index_signal_claimed)

lemma foldl_index_addr:
  "foldl (index_addr v) ta ips = ta\<lparr>ta_addr_index := claimed (ta_addr_index ta) (set ips) v\<rparr>"
  by (induction ips arbitrary: ta) (simp_all add: index_addr_def or_insert_claimed)

lemma signal_macs_union: "(\<Union>s \<in> set ss. signal_macs s) = normalize_mac ` {m. Mac m \<in> set ss} - {[]}"
proof -
  have "k \<in> signal_macs s \<longleftrightarrow> k \<noteq> [] \<and> (\<exists>m. s = Mac m \<and> k = normalize_mac m)" for k s
    by (cases s) (auto simp: signal_macs_def)
  then show ?thesis by auto
qed

lemma signal_names_union: "(\<Union>s \<in> set ss. signal_names s) =
    normalize_sys_name ` {n. SnmpSysName n \<in> set ss \<or> ReverseDnsName n \<in> set ss} - {[]}"
proof -
  have "k \<in> signal_names s \<longleftrightarrow> k \<noteq> [] \<and> (\<exists>n. (s = SnmpSysName n \<or> s = ReverseDnsName n) \<and> k = normalize_sys_name n)" for k s
    by (cases s) (auto simp: signal_names_def)
  then show ?thesis by auto
qed

lemma observe_record_claimed:
  "observe_record ta r =
     ta\<lparr>ta_mac_index := claimed (ta_mac_index ta) (record_macs r) (record_identity r),
        ta_sys_name_index := claimed (ta_sys_name_index ta) (record_names r) (record_identity r),
        ta_addr_index := claimed (ta_addr_index ta) (record_addresses r) (record_identity r)\<rparr>"
proof -
  have "record_macs r = (case dr_mac r of Some m \<Rightarrow> {normalize_mac m} - {[]} | None \<Rightarrow> {}) \<union>
      (normalize_mac ` {m. Mac m \<in> set (dr_signals r)} - {[]})"
    by (cases "dr_mac r") (auto simp: record_macs_def)
  moreover have "record_addresses r = (case dr_mgmt_ip r of Some ip \<Rightarrow> {ip} | None \<Rightarrow> {}) \<union> alt_address ` set (dr_alt_ips r)"
    by (cases "dr_mgmt_ip r") (auto simp: record_addresses_def)
  ultimately show ?thesis
    unfolding observe_record_def Let_def foldl_index_signal foldl_index_addr
    by (simp add: index_mac_claimed index_addr_def or_insert_claimed signal_macs_union signal_names_union
        record_identity_def record_names_def split: option.split)
qed

lemma claimed_claims: "claimed (\<lambda>k. or_else (m k) (claims keys ident rs k)) (keys r) (ident r) =
    (\<lambda>k. or_else (m k) (claims keys ident (rs @ [r]) k))"
  by (rule ext) (auto simp: claimed_def claims_def find_map_snoc or_else_def simp del: find_map_None split: option.splits)

lemma observe_records_first:
  "ta_addr_index (foldl observe_record ta rs) = (\<lambda>k. or_else (ta_addr_index ta k) (claims record_addresses record_identity rs k))"
  "ta_mac_index (foldl observe_record ta rs) = (\<lambda>k. or_else (ta_mac_index ta k) (claims record_macs record_identity rs k))"
  "ta_sys_name_index (foldl observe_record ta rs) = (\<lambda>k. or_else (ta_sys_name_index ta k) (claims record_names record_identity rs k))"
proof (induction rs rule: rev_induct)
  case Nil
  { case 1 show ?case by (simp add: claims_def or_else_def fun_eq_iff split: option.splits) }
  { case 2 show ?case by (simp add: claims_def or_else_def fun_eq_iff split: option.splits) }
  { case 3 show ?case by (simp add: claims_def or_else_def fun_eq_iff split: option.splits) }
next
  case (snoc r rs)
  { case 1 show ?case using snoc(1) by (simp add: observe_record_claimed claimed_claims) }
  { case 2 show ?case using snoc(2) by (simp add: observe_record_claimed claimed_claims) }
  { case 3 show ?case using snoc(3) by (simp add: observe_record_claimed claimed_claims) }
qed

section \<open>Properties\<close>


definition two_ended :: TopologyAssembler where
  "two_ended =
     (topology_new scan_metadata_default)\<lparr>ta_observations :=
        [\<lparr>ob_local_ip = V4 1, ob_local_chassis_id = ''a'', ob_local_chassis_subtype = 7, ob_observed_at = 1,
          ob_discovered_via = ''lldp'', ob_neighbors =
            [\<lparr>nb_local_port = ''p1'', nb_remote_chassis_id = ''b'', nb_remote_chassis_subtype = 7, nb_remote_port_id = ''x'',
              nb_remote_port_subtype = 5, nb_remote_port_desc = None, nb_remote_sys_name = None\<rparr>]\<rparr>,
         \<lparr>ob_local_ip = V4 2, ob_local_chassis_id = ''b'', ob_local_chassis_subtype = 7, ob_observed_at = 5,
          ob_discovered_via = ''gnmi'', ob_neighbors =
            [\<lparr>nb_local_port = ''p2'', nb_remote_chassis_id = ''a'', nb_remote_chassis_subtype = 7, nb_remote_port_id = ''y'',
              nb_remote_port_subtype = 5, nb_remote_port_desc = None, nb_remote_sys_name = None\<rparr>]\<rparr>]\<rparr>"


section \<open>Completion order\<close>

text \<open>Values read off several reports that agree wherever they are given.\<close>

definition agree :: "('a \<Rightarrow> 'b option) \<Rightarrow> 'a set \<Rightarrow> bool" where
  "agree f A \<longleftrightarrow> (\<forall>x \<in> A. \<forall>y \<in> A. \<forall>a b. f x = Some a \<longrightarrow> f y = Some b \<longrightarrow> a = b)"

definition heard_port :: "EndpointObservation \<Rightarrow> string option" where
  "heard_port o' = (if eo_port_authoritative o' then None else eo_port o')"

text \<open>Devices that do not contradict each other: about either end of a link all reports give one identifier,
  one system name, one port of its own and one port heard from the neighbour; and all addresses a
  chassis answered on belong to one device.\<close>

definition consistent_reports :: "TopologyAssembler \<Rightarrow> bool" where
  "consistent_reports ta \<longleftrightarrow>
     (\<forall>k c. let os = set (endpoint_obs c (at_key k (sightings ta))) in
        agree (\<lambda>o'. Some (eo_chassis_id o', eo_subtype o')) os \<and> agree eo_sys_name os \<and>
        agree own_port os \<and> agree heard_port os) \<and>
     (\<forall>c. agree (\<lambda>obs. ta_addr_index ta (ob_local_ip obs)) {obs \<in> set (ta_observations ta). local_norm_of obs = c})"

definition chassis_names :: "TopologyAssembler \<Rightarrow> string \<Rightarrow> string set" where
  "chassis_names ta c =
     {ob_local_chassis_id obs | obs. obs \<in> set (ta_observations ta) \<and> local_norm_of obs = c} \<union>
     {nb_remote_chassis_id n | obs n. obs \<in> set (ta_observations ta) \<and> n \<in> set (ob_neighbors obs) \<and> neighbor_norm n = c}"

lemma find_map_agree:
  assumes "set xs = set ys" "agree f (set xs)"
  shows "find_map f xs = find_map f ys"
proof (cases "find_map f xs")
  case None
  then have "find_map f ys = None" using assms(1) by simp
  then show ?thesis using None by (simp only:)
next
  case (Some a)
  then have x: "\<exists>x \<in> set xs. f x = Some a" by (rule find_map_Some)
  then obtain b where b: "find_map f ys = Some b" using assms(1) by (cases "find_map f ys") auto
  then have "\<exists>y \<in> set xs. f y = Some b" using find_map_Some [OF b] assms(1) by simp
  then have "a = b" using x assms(2) unfolding agree_def by blast
  then show ?thesis using Some b by simp
qed

lemma chassis_to_identity_claims:
  "chassis_to_identity ta c =
    find_map (\<lambda>obs. if local_norm_of obs = c \<and> c \<noteq> [] then ta_addr_index ta (ob_local_ip obs) else None) (ta_observations ta)"
proof -
  let ?f = "\<lambda>obs. if local_norm_of obs = c \<and> c \<noteq> [] then ta_addr_index ta (ob_local_ip obs) else None"
  have "foldl (chassis_step (ta_addr_index ta)) Map.empty os c = find_map ?f os" for os
    by (induction os rule: rev_induct)
      (auto simp: chassis_step_def local_norm_of_def Let_def find_map_snoc or_else_def simp del: find_map_None split: option.splits)
  then show ?thesis by (simp add: chassis_to_identity_def)
qed

lemma indexes_kept:
  "ta_addr_index (ta\<lparr>ta_observations := os\<rparr>) = ta_addr_index ta" "ta_mac_index (ta\<lparr>ta_observations := os\<rparr>) = ta_mac_index ta"
  "ta_sys_name_index (ta\<lparr>ta_observations := os\<rparr>) = ta_sys_name_index ta"
  "ta_observations (ta\<lparr>ta_observations := os\<rparr>) = os"
  by simp_all

lemma chassis_to_identity_order:
  assumes "consistent_reports ta" "set os = set (ta_observations ta)"
  shows "chassis_to_identity (ta\<lparr>ta_observations := os\<rparr>) = chassis_to_identity ta"
proof
  fix c
  let ?f = "\<lambda>obs. if local_norm_of obs = c \<and> c \<noteq> [] then ta_addr_index ta (ob_local_ip obs) else None"
  have same: "a = b" if "x \<in> set os" "y \<in> set os" "?f x = Some a" "?f y = Some b" for x y a b
  proof -
    have "agree (\<lambda>obs. ta_addr_index ta (ob_local_ip obs)) {obs \<in> set (ta_observations ta). local_norm_of obs = c}"
      using assms(1) unfolding consistent_reports_def by (elim conjE) (erule spec)
    moreover have "local_norm_of x = c" "local_norm_of y = c" "ta_addr_index ta (ob_local_ip x) = Some a"
      "ta_addr_index ta (ob_local_ip y) = Some b" using that(3,4) by (simp_all split: if_splits)
    ultimately show ?thesis using that(1,2) unfolding agree_def assms(2) by blast
  qed
  have "agree ?f (set os)" unfolding agree_def by (intro ballI allI impI) (rule same)
  from find_map_agree [OF assms(2) this]
  show "chassis_to_identity (ta\<lparr>ta_observations := os\<rparr>) c = chassis_to_identity ta c"
    unfolding chassis_to_identity_claims indexes_kept .
qed

lemma endpoint_obs_names:
  assumes "o' \<in> set (endpoint_obs c (at_key k (sightings ta)))"
  shows "eo_chassis_id o' \<in> chassis_names ta c"
proof -
  obtain obs n where obs: "obs \<in> set (ta_observations ta)" "n \<in> set (reported obs)"
    and o: "o' = si_loc (sighting obs n) \<or> o' = si_rem (sighting obs n)" and c: "eo_chassis_norm o' = c"
    using assms by (auto simp: endpoint_obs_def at_key_def sightings_def sightings_of_reported)
  have "n \<in> set (ob_neighbors obs)" using obs(2) by (simp add: reported_def)
  from o show ?thesis
  proof
    assume "o' = si_loc (sighting obs n)"
    then show ?thesis using obs(1) c by (auto simp: chassis_names_def sighting_def local_endpoint_def)
  next
    assume "o' = si_rem (sighting obs n)"
    then have "eo_chassis_id o' = nb_remote_chassis_id n" "neighbor_norm n = c"
      using c by (simp_all add: sighting_def remote_endpoint_def)
    then show ?thesis using obs(1) \<open>n \<in> set (ob_neighbors obs)\<close> unfolding chassis_names_def by blast
  qed
qed

lemma expected_endpoint_order:
  assumes con: "consistent_reports ta" and obs: "set os = set (ta_observations ta)"
    and ends: "set xs = set (endpoint_obs c (at_key k (sightings ta)))" "xs \<noteq> []"
  shows "expected_endpoint (ta\<lparr>ta_observations := os\<rparr>) c xs = expected_endpoint ta c (endpoint_obs c (at_key k (sightings ta)))"
proof -
  let ?ys = "endpoint_obs c (at_key k (sightings ta))"
  have a: "agree (\<lambda>o'. Some (eo_chassis_id o', eo_subtype o')) (set xs)" "agree eo_sys_name (set xs)"
    "agree own_port (set xs)" "agree heard_port (set xs)"
    using con [unfolded consistent_reports_def Let_def, THEN conjunct1, THEN spec, of k, THEN spec, of c]
    unfolding ends(1) by simp_all
  have "?ys \<noteq> []" using ends by (metis set_empty)
  then have "hd xs \<in> set xs" and "hd ?ys \<in> set xs" using ends(2) by (simp, simp add: ends(1))
  from a(1) [unfolded agree_def, THEN bspec, OF this(1), THEN bspec, OF this(2)]
  have hd: "eo_chassis_id (hd xs) = eo_chassis_id (hd ?ys)" "eo_subtype (hd xs) = eo_subtype (hd ?ys)" by simp_all
  note name = find_map_agree [OF ends(1) a(2)] and own = find_map_agree [OF ends(1) a(3)]
  have port: "or_else (find_map own_port xs) (find_map eo_port xs) = or_else (find_map own_port ?ys) (find_map eo_port ?ys)"
  proof (cases "find_map own_port xs")
    case None
    then have heard: "heard_port x = eo_port x" if "x \<in> set xs" for x
      using that by (auto simp: own_port_def heard_port_def split: if_splits)
    have "agree eo_port (set xs)" using a(4) unfolding agree_def by (simp add: heard)
    from find_map_agree [OF ends(1) this] show ?thesis using own by simp
  qed (use own in simp)
  have "resolve_identity (ta\<lparr>ta_observations := os\<rparr>) = resolve_identity ta"
    unfolding resolve_identity_def indexes_kept ..
  then show ?thesis
    by (simp add: expected_endpoint_def hd name port chassis_to_identity_order [OF con obs])
qed

lemma endpoint_obs_set: "set ss = set ss' \<Longrightarrow> set (endpoint_obs c ss) = set (endpoint_obs c ss')"
  by (simp add: endpoint_obs_def)

lemma list_all2_map_self: "(\<And>x. x \<in> set xs \<Longrightarrow> P x (f x)) \<Longrightarrow> list_all2 P xs (map f xs)"
  by (simp add: list_all2_map2 list_all2_same)

lemma expected_link_names:
  assumes "k \<in> si_key ` set (sightings ta)"
  shows "le_chassis_id (lr_a (expected_link ta k)) \<in> chassis_names ta (fst k)"
    "le_chassis_id (lr_b (expected_link ta k)) \<in> chassis_names ta (snd k)"
proof -
  have "eo_chassis_id (hd (endpoint_obs c (at_key k (sightings ta)))) \<in> chassis_names ta c" if "c = fst k \<or> c = snd k" for c
    using hd_in_set [OF endpoint_obs_key [OF assms that]] by (rule endpoint_obs_names)
  then show "le_chassis_id (lr_a (expected_link ta k)) \<in> chassis_names ta (fst k)"
    "le_chassis_id (lr_b (expected_link ta k)) \<in> chassis_names ta (snd k)"
    by (simp_all add: expected_link_def expected_endpoint_def Let_def)
qed

lemma expected_link_order:
  assumes con: "consistent_reports ta" and obs: "set os = set (ta_observations ta)" and k: "k \<in> si_key ` set (sightings ta)"
  shows "expected_link (ta\<lparr>ta_observations := os\<rparr>) k = expected_link ta k"
proof -
  let ?ta' = "ta\<lparr>ta_observations := os\<rparr>"
  have s: "set (sightings ?ta') = set (sightings ta)" using obs by (simp add: sightings_def)
  then have at: "set (at_key k (sightings ?ta')) = set (at_key k (sightings ta))" by (simp add: at_key_def)
  have "expected_endpoint ?ta' c (endpoint_obs c (at_key k (sightings ?ta'))) =
      expected_endpoint ta c (endpoint_obs c (at_key k (sightings ta)))" if "c = fst k \<or> c = snd k" for c
    using endpoint_obs_key [of k ?ta' c] k s that
    by (intro expected_endpoint_order [OF con obs endpoint_obs_set [OF at]]) simp
  then show ?thesis using at by (simp add: expected_link_def Let_def)
qed

text \<open>C16: The order in which devices answered does not change which links are found: permuting the collected
  observations gives links for the same chassis pairs in the same order, each end carrying an
  identifier reported for its chassis, with the same source lists and times. When the devices do not
  contradict each other the links are the same altogether, ports, names and identities included.\<close>

theorem topology_completion_order:
  assumes "permutes visit" "permutes visit'" "mset os = mset (ta_observations ta)"
  shows "\<exists>pairs links links'.
    topology_finish visit ta = Some links \<and> topology_finish visit' (ta\<lparr>ta_observations := os\<rparr>) = Some links' \<and>
    (\<lambda>(a, b). {a, b}) ` set pairs = link_pairs ta \<and> distinct pairs \<and>
    list_all2 (\<lambda>(a, b) l. le_chassis_id (lr_a l) \<in> chassis_names ta a \<and> le_chassis_id (lr_b l) \<in> chassis_names ta b) pairs links \<and>
    list_all2 (\<lambda>(a, b) l. le_chassis_id (lr_a l) \<in> chassis_names ta a \<and> le_chassis_id (lr_b l) \<in> chassis_names ta b) pairs links' \<and>
    map (\<lambda>l. (lr_discovered_via l, lr_observed_at l)) links = map (\<lambda>l. (lr_discovered_via l, lr_observed_at l)) links' \<and>
    (consistent_reports ta \<longrightarrow> links = links')"
proof -
  let ?ta' = "ta\<lparr>ta_observations := os\<rparr>"
  let ?pairs = "sorted_list_of_set (si_key ` set (sightings ta))"
  have obs: "set os = set (ta_observations ta)" using assms(3) by (rule mset_eq_setD)
  then have s: "set (sightings ?ta') = set (sightings ta)" by (simp add: sightings_def)
  have names: "chassis_names ?ta' = chassis_names ta" using obs by (intro ext) (simp add: chassis_names_def)
  have pairs: "set ?pairs = si_key ` set (sightings ta)" by simp
  have fin: "topology_finish visit ta = Some (map (expected_link ta) ?pairs)"
    "topology_finish visit' ?ta' = Some (map (expected_link ?ta') ?pairs)"
    using topology_finish_expected [OF assms(1), of ta] topology_finish_expected [OF assms(2), of ?ta'] s by simp_all
  have ends: "list_all2 (\<lambda>(a, b) l. le_chassis_id (lr_a l) \<in> chassis_names ta a \<and> le_chassis_id (lr_b l) \<in> chassis_names ta b)
      ?pairs (map (expected_link ta'') ?pairs)" if "ta'' = ta \<or> ta'' = ?ta'" for ta''
  proof (rule list_all2_map_self)
    fix k assume k: "k \<in> set ?pairs"
    have "k \<in> si_key ` set (sightings ta'')" "chassis_names ta'' = chassis_names ta" using that k pairs s names by auto
    then show "(\<lambda>(a, b) l. le_chassis_id (lr_a l) \<in> chassis_names ta a \<and> le_chassis_id (lr_b l) \<in> chassis_names ta b)
        k (expected_link ta'' k)"
      using expected_link_names [of k ta''] by (simp add: split_beta)
  qed
  have at: "set (at_key k (sightings ?ta')) = set (at_key k (sightings ta))" for k using s by (simp add: at_key_def)
  have times: "map (\<lambda>l. (lr_discovered_via l, lr_observed_at l)) (map (expected_link ta) ?pairs) =
      map (\<lambda>l. (lr_discovered_via l, lr_observed_at l)) (map (expected_link ?ta') ?pairs)"
    by (simp add: expected_link_def Let_def comp_def at)
  have eq: "map (expected_link ta) ?pairs = map (expected_link ?ta') ?pairs" if "consistent_reports ta"
    using expected_link_order [OF that obs] by (intro map_cong refl) (simp add: pairs)
  have "(\<lambda>(a, b). {a, b}) ` set ?pairs = link_pairs ta" unfolding link_pairs_keys pairs ..
  then show ?thesis
    using fin ends [of ta] ends [of ?ta'] times eq
    by (intro exI [of _ ?pairs] exI [of _ "map (expected_link ta) ?pairs"] exI [of _ "map (expected_link ?ta') ?pairs"]) simp
qed

lemma two_ended_consistent: "consistent_reports two_ended"
proof -
  have n: "normalize_chassis 7 ''a'' = ''a''" "normalize_chassis 7 ''b'' = ''b''"
    by (simp_all add: normalize_chassis_def CHASSIS_SUBTYPE_MAC_def to_ascii_lowercase_def trim_def
        is_whitespace_def to_ascii_lower_char_def)
  have ports: "non_empty ''p1'' = Some ''p1''" "non_empty ''p2'' = Some ''p2''" "non_empty ''x'' = Some ''x''" "non_empty ''y'' = Some ''y''"
    by (simp_all add: non_empty_def trim_def is_whitespace_def)
  have obs: "set (endpoint_obs c (at_key k (sightings two_ended))) \<subseteq>
    (if c = ''a'' then {\<lparr>eo_chassis_norm = ''a'', eo_chassis_id = ''a'', eo_subtype = 7, eo_port = Some ''p1'', eo_port_authoritative = True, eo_sys_name = None\<rparr>,
       \<lparr>eo_chassis_norm = ''a'', eo_chassis_id = ''a'', eo_subtype = 7, eo_port = Some ''y'', eo_port_authoritative = False, eo_sys_name = None\<rparr>}
     else {\<lparr>eo_chassis_norm = ''b'', eo_chassis_id = ''b'', eo_subtype = 7, eo_port = Some ''p2'', eo_port_authoritative = True, eo_sys_name = None\<rparr>,
       \<lparr>eo_chassis_norm = ''b'', eo_chassis_id = ''b'', eo_subtype = 7, eo_port = Some ''x'', eo_port_authoritative = False, eo_sys_name = None\<rparr>})" for c k
    by (auto simp: endpoint_obs_def at_key_def sightings_def sightings_of_reported reported_def sighting_def local_norm_of_def
        neighbor_norm_def local_endpoint_def remote_endpoint_def two_ended_def topology_new_def n ports split: if_splits)
  have sub: "agree f B \<Longrightarrow> A \<subseteq> B \<Longrightarrow> agree f A" for f :: "EndpointObservation \<Rightarrow> 'x option" and A B
    unfolding agree_def by blast
  show ?thesis
    unfolding consistent_reports_def Let_def
    by (intro conjI allI sub [OF _ obs]) (simp_all add: agree_def own_port_def heard_port_def two_ended_def topology_new_def)
qed

theorem topology_completion_order_witness:
  "topology_finish rev two_ended = topology_finish (\<lambda>xs. xs) (two_ended\<lparr>ta_observations := rev (ta_observations two_ended)\<rparr>)"
  using topology_completion_order [of rev "\<lambda>xs. xs" "rev (ta_observations two_ended)" two_ended] two_ended_consistent by auto

section \<open>Attribution\<close>

text \<open>C17: After any sequence of emitted records, an address, MAC or system name is attributed to the first
  record that carried it, and to no record when none did.\<close>

theorem observe_records_first_wins:
  "let ta = foldl observe_record (topology_new metadata) rs in
   ta_addr_index ta ip = find_map (\<lambda>r. if ip \<in> record_addresses r then Some (record_identity r) else None) rs \<and>
   ta_mac_index ta mac = find_map (\<lambda>r. if mac \<in> record_macs r then Some (record_identity r) else None) rs \<and>
   ta_sys_name_index ta name = find_map (\<lambda>r. if name \<in> record_names r then Some (record_identity r) else None) rs"
  by (simp add: Let_def observe_records_first topology_new_def claims_def)

end
