(* ===== verification/Scheduler.thy ===== *)
theory Scheduler
  imports Device_Model
begin

text \<open>
  The bounded scheduler of \<^verbatim>\<open>scheduler/mod.rs\<close>: the lazy feed of probe starts, the priming loop, and one
  iteration of the join loop as a function of what the environment decides (which task finishes and with
  what result, whether a cancellation is seen, whether the receiver still listens). A run of the join
  loop is the step relation \<^verbatim>\<open>joins\<close>. The task set of the runtime is a list of tasks with fresh
  identifiers; a missing key, an index out of range or a failed \<^verbatim>\<open>expect\<close> is \<^verbatim>\<open>None\<close>.

  Probers and targets are type variables: the scheduler only passes them on. The pacer is at the end.
\<close>

section \<open>The feed\<close>

record 't Feed =
  fd_targets :: "'t list"
  fd_num_probers :: nat
  fd_next_target_index :: nat
  fd_current :: "(nat \<times> nat) option"

definition feed_new :: "'t list \<Rightarrow> nat \<Rightarrow> 't Feed" where
  "feed_new targets num_probers =
     \<lparr>fd_targets = targets, fd_num_probers = num_probers, fd_next_target_index = 0, fd_current = None\<rparr>"

function feed_next ::
  "'t Feed \<Rightarrow> (nat \<rightharpoonup> 't) \<Rightarrow> (nat \<times> nat) option \<times> 't Feed \<times> (nat \<rightharpoonup> 't)" where
  "feed_next feed target_map =
     (case (case fd_current feed of
              Some (target_index, next_pass) \<Rightarrow>
                if next_pass < fd_num_probers feed then Some (next_pass, target_index) else None
            | None \<Rightarrow> None) of
        Some (next_pass, target_index) \<Rightarrow>
          (Some (next_pass, target_index), feed\<lparr>fd_current := Some (target_index, next_pass + 1)\<rparr>, target_map)
      | None \<Rightarrow>
          (case fd_targets feed of
             [] \<Rightarrow> (None, feed, target_map)
           | target # rest \<Rightarrow>
               feed_next
                 (feed\<lparr>fd_targets := rest, fd_next_target_index := fd_next_target_index feed + 1,
                       fd_current := Some (fd_next_target_index feed, 0)\<rparr>)
                 (target_map(fd_next_target_index feed \<mapsto> target))))"
  by pat_completeness auto
termination
  by (relation "measure (\<lambda>(feed, _). length (fd_targets feed))") auto

declare feed_next.simps [simp del]

section \<open>The scan\<close>

type_synonym probe_result = "ProbeOutcome result"

record TargetScan =
  ts_target_index :: nat
  ts_outcomes :: "(nat \<times> probe_result) list"

record PartialTarget =
  pt_outcomes :: "probe_result option list"
  pt_completed :: nat

datatype ('p, 't) Task = Task (task_id: nat) (task_prober: 'p) (task_target: 't)

datatype Joined = Finished probe_result | Panicked | Aborted

record ('p, 't) Scan =
  sc_feed :: "'t Feed"
  sc_target_map :: "nat \<rightharpoonup> 't"
  sc_set :: "('p, 't) Task list"
  sc_next_id :: nat
  sc_coord_by_id :: "nat \<rightharpoonup> nat \<times> nat"
  sc_live :: "nat \<rightharpoonup> PartialTarget"
  sc_results :: "TargetScan list"
  sc_stopped :: bool

definition scan_new :: "'p list \<Rightarrow> 't list \<Rightarrow> ('p, 't) Scan" where
  "scan_new probers targets =
     \<lparr>sc_feed = feed_new targets (length probers), sc_target_map = Map.empty, sc_set = [], sc_next_id = 0,
      sc_coord_by_id = Map.empty, sc_live = Map.empty, sc_results = [], sc_stopped = False\<rparr>"

definition spawn_probe :: "nat \<Rightarrow> nat \<Rightarrow> 'p \<Rightarrow> 't \<Rightarrow> ('p, 't) Scan \<Rightarrow> ('p, 't) Scan" where
  "spawn_probe pass_index target_index prober target sc =
     sc\<lparr>sc_set := sc_set sc @ [Task (sc_next_id sc) prober target],
        sc_coord_by_id := (sc_coord_by_id sc)(sc_next_id sc \<mapsto> (pass_index, target_index)),
        sc_next_id := sc_next_id sc + 1\<rparr>"

text \<open>\<^verbatim>\<open>feed.next\<close> followed by \<^verbatim>\<open>spawn_probe\<close>, as both loops do it; \<^verbatim>\<open>False\<close> says the feed has ended.\<close>

definition feed_spawn :: "'p list \<Rightarrow> ('p, 't) Scan \<Rightarrow> (bool \<times> ('p, 't) Scan) option" where
  "feed_spawn probers sc =
     (case feed_next (sc_feed sc) (sc_target_map sc) of
        (None, feed, target_map) \<Rightarrow> Some (False, sc\<lparr>sc_feed := feed, sc_target_map := target_map\<rparr>)
      | (Some (pass_index, target_index), feed, target_map) \<Rightarrow>
          if pass_index < length probers
          then (case target_map target_index of
                  None \<Rightarrow> None
                | Some target \<Rightarrow>
                    Some (True, spawn_probe pass_index target_index (probers ! pass_index) target
                                  (sc\<lparr>sc_feed := feed, sc_target_map := target_map\<rparr>)))
          else None)"

fun prime :: "'p list \<Rightarrow> bool list \<Rightarrow> nat \<Rightarrow> ('p, 't) Scan \<Rightarrow> ('p, 't) Scan option" where
  "prime probers cancels 0 sc = Some sc"
| "prime probers cancels (Suc n) sc =
     (if cancels \<noteq> [] \<and> hd cancels then Some sc
      else case feed_spawn probers sc of
             None \<Rightarrow> None
           | Some (False, sc') \<Rightarrow> Some sc'
           | Some (True, sc') \<Rightarrow> prime probers (tl cancels) n sc')"

fun joined_outcome :: "Joined \<Rightarrow> probe_result" where
  "joined_outcome (Finished r) = r"
| "joined_outcome Panicked = Inl (ERuntime (TaskPanicked ''prober task panicked''))"
| "joined_outcome Aborted = Inl (ERuntime (TaskPanicked ''prober task cancelled''))"

text \<open>Recording a finished probe: the first of a target allocates its slots, the last one drops the target.\<close>

definition record_outcome :: "nat \<Rightarrow> nat \<Rightarrow> probe_result \<Rightarrow> ('p, 't) Scan \<Rightarrow> (nat option \<times> ('p, 't) Scan) option" where
  "record_outcome tid num_probers outcome sc =
     (case sc_coord_by_id sc tid of
        None \<Rightarrow> Some (None, sc)
      | Some (pass_index, target_index) \<Rightarrow>
          (let sc = sc\<lparr>sc_coord_by_id := (sc_coord_by_id sc)(tid := None)\<rparr>;
               entry = (case sc_live sc target_index of
                          Some entry \<Rightarrow> entry
                        | None \<Rightarrow> \<lparr>pt_outcomes = replicate num_probers None, pt_completed = 0\<rparr>)
           in if pass_index < length (pt_outcomes entry)
              then let entry = entry\<lparr>pt_outcomes := (pt_outcomes entry)[pass_index := Some outcome],
                                     pt_completed := pt_completed entry + 1\<rparr>;
                       sc = sc\<lparr>sc_live := (sc_live sc)(target_index \<mapsto> entry)\<rparr>
                   in if pt_completed entry = num_probers
                      then Some (Some target_index, sc\<lparr>sc_target_map := (sc_target_map sc)(target_index := None)\<rparr>)
                      else Some (None, sc)
              else None))"

definition send_target :: "bool \<Rightarrow> nat \<Rightarrow> ('p, 't) Scan \<Rightarrow> ('p, 't) Scan option" where
  "send_target receiver_alive target_index sc =
     (case sc_live sc target_index of
        None \<Rightarrow> None
      | Some entry \<Rightarrow>
          (let sc = sc\<lparr>sc_live := (sc_live sc)(target_index := None)\<rparr> in
           case those (pt_outcomes entry) of
             None \<Rightarrow> None
           | Some outcomes \<Rightarrow>
               Some (if receiver_alive
                     then sc\<lparr>sc_results := sc_results sc @
                            [\<lparr>ts_target_index = target_index, ts_outcomes = enumerate 0 outcomes\<rparr>]\<rparr>
                     else sc\<lparr>sc_stopped := True\<rparr>)))"

definition join_step ::
  "'p list \<Rightarrow> nat \<Rightarrow> Joined \<Rightarrow> bool \<Rightarrow> bool \<Rightarrow> ('p, 't) Scan \<Rightarrow> ('p, 't) Scan option" where
  "join_step probers tid joined cancelled receiver_alive sc =
     (let sc = sc\<lparr>sc_set := filter (\<lambda>task. task_id task \<noteq> tid) (sc_set sc)\<rparr> in
      case record_outcome tid (length probers) (joined_outcome joined) sc of
        None \<Rightarrow> None
      | Some (ready_target, sc) \<Rightarrow>
          (case (if cancelled then Some sc else map_option snd (feed_spawn probers sc)) of
             None \<Rightarrow> None
           | Some sc \<Rightarrow>
               (case ready_target of
                  None \<Rightarrow> Some sc
                | Some target_index \<Rightarrow> send_target receiver_alive target_index sc)))"

definition bounded_max_concurrent :: "nat \<Rightarrow> nat" where
  "bounded_max_concurrent max_concurrent = max max_concurrent 1"

definition scan_start :: "'p list \<Rightarrow> 't list \<Rightarrow> bool list \<Rightarrow> nat \<Rightarrow> ('p, 't) Scan option" where
  "scan_start probers targets cancels max_concurrent =
     (if probers = [] then Some ((scan_new probers targets)\<lparr>sc_stopped := True\<rparr>)
      else prime probers cancels (bounded_max_concurrent max_concurrent) (scan_new probers targets))"

text \<open>What the environment decides in one iteration: the task that finishes, its result, whether a
  cancellation is seen, and whether the receiver is still there.\<close>

record JoinEvent =
  je_task :: nat
  je_joined :: Joined
  je_cancelled :: bool
  je_receiver_alive :: bool

text \<open>Runs of the join loop, with the events that happened.\<close>

inductive joins :: "'p list \<Rightarrow> ('p, 't) Scan \<Rightarrow> JoinEvent list \<Rightarrow> ('p, 't) Scan \<Rightarrow> bool"
  for probers :: "'p list" where
  joins_refl: "joins probers sc [] sc"
| joins_step: "joins probers sc es sc1 \<Longrightarrow> \<not> sc_stopped sc1 \<Longrightarrow> je_task e \<in> task_id ` set (sc_set sc1) \<Longrightarrow>
     join_step probers (je_task e) (je_joined e) (je_cancelled e) (je_receiver_alive e) sc1 = Some sc2 \<Longrightarrow>
     joins probers sc (es @ [e]) sc2"

section \<open>The pacer\<close>

record Pacer =
  pc_interval :: nat
  pc_next_start :: "nat option"

text \<open>\<^verbatim>\<open>Duration::from_secs_f64\<close> rounds to the nearest nanosecond; it panics on what is no duration.\<close>

fun duration_from_secs_f64 :: "f64 \<Rightarrow> nat option" where
  "duration_from_secs_f64 (Fin secs) = (if secs < 0 then None else Some (nat (round_half_even (secs * 10 ^ 9))))"
| "duration_from_secs_f64 _ = None"

definition from_rate :: "u32 \<Rightarrow> Pacer option" where
  "from_rate rate =
     (if rate = 0 then None
      else map_option (\<lambda>interval. \<lparr>pc_interval = interval, pc_next_start = None\<rparr>)
             (duration_from_secs_f64 (round64 (1 / of_nat (unat rate)))))"

definition wait_for_slot :: "nat \<Rightarrow> Pacer \<Rightarrow> nat \<times> Pacer" where
  "wait_for_slot now p =
     (let scheduled = (case pc_next_start p of Some t \<Rightarrow> if t > now then t else now | None \<Rightarrow> now)
      in (scheduled, p\<lparr>pc_next_start := Some (scheduled + pc_interval p)\<rparr>))"

section \<open>The abstract scan\<close>

text \<open>Probe starts are numbered in the order they happen, and start \<^verbatim>\<open>i\<close> is prober \<^verbatim>\<open>i mod N\<close> on target \<^verbatim>\<open>i div N\<close>.
  The whole state is determined by how many probes were started and by the results that came back.\<close>

definition block :: "nat \<Rightarrow> (nat \<rightharpoonup> probe_result) \<Rightarrow> nat \<Rightarrow> probe_result option list" where
  "block N res t = map (\<lambda>p. res (t * N + p)) [0..<N]"

definition answered :: "nat \<Rightarrow> (nat \<rightharpoonup> probe_result) \<Rightarrow> nat \<Rightarrow> bool" where
  "answered N res t \<longleftrightarrow> (\<forall>p < N. res (t * N + p) \<noteq> None)"

definition touched :: "nat \<Rightarrow> (nat \<rightharpoonup> probe_result) \<Rightarrow> nat \<Rightarrow> bool" where
  "touched N res t \<longleftrightarrow> (\<exists>p < N. res (t * N + p) \<noteq> None)"

definition scan_of :: "nat \<Rightarrow> (nat \<rightharpoonup> probe_result) \<Rightarrow> nat \<Rightarrow> TargetScan" where
  "scan_of N res t = \<lparr>ts_target_index = t, ts_outcomes = enumerate 0 (map the (block N res t))\<rparr>"

definition partial_of :: "nat \<Rightarrow> (nat \<rightharpoonup> probe_result) \<Rightarrow> nat \<Rightarrow> PartialTarget" where
  "partial_of N res t = \<lparr>pt_outcomes = block N res t, pt_completed = length (filter (\<lambda>r. r \<noteq> None) (block N res t))\<rparr>"

definition feed_at :: "nat \<Rightarrow> 't list \<Rightarrow> nat \<Rightarrow> 't Feed \<Rightarrow> bool" where
  "feed_at N T m feed \<longleftrightarrow> (let k = fd_next_target_index feed in
     fd_num_probers feed = N \<and> fd_targets feed = drop k T \<and> k \<le> length T \<and> m \<le> k * N \<and>
     (if k = 0 then fd_current feed = None
      else (k - 1) * N < m \<and> fd_current feed = Some (k - 1, m - (k - 1) * N)))"

text \<open>The part of the state about starts, and the part about results.\<close>

definition starts :: "'p list \<Rightarrow> 't list \<Rightarrow> nat \<Rightarrow> (nat \<rightharpoonup> probe_result) \<Rightarrow> ('p, 't) Scan \<Rightarrow> bool" where
  "starts P T m res sc \<longleftrightarrow> feed_at (length P) T m (sc_feed sc) \<and> sc_next_id sc = m \<and> dom res \<subseteq> {..<m} \<and>
     sc_set sc = map (\<lambda>i. Task i (P ! (i mod length P)) (T ! (i div length P))) (filter (\<lambda>i. res i = None) [0..<m]) \<and>
     sc_coord_by_id sc = (\<lambda>i. if i < m \<and> res i = None then Some (i mod length P, i div length P) else None) \<and>
     sc_target_map sc = (\<lambda>t. if t < fd_next_target_index (sc_feed sc) \<and> \<not> answered (length P) res t then Some (T ! t) else None)"

definition gathered :: "nat \<Rightarrow> (nat \<rightharpoonup> probe_result) \<Rightarrow> ('p, 't) Scan \<Rightarrow> bool" where
  "gathered N res sc \<longleftrightarrow>
     sc_live sc = (\<lambda>t. if touched N res t \<and> \<not> answered N res t then Some (partial_of N res t) else None) \<and>
     (\<exists>ts. sc_results sc = map (scan_of N res) ts \<and> distinct ts \<and> set ts \<subseteq> {t. answered N res t} \<and>
        (\<not> sc_stopped sc \<longrightarrow> set ts = {t. answered N res t}))"

lemma feed_next_at:
  assumes "0 < N" "feed_at N T m feed"
  shows "(if m = N * length T then feed_next feed tm = (None, feed, tm)
    else \<exists>feed'. feed_next feed tm = (Some (m mod N, m div N), feed',
             if m mod N = 0 then tm(m div N \<mapsto> T ! (m div N)) else tm) \<and>
           feed_at N T (Suc m) feed' \<and> m < N * length T \<and>
           fd_next_target_index feed' = Suc (m div N) \<and> fd_next_target_index feed = (if m mod N = 0 then m div N else Suc (m div N)))"
proof -
  define k where "k = fd_next_target_index feed"
  have f: "fd_num_probers feed = N" "fd_targets feed = drop k T" "k \<le> length T" "m \<le> k * N"
    "k = 0 \<Longrightarrow> fd_current feed = None" "0 < k \<Longrightarrow> (k - 1) * N < m \<and> fd_current feed = Some (k - 1, m - (k - 1) * N)"
    using assms(2) by (auto simp: feed_at_def k_def Let_def split: if_splits)
  show ?thesis
  proof (cases "m < k * N")
    case True
    then have k: "0 < k" by (cases k) auto
    define p where "p = m - (k - 1) * N"
    have kN: "k * N = (k - 1) * N + N" using k by (cases k) auto
    have m: "m = (k - 1) * N + p" "p < N" "0 < p" using f(6) [OF k] True kN by (auto simp: p_def)
    then have dm: "m div N = k - 1" "m mod N = p" using assms(1) by simp_all
    have lt: "m < N * length T" using True f(3) by (metis mult.commute mult_le_mono1 order_less_le_trans)
    have "feed_next feed tm = (Some (p, k - 1), feed\<lparr>fd_current := Some (k - 1, p + 1)\<rparr>, tm)"
      using f(6) [OF k] f(1) m(2) by (subst feed_next.simps) (simp add: p_def)
    moreover have "feed_at N T (Suc m) (feed\<lparr>fd_current := Some (k - 1, p + 1)\<rparr>)"
      using assms(2) k True m by (auto simp: feed_at_def k_def Let_def)
    ultimately show ?thesis using dm m(3) lt k by (auto simp: k_def)
  next
    case False
    then have m: "m = k * N" using f(4) by simp
    have none: "(case fd_current feed of Some (t, np) \<Rightarrow> if np < fd_num_probers feed then Some (np, t) else None | None \<Rightarrow> None) = None"
    proof (cases "k = 0")
      case False
      then have "m - (k - 1) * N = N" using m by (cases k) auto
      then show ?thesis using f(6) False f(1) by simp
    qed (use f(5) in simp)
    show ?thesis
    proof (cases "k = length T")
      case True
      then show ?thesis using m none f(2) by (subst feed_next.simps) (simp add: mult.commute)
    next
      case False
      then have k: "k < length T" using f(3) by simp
      let ?feed = "feed\<lparr>fd_targets := drop (Suc k) T, fd_next_target_index := Suc k, fd_current := Some (k, 0)\<rparr>"
      have "feed_next feed tm = feed_next ?feed (tm(k \<mapsto> T ! k))"
        using none f(2) k by (subst feed_next.simps) (simp add: Cons_nth_drop_Suc [symmetric] k_def [symmetric])
      also have "\<dots> = (Some (0, k), ?feed\<lparr>fd_current := Some (k, 1)\<rparr>, tm(k \<mapsto> T ! k))"
        using assms(1) f(1) by (subst feed_next.simps) simp
      finally have "feed_next feed tm = (Some (0, k), ?feed\<lparr>fd_current := Some (k, 1)\<rparr>, tm(k \<mapsto> T ! k))" .
      moreover have "feed_at N T (Suc m) (?feed\<lparr>fd_current := Some (k, 1)\<rparr>)"
        using m k assms(1) f(1) by (simp add: feed_at_def Let_def)
      moreover have "m \<noteq> N * length T" "m < N * length T" using m k assms(1) by (simp_all add: mult.commute)
      ultimately show ?thesis using m assms(1) by (simp add: k_def)
    qed
  qed
qed

lemma open_block: "0 < N \<Longrightarrow> res m = None \<Longrightarrow> \<not> answered N res (m div N)"
  unfolding answered_def by (metis div_mult_mod_eq mod_less_divisor)

lemma feed_spawn_starts:
  assumes "P \<noteq> []" "starts P T m res sc"
  shows "if m = length P * length T then feed_spawn P sc = Some (False, sc)
    else \<exists>sc'. feed_spawn P sc = Some (True, sc') \<and> starts P T (Suc m) res sc' \<and> m < length P * length T \<and>
      sc_live sc' = sc_live sc \<and> sc_results sc' = sc_results sc \<and> sc_stopped sc' = sc_stopped sc"
proof -
  let ?N = "length P"
  have N: "0 < ?N" using assms(1) by simp
  have s: "feed_at ?N T m (sc_feed sc)" "dom res \<subseteq> {..<m}" "sc_next_id sc = m"
    "sc_target_map sc = (\<lambda>t. if t < fd_next_target_index (sc_feed sc) \<and> \<not> answered ?N res t then Some (T ! t) else None)"
    using assms(2) by (simp_all add: starts_def)
  note next_at = feed_next_at [OF N s(1), of "sc_target_map sc"]
  show ?thesis
  proof (cases "m = ?N * length T")
    case True
    then show ?thesis using next_at by (simp add: feed_spawn_def)
  next
    case False
    let ?tm = "if m mod ?N = 0 then (sc_target_map sc)(m div ?N \<mapsto> T ! (m div ?N)) else sc_target_map sc"
    obtain feed' where f: "feed_next (sc_feed sc) (sc_target_map sc) = (Some (m mod ?N, m div ?N), feed', ?tm)"
      "feed_at ?N T (Suc m) feed'" "m < ?N * length T" "fd_next_target_index feed' = Suc (m div ?N)"
      "fd_next_target_index (sc_feed sc) = (if m mod ?N = 0 then m div ?N else Suc (m div ?N))"
      using next_at False by auto
    have "res m = None" using s(2) by auto
    then have op: "\<not> answered ?N res (m div ?N)" by (rule open_block [OF N])
    have tm: "?tm = (\<lambda>t. if t < Suc (m div ?N) \<and> \<not> answered ?N res t then Some (T ! t) else None)"
      using f(5) op unfolding s(4) by (auto simp: less_Suc_eq)
    then have "?tm (m div ?N) = Some (T ! (m div ?N))" using op by simp
    then have "feed_spawn P sc = Some (True, spawn_probe (m mod ?N) (m div ?N) (P ! (m mod ?N)) (T ! (m div ?N))
        (sc\<lparr>sc_feed := feed', sc_target_map := ?tm\<rparr>))"
      using N f(1) by (simp add: feed_spawn_def)
    moreover have "starts P T (Suc m) res (spawn_probe (m mod ?N) (m div ?N) (P ! (m mod ?N)) (T ! (m div ?N))
        (sc\<lparr>sc_feed := feed', sc_target_map := ?tm\<rparr>))"
      using assms(2) f(2,4) \<open>res m = None\<close> tm unfolding starts_def
      by (auto simp: spawn_probe_def less_Suc_eq fun_eq_iff)
    ultimately show ?thesis using False f(3) by (auto simp: spawn_probe_def)
  qed
qed

lemma block_index: "p < (N :: nat) \<Longrightarrow> p' < N \<Longrightarrow> t * N + p = t' * N + p' \<longleftrightarrow> t = t' \<and> p = p'"
  by (metis add.commute div_mult_self3 div_less add_right_imp_eq mult_eq_0_iff not_less0 add_0)

lemma block_update:
  assumes "p < N"
  shows "block N (res(t * N + p \<mapsto> r)) t' = (if t' = t then (block N res t)[p := Some r] else block N res t')"
proof -
  have "(res(t * N + p \<mapsto> r)) (t' * N + q) = (if t' = t \<and> q = p then Some r else res (t' * N + q))" if "q < N" for q
    using block_index [OF assms that, of t t'] by auto
  then show ?thesis by (auto simp: block_def nth_list_update intro!: nth_equalityI)
qed

lemma length_block [simp]: "length (block N res t) = N"
  by (simp add: block_def)

lemma block_nth [simp]: "p < N \<Longrightarrow> block N res t ! p = res (t * N + p)"
  by (simp add: block_def)

lemma answered_block: "answered N res t \<longleftrightarrow> length (filter (\<lambda>r. r \<noteq> None) (block N res t)) = N"
proof -
  have "answered N res t \<longleftrightarrow> (\<forall>r \<in> set (block N res t). r \<noteq> None)" by (auto simp: answered_def block_def)
  also have "\<dots> \<longleftrightarrow> filter (\<lambda>r. r \<noteq> None) (block N res t) = block N res t" by (simp add: filter_id_conv)
  also have "\<dots> \<longleftrightarrow> length (filter (\<lambda>r. r \<noteq> None) (block N res t)) = N"
    by (metis length_block length_filter_less filter_id_conv less_irrefl)
  finally show ?thesis .
qed

lemma untouched_block: "\<not> touched N res t \<Longrightarrow> block N res t = replicate N None"
  by (auto simp: touched_def intro!: nth_equalityI)

lemma filter_update_None:
  "p < length xs \<Longrightarrow> xs ! p = None \<Longrightarrow>
   length (filter (\<lambda>r. r \<noteq> None) (xs[p := Some r])) = Suc (length (filter (\<lambda>r. r \<noteq> None) xs))"
  by (induction xs arbitrary: p) (auto split: nat.splits simp: nth_Cons')

lemma partial_of_update:
  assumes "p < N" "res (t * N + p) = None"
  shows "partial_of N (res(t * N + p \<mapsto> r)) t =
    \<lparr>pt_outcomes = (pt_outcomes (partial_of N res t))[p := Some r], pt_completed = pt_completed (partial_of N res t) + 1\<rparr>"
  using assms by (simp add: partial_of_def block_update filter_update_None del: not_None_eq)

lemma touched_update:
  assumes "p < N"
  shows "touched N (res(t * N + p \<mapsto> r)) t' \<longleftrightarrow> t' = t \<or> touched N res t'"
proof -
  have "touched N f t' \<longleftrightarrow> (\<exists>q < N. block N f t' ! q \<noteq> None)" for f by (auto simp: touched_def)
  then show ?thesis using assms by (auto simp: block_update nth_list_update)
qed

lemma answered_update: "p < N \<Longrightarrow> t' \<noteq> t \<Longrightarrow> answered N (res(t * N + p \<mapsto> r)) t' \<longleftrightarrow> answered N res t'"
  unfolding answered_block by (simp add: block_update)

section \<open>One iteration of the join loop\<close>

text \<open>After a result is recorded its target is in the table of live targets even when it is complete, until
  it is sent.\<close>

definition live_with :: "nat \<Rightarrow> (nat \<rightharpoonup> probe_result) \<Rightarrow> nat \<Rightarrow> nat \<rightharpoonup> PartialTarget" where
  "live_with N res t = (\<lambda>t'. if t' = t \<or> touched N res t' \<and> \<not> answered N res t' then Some (partial_of N res t') else None)"

lemma record_outcome_ok:
  fixes r :: probe_result
  assumes "P \<noteq> []" "starts P T m res sc" "gathered (length P) res sc" "i < m" "res i = None"
  defines "N \<equiv> length P" and "res' \<equiv> res(i \<mapsto> r)"
  shows "\<exists>sc'. record_outcome i N r (sc\<lparr>sc_set := filter (\<lambda>task. task_id task \<noteq> i) (sc_set sc)\<rparr>) =
      Some (if answered N res' (i div N) then Some (i div N) else None, sc') \<and>
    starts P T m res' sc' \<and> sc_live sc' = live_with N res' (i div N) \<and>
    sc_results sc' = sc_results sc \<and> sc_stopped sc' = sc_stopped sc"
proof -
  have N: "0 < N" using assms(1) by (simp add: N_def)
  let ?t = "i div N" and ?p = "i mod N"
  have i: "i = ?t * N + ?p" "?p < N" using N by simp_all
  have res': "res' = res(?t * N + ?p \<mapsto> r)" using i(1) by (simp add: res'_def)
  have free: "res (?t * N + ?p) = None" using assms(5) i(1) by simp
  have "\<not> answered N res ?t" by (rule open_block [OF N]) (rule assms(5))
  then have entry: "(case sc_live sc ?t of Some e \<Rightarrow> e | None \<Rightarrow> \<lparr>pt_outcomes = replicate N None, pt_completed = 0\<rparr>) = partial_of N res ?t"
    using assms(3) by (auto simp: gathered_def N_def [symmetric] partial_of_def untouched_block)
  define e where "e = partial_of N res' ?t"
  have e: "e = \<lparr>pt_outcomes = (pt_outcomes (partial_of N res ?t))[?p := Some r], pt_completed = pt_completed (partial_of N res ?t) + 1\<rparr>"
    unfolding e_def res' by (rule partial_of_update [OF i(2)]) (rule free)
  have full: "pt_completed e = N \<longleftrightarrow> answered N res' ?t" by (simp add: e_def partial_of_def answered_block)
  have blk: "block N res' t' = block N res t'" if "t' \<noteq> ?t" for t'
    unfolding res' by (subst block_update [OF i(2)]) (simp add: that)
  have ans: "answered N res' t' \<longleftrightarrow> answered N res t'" if "t' \<noteq> ?t" for t'
    unfolding res' by (rule answered_update [OF i(2) that])
  have tch: "touched N res' t' \<longleftrightarrow> t' = ?t \<or> touched N res t'" for t'
    unfolding res' by (rule touched_update [OF i(2)])
  have live: "(sc_live sc)(?t \<mapsto> e) = live_with N res' ?t"
  proof
    fix t'
    show "((sc_live sc)(?t \<mapsto> e)) t' = live_with N res' ?t t'"
    proof (cases "t' = ?t")
      case False
      then show ?thesis using assms(3) blk [OF False] ans [OF False]
        by (simp add: gathered_def live_with_def N_def [symmetric] tch partial_of_def)
    qed (simp add: live_with_def e_def)
  qed
  let ?sc = "sc\<lparr>sc_set := filter (\<lambda>task. task_id task \<noteq> i) (sc_set sc), sc_coord_by_id := (sc_coord_by_id sc)(i := None),
    sc_live := live_with N res' ?t,
    sc_target_map := (if answered N res' ?t then (sc_target_map sc)(?t := None) else sc_target_map sc)\<rparr>"
  have coord: "sc_coord_by_id sc i = Some (?p, ?t)" using assms(2,4,5) by (simp add: starts_def N_def)
  have "record_outcome i N r (sc\<lparr>sc_set := filter (\<lambda>task. task_id task \<noteq> i) (sc_set sc)\<rparr>) =
      Some (if answered N res' ?t then Some ?t else None, ?sc)"
    using coord entry e live full i(2) by (simp add: record_outcome_def Let_def partial_of_def)
  moreover have "filter (\<lambda>j. j \<noteq> i) (filter (\<lambda>j. res j = None) [0..<m]) = filter (\<lambda>j. res' j = None) [0..<m]"
    by (auto simp: res'_def intro!: filter_cong)
  then have "filter (\<lambda>task. task_id task \<noteq> i) (sc_set sc) =
      map (\<lambda>i. Task i (P ! (i mod N)) (T ! (i div N))) (filter (\<lambda>j. res' j = None) [0..<m])"
    using assms(2) by (simp add: starts_def N_def filter_map comp_def)
  moreover have "(sc_coord_by_id sc)(i := None) = (\<lambda>j. if j < m \<and> res' j = None then Some (j mod N, j div N) else None)"
    using assms(2) by (auto simp: starts_def N_def res'_def)
  moreover have "(if answered N res' ?t then (sc_target_map sc)(?t := None) else sc_target_map sc) =
      (\<lambda>t. if t < fd_next_target_index (sc_feed sc) \<and> \<not> answered N res' t then Some (T ! t) else None)"
    using assms(2) ans \<open>\<not> answered N res ?t\<close> unfolding starts_def N_def [symmetric] by (intro ext) (auto simp: fun_upd_def)
  moreover have "dom res' \<subseteq> {..<m}" using assms(2,4) by (auto simp: starts_def res'_def)
  ultimately show ?thesis using assms(2) unfolding starts_def N_def [symmetric] by simp
qed

lemma those_map_the: "\<forall>x \<in> set xs. x \<noteq> None \<Longrightarrow> those xs = Some (map the xs)"
  by (induction xs) auto

lemma answered_set: "answered N res t \<longleftrightarrow> (\<forall>x \<in> set (block N res t). x \<noteq> None)"
  by (auto simp: answered_def block_def)

lemma send_target_ok:
  assumes "sc_live sc = live_with N res t" "answered N res t"
  shows "send_target alive t sc =
    Some (sc\<lparr>sc_live := (\<lambda>t'. if touched N res t' \<and> \<not> answered N res t' then Some (partial_of N res t') else None),
      sc_results := (if alive then sc_results sc @ [scan_of N res t] else sc_results sc),
      sc_stopped := (if alive then sc_stopped sc else True)\<rparr>)"
proof -
  have "those (pt_outcomes (partial_of N res t)) = Some (map the (block N res t))"
    using assms(2) by (simp add: partial_of_def those_map_the answered_set)
  moreover have "(live_with N res t)(t := None) =
      (\<lambda>t'. if touched N res t' \<and> \<not> answered N res t' then Some (partial_of N res t') else None)"
    using assms(2) by (auto simp: live_with_def)
  ultimately show ?thesis using assms(1) by (simp add: send_target_def live_with_def Let_def scan_of_def)
qed

lemma scan_of_update:
  assumes "i = t * N + p" "p < N" "t' \<noteq> t"
  shows "scan_of N (res(i \<mapsto> r)) t' = scan_of N res t'"
  using assms by (simp add: scan_of_def block_update)

text \<open>One iteration started in state \<^verbatim>\<open>(m, res)\<close> leads to the state with the result added and, unless a
  cancellation was seen or the feed has ended, one more probe started.\<close>

definition next_started :: "nat \<Rightarrow> bool \<Rightarrow> nat \<Rightarrow> nat" where
  "next_started n cancelled m = (if cancelled \<or> m = n then m else Suc m)"

lemma refill:
  assumes "P \<noteq> []" "starts P T m res sc"
  shows "\<exists>sc'. (if cancelled then Some sc else map_option snd (feed_spawn P sc)) = Some sc' \<and>
    starts P T (next_started (length P * length T) cancelled m) res sc' \<and> sc_live sc' = sc_live sc \<and>
    sc_results sc' = sc_results sc \<and> sc_stopped sc' = sc_stopped sc"
  using feed_spawn_starts [OF assms] assms(2) by (auto simp: next_started_def split: if_splits)

lemma join_step_ok:
  fixes r :: Joined
  assumes "P \<noteq> []" "starts P T m res sc" "gathered (length P) res sc" "\<not> sc_stopped sc" "i < m" "res i = None"
  defines "res' \<equiv> res(i \<mapsto> joined_outcome r)"
  shows "\<exists>sc'. join_step P i r cancelled alive sc = Some sc' \<and>
    starts P T (next_started (length P * length T) cancelled m) res' sc' \<and> gathered (length P) res' sc' \<and>
    (sc_stopped sc' \<longleftrightarrow> \<not> alive \<and> answered (length P) res' (i div length P))"
proof -
  let ?N = "length P" let ?t = "i div ?N"
  obtain sc1 where 1: "record_outcome i ?N (joined_outcome r) (sc\<lparr>sc_set := filter (\<lambda>task. task_id task \<noteq> i) (sc_set sc)\<rparr>) =
      Some (if answered ?N res' ?t then Some ?t else None, sc1)"
    "starts P T m res' sc1" "sc_live sc1 = live_with ?N res' ?t" "sc_results sc1 = sc_results sc" "sc_stopped sc1 = sc_stopped sc"
    using record_outcome_ok [OF assms(1-3,5,6)] unfolding res'_def by blast
  obtain sc2 where 2: "(if cancelled then Some sc1 else map_option snd (feed_spawn P sc1)) = Some sc2"
    "starts P T (next_started (?N * length T) cancelled m) res' sc2" "sc_live sc2 = sc_live sc1"
    "sc_results sc2 = sc_results sc1" "sc_stopped sc2 = sc_stopped sc1"
    using refill [OF assms(1) 1(2)] by blast
  have N: "0 < ?N" using assms(1) by simp
  have i: "i = ?t * ?N + i mod ?N" "i mod ?N < ?N" using N by simp_all
  have ans: "answered ?N res' t' \<longleftrightarrow> answered ?N res t'" if "t' \<noteq> ?t" for t'
    unfolding res'_def by (subst i(1), rule answered_update [OF i(2) that])
  have old: "\<not> answered ?N res ?t" by (rule open_block [OF N]) (rule assms(6))
  have tch: "touched ?N res' ?t"
    unfolding res'_def by (subst i(1), subst touched_update [OF i(2)]) simp
  obtain ts where ts: "sc_results sc = map (scan_of ?N res) ts" "distinct ts" "set ts = {t. answered ?N res t}"
    using assms(3,4) unfolding gathered_def by auto
  have "scan_of ?N res' t' = scan_of ?N res t'" if "t' \<in> set ts" for t'
    unfolding res'_def using that ts(3) old by (intro scan_of_update [OF i]) auto
  then have results: "sc_results sc = map (scan_of ?N res') ts" using ts(1) by simp
  show ?thesis
  proof (cases "answered ?N res' ?t")
    case False
    then have "answered ?N res' t' \<longleftrightarrow> answered ?N res t'" for t' using ans old by (cases "t' = ?t") simp_all
    then have "{t. answered ?N res' t} = {t. answered ?N res t}" by simp
    moreover have "sc_live sc2 = (\<lambda>t. if touched ?N res' t \<and> \<not> answered ?N res' t then Some (partial_of ?N res' t) else None)"
      using False tch 1(3) 2(3) by (auto simp: live_with_def)
    ultimately have "gathered ?N res' sc2"
      using results ts(2,3) 1(4) 2(4) unfolding gathered_def by auto
    then show ?thesis using False 1(1,5) 2(1,2,5) assms(4) by (auto simp: join_step_def Let_def)
  next
    case True
    let ?sc = "sc2\<lparr>sc_live := (\<lambda>t'. if touched ?N res' t' \<and> \<not> answered ?N res' t' then Some (partial_of ?N res' t') else None),
      sc_results := (if alive then sc_results sc2 @ [scan_of ?N res' ?t] else sc_results sc2),
      sc_stopped := (if alive then sc_stopped sc2 else True)\<rparr>"
    have "send_target alive ?t sc2 = Some ?sc" using 1(3) 2(3) True by (intro send_target_ok) simp_all
    then have "join_step P i r cancelled alive sc = Some ?sc" using True 1(1) 2(1) by (simp add: join_step_def Let_def)
    moreover have "starts P T (next_started (?N * length T) cancelled m) res' ?sc"
      using 2(2) by (simp add: starts_def)
    moreover have "answered ?N res' t \<longleftrightarrow> t = ?t \<or> answered ?N res t" for t using True ans [of t] by (cases "t = ?t") simp_all
    then have sub: "{t. answered ?N res' t} = insert ?t (set ts)" using ts(3) by auto
    have "gathered ?N res' ?sc"
    proof (cases alive)
      case True
      then have "sc_results ?sc = map (scan_of ?N res') (ts @ [?t])" using results 1(4) 2(4) by simp
      moreover have "distinct (ts @ [?t])" "set (ts @ [?t]) = {t. answered ?N res' t}" using ts old sub by auto
      ultimately show ?thesis unfolding gathered_def by (intro conjI exI [of _ "ts @ [?t]"]) simp_all
    next
      case False
      then have "sc_results ?sc = map (scan_of ?N res') ts" using results 1(4) 2(4) by simp
      then show ?thesis using False ts(2) sub unfolding gathered_def by (intro conjI exI [of _ ts]) auto
    qed
    ultimately show ?thesis using True 1(5) 2(5) assms(4) by auto
  qed
qed

section \<open>Whole runs\<close>

definition event_results :: "JoinEvent list \<Rightarrow> (nat \<rightharpoonup> probe_result)" where
  "event_results es = foldl (\<lambda>res e. res(je_task e \<mapsto> joined_outcome (je_joined e))) Map.empty es"

lemma event_results_snoc [simp]:
  "event_results (es @ [e]) = (event_results es)(je_task e \<mapsto> joined_outcome (je_joined e))"
  by (simp add: event_results_def)

lemma finite_dom_event_results [simp]: "finite (dom (event_results es))"
  by (induction es rule: rev_induct) (simp add: event_results_def, simp del: fun_upd_apply)

lemma prime_ok:
  assumes "P \<noteq> []" "starts P T m res sc" "m \<le> length P * length T"
  shows "\<exists>m' sc'. prime P cancels n sc = Some sc' \<and> starts P T m' res sc' \<and> m \<le> m' \<and> m' \<le> m + n \<and>
    m' \<le> length P * length T \<and> (True \<in> set cancels \<or> m' = m + n \<or> m' = length P * length T) \<and>
    sc_live sc' = sc_live sc \<and> sc_results sc' = sc_results sc \<and> sc_stopped sc' = sc_stopped sc"
  using assms(2,3)
proof (induction n arbitrary: m sc cancels)
  case (Suc n)
  show ?case
  proof (cases "cancels \<noteq> [] \<and> hd cancels")
    case True
    then have "True \<in> set cancels" by (metis hd_in_set)
    then show ?thesis using True Suc.prems by (intro exI [of _ m] exI [of _ sc]) auto
  next
    case False
    show ?thesis
    proof (cases "m = length P * length T")
      case True
      then have "feed_spawn P sc = Some (False, sc)" using feed_spawn_starts [OF assms(1) Suc.prems(1)] by simp
      then show ?thesis using False True Suc.prems(1) by (intro exI [of _ m] exI [of _ sc]) auto
    next
      case more: False
      then obtain sc1 where 1: "feed_spawn P sc = Some (True, sc1)" "starts P T (Suc m) res sc1" "m < length P * length T"
        "sc_live sc1 = sc_live sc" "sc_results sc1 = sc_results sc" "sc_stopped sc1 = sc_stopped sc"
        using feed_spawn_starts [OF assms(1) Suc.prems(1)] by auto
      have "Suc m \<le> length P * length T" using 1(3) by simp
      from Suc.IH [OF 1(2) this, of "tl cancels"] obtain m' sc' where 2: "prime P (tl cancels) n sc1 = Some sc'"
        "starts P T m' res sc'" "Suc m \<le> m'" "m' \<le> Suc m + n" "m' \<le> length P * length T"
        "True \<in> set (tl cancels) \<or> m' = Suc m + n \<or> m' = length P * length T"
        "sc_live sc' = sc_live sc1" "sc_results sc' = sc_results sc1" "sc_stopped sc' = sc_stopped sc1" by blast
      moreover have "set (tl cancels) \<subseteq> set cancels" by (cases cancels) auto
      ultimately show ?thesis using False 1 by (intro exI [of _ m'] exI [of _ sc']) auto
    qed
  qed
qed auto

definition window :: "nat \<Rightarrow> bool \<Rightarrow> 'p list \<Rightarrow> 't list \<Rightarrow> nat \<Rightarrow> ('p, 't) Scan \<Rightarrow> bool" where
  "window C cancelled P T m sc \<longleftrightarrow> length (sc_set sc) \<le> C \<and> m \<le> length P * length T \<and>
     (cancelled \<or> length (sc_set sc) = C \<or> m = length P * length T)"

lemma starts_count:
  assumes "starts P T m res sc"
  shows "length (sc_set sc) + card (dom res) = m"
proof -
  have "dom res \<subseteq> {..<m}" using assms by (simp add: starts_def)
  then have "{i. i < m \<and> res i = None} = {..<m} - dom res" by auto
  moreover have "card ({..<m} - dom res) = m - card (dom res)"
    using \<open>dom res \<subseteq> {..<m}\<close> by (simp add: card_Diff_subset finite_subset)
  moreover have "card (dom res) \<le> m" using \<open>dom res \<subseteq> {..<m}\<close> card_mono [of "{..<m}"] by force
  ultimately show ?thesis
    using assms distinct_card [of "filter (\<lambda>i. res i = None) [0..<m]"] by (simp add: starts_def)
qed

lemma scan_start_ok:
  assumes "P \<noteq> []"
  shows "\<exists>m sc. scan_start P T cancels mc = Some sc \<and> starts P T m Map.empty sc \<and> gathered (length P) Map.empty sc \<and>
    window (bounded_max_concurrent mc) (True \<in> set cancels) P T m sc \<and> \<not> sc_stopped sc"
proof -
  have N: "0 < length P" using assms by simp
  have "starts P T 0 Map.empty (scan_new P T)"
    by (simp add: starts_def scan_new_def feed_at_def feed_new_def Let_def)
  from prime_ok [OF assms this, of cancels "bounded_max_concurrent mc"] obtain m sc where
    1: "prime P cancels (bounded_max_concurrent mc) (scan_new P T) = Some sc" "starts P T m Map.empty sc"
    "m \<le> bounded_max_concurrent mc" "m \<le> length P * length T"
    "True \<in> set cancels \<or> m = bounded_max_concurrent mc \<or> m = length P * length T"
    "sc_live sc = Map.empty" "sc_results sc = []" "\<not> sc_stopped sc"
    by (auto simp: scan_new_def)
  have "gathered (length P) Map.empty sc" using N 1(6,7) by (auto simp: gathered_def touched_def answered_def)
  moreover have "length (sc_set sc) = m" using starts_count [OF 1(2)] by simp
  ultimately show ?thesis using 1 assms by (auto simp: scan_start_def window_def)
qed

lemma starts_task:
  "starts P T m res sc \<Longrightarrow> i \<in> task_id ` set (sc_set sc) \<longleftrightarrow> i < m \<and> res i = None"
  by (auto simp: starts_def image_image)

definition calm :: "bool list \<Rightarrow> JoinEvent list \<Rightarrow> bool" where
  "calm cancels es \<longleftrightarrow> True \<notin> set cancels \<and> (\<forall>e \<in> set es. \<not> je_cancelled e)"

lemma joins_ok:
  assumes "P \<noteq> []" "scan_start P T cancels mc = Some sc0" "joins P sc0 es sc"
  shows "\<exists>m. starts P T m (event_results es) sc \<and> gathered (length P) (event_results es) sc \<and>
    window (bounded_max_concurrent mc) (\<not> calm cancels es) P T m sc \<and>
    card (dom (event_results es)) = length es \<and> ((\<forall>e \<in> set es. je_receiver_alive e) \<longrightarrow> \<not> sc_stopped sc)"
  using assms(3,2)
proof (induction rule: joins.induct)
  case (joins_refl sc)
  then show ?case using scan_start_ok [OF assms(1), of T cancels mc] by (auto simp: event_results_def calm_def)
next
  case (joins_step sc es sc1 e sc2)
  let ?res = "event_results es" and ?n = "length P * length T" and ?c = "je_cancelled e"
  obtain m where m: "starts P T m ?res sc1" "gathered (length P) ?res sc1"
    "window (bounded_max_concurrent mc) (\<not> calm cancels es) P T m sc1" "card (dom ?res) = length es"
    using joins_step.IH [OF joins_step.prems] by blast
  have task: "je_task e < m" "?res (je_task e) = None" using starts_task [OF m(1)] joins_step.hyps(3) by blast+
  obtain sc' where sc': "join_step P (je_task e) (je_joined e) ?c (je_receiver_alive e) sc1 = Some sc'"
    "starts P T (next_started ?n ?c m) (event_results (es @ [e])) sc'" "gathered (length P) (event_results (es @ [e])) sc'"
    "sc_stopped sc' \<Longrightarrow> \<not> je_receiver_alive e"
    using join_step_ok [OF assms(1) m(1,2) joins_step.hyps(2) task, of "je_joined e" ?c "je_receiver_alive e"]
    unfolding event_results_snoc by blast
  have count: "card (dom (event_results (es @ [e]))) = length (es @ [e])"
    using task(2) m(4) by (simp add: card_insert_if domIff del: fun_upd_apply)
  moreover have "window (bounded_max_concurrent mc) (\<not> calm cancels (es @ [e])) P T (next_started ?n ?c m) sc'"
    using m(3) starts_count [OF m(1)] starts_count [OF sc'(2)] count m(4)
    by (auto simp: window_def next_started_def calm_def split: if_splits)
  moreover have "sc' = sc2" using sc'(1) joins_step.hyps(4) by simp
  ultimately show ?case using sc'(2-4) by (intro exI [of _ "next_started ?n ?c m"]) (auto simp del: event_results_snoc)
qed

lemma target_storage:
  assumes "P \<noteq> []" "starts P T m res sc"
  shows "card (dom (sc_target_map sc)) \<le> Suc (length (sc_set sc))"
proof -
  let ?N = "length P" and ?k = "fd_next_target_index (sc_feed sc)"
  have N: "0 < ?N" using assms(1) by simp
  have f: "0 < ?k \<Longrightarrow> (?k - 1) * ?N < m" using assms(2) by (auto simp: starts_def feed_at_def Let_def split: if_splits)
  have "t \<in> (\<lambda>task. task_id task div ?N) ` set (sc_set sc)" if t: "t \<in> dom (sc_target_map sc)" "t \<noteq> ?k - 1" for t
  proof -
    have "t < ?k" "\<not> answered ?N res t" using assms(2) t(1) by (auto simp: starts_def split: if_splits)
    then obtain p where p: "p < ?N" "res (t * ?N + p) = None" by (auto simp: answered_def)
    have "t * ?N + p < Suc t * ?N" using p(1) by simp
    also have "\<dots> \<le> (?k - 1) * ?N" using \<open>t < ?k\<close> t(2) by (intro mult_le_mono1) simp
    finally have "t * ?N + p < m" using f \<open>t < ?k\<close> by simp
    then have "t * ?N + p \<in> task_id ` set (sc_set sc)" using starts_task [OF assms(2)] p(2) by simp
    moreover have "(t * ?N + p) div ?N = t" using p(1) N div_mult_self3 [of ?N t p] by simp
    ultimately show ?thesis by (metis (no_types, lifting) image_iff)
  qed
  then have "dom (sc_target_map sc) \<subseteq> insert (?k - 1) ((\<lambda>task. task_id task div ?N) ` set (sc_set sc))" by blast
  then have "card (dom (sc_target_map sc)) \<le> card (insert (?k - 1) ((\<lambda>task. task_id task div ?N) ` set (sc_set sc)))"
    by (intro card_mono) simp_all
  also have "\<dots> \<le> Suc (card ((\<lambda>task. task_id task div ?N) ` set (sc_set sc)))" by (rule card_insert_le_m1 [of "Suc _", simplified]) simp_all
  also have "\<dots> \<le> Suc (length (sc_set sc))"
    by (meson Suc_le_mono card_image_le card_length order_trans List.finite_set)
  finally show ?thesis .
qed

lemma ended_prefix:
  assumes "P \<noteq> []" "starts P T m res sc" "sc_set sc = []"
  shows "answered (length P) res t \<longleftrightarrow> t < m div length P"
proof -
  let ?N = "length P"
  have N: "0 < ?N" using assms(1) by simp
  have all: "res i \<noteq> None \<longleftrightarrow> i < m" for i
    using starts_task [OF assms(2), of i] assms(2,3) by (auto simp: starts_def)
  have "answered ?N res t \<longleftrightarrow> (\<forall>p < ?N. t * ?N + p < m)" unfolding answered_def all ..
  also have "\<dots> \<longleftrightarrow> Suc t * ?N \<le> m"
  proof
    assume "\<forall>p < ?N. t * ?N + p < m"
    then have "t * ?N + (?N - 1) < m" using N by simp
    then show "Suc t * ?N \<le> m" using N by simp
  qed auto
  also have "\<dots> \<longleftrightarrow> t < m div ?N" using N by (metis Suc_le_eq less_eq_div_iff_mult_less_eq)
  finally show ?thesis .
qed

section \<open>Executing a run\<close>

fun run_joins :: "'p list \<Rightarrow> ('p, 't) Scan \<Rightarrow> JoinEvent list \<Rightarrow> ('p, 't) Scan option" where
  "run_joins P sc [] = Some sc"
| "run_joins P sc (e # es) =
     (if sc_stopped sc \<or> je_task e \<notin> task_id ` set (sc_set sc) then None
      else case join_step P (je_task e) (je_joined e) (je_cancelled e) (je_receiver_alive e) sc of
             None \<Rightarrow> None
           | Some sc' \<Rightarrow> run_joins P sc' es)"

lemma run_joins_joins: "joins P sc0 es0 sc \<Longrightarrow> run_joins P sc es = Some sc' \<Longrightarrow> joins P sc0 (es0 @ es) sc'"
proof (induction es arbitrary: es0 sc)
  case (Cons e es)
  obtain sc1 where 1: "\<not> sc_stopped sc" "je_task e \<in> task_id ` set (sc_set sc)"
    "join_step P (je_task e) (je_joined e) (je_cancelled e) (je_receiver_alive e) sc = Some sc1" "run_joins P sc1 es = Some sc'"
    using Cons.prems(2) by (auto split: if_splits option.splits)
  from Cons.IH [OF joins_step [OF Cons.prems(1) 1(1-3)] 1(4)] show ?case by simp
qed simp

definition finished_event :: "nat \<Rightarrow> bool \<Rightarrow> JoinEvent" where
  "finished_event i cancelled = \<lparr>je_task = i, je_joined = Finished (Inl (EReport ''r'')), je_cancelled = cancelled, je_receiver_alive = True\<rparr>"

definition sample_run :: "JoinEvent list" where
  "sample_run = map (\<lambda>i. finished_event i False) [1, 0, 2, 3]"

definition sample_start :: "(nat, nat) Scan" where
  "sample_start = the (scan_start [7, 8] [1, 2] [] 2)"

definition sample_end :: "(nat, nat) Scan" where
  "sample_end = the (run_joins [7, 8] sample_start sample_run)"

lemmas run_defs = scan_start_def bounded_max_concurrent_def scan_new_def feed_new_def feed_spawn_def feed_next.simps
  spawn_probe_def join_step_def record_outcome_def send_target_def Let_def finished_event_def

lemma sample_run_ok:
  "scan_start [7, 8] [1, 2] [] 2 = Some sample_start" "joins [7, 8] sample_start sample_run sample_end"
  "sc_set sample_end = []" "map ts_target_index (sc_results sample_end) = [0, 1]"
proof -
  show s: "scan_start [7, 8] [1, 2] [] 2 = Some sample_start"
    using scan_start_ok [of "[7, 8 :: nat]" "[1, 2 :: nat]" "[]" 2] by (auto simp: sample_start_def)
  have r: "\<exists>sc. run_joins [7, 8] sample_start sample_run = Some sc \<and> sc_set sc = [] \<and> map ts_target_index (sc_results sc) = [0, 1]"
    by (simp add: sample_start_def sample_run_def run_defs numeral_2_eq_2 numeral_3_eq_3)
  then show "sc_set sample_end = []" "map ts_target_index (sc_results sample_end) = [0, 1]"
    by (auto simp: sample_end_def)
  show "joins [7, 8] sample_start sample_run sample_end"
    using run_joins_joins [OF joins_refl, of "[7, 8]" sample_start sample_run] r by (auto simp: sample_end_def)
qed

section \<open>Properties\<close>

text \<open>C20: In every state a scan can reach, at most \<^verbatim>\<open>max_concurrent\<close> probes are in flight, the targets held in memory
  exceed the probes in flight by at most one, and the next iteration does not panic whichever probe
  finishes next, whatever it returned, and whatever the cancellation flag and the receiver do.\<close>

theorem scheduler_bounded:
  assumes "P \<noteq> []" "scan_start P T cancels mc = Some sc0" "joins P sc0 es sc"
  shows "length (sc_set sc) \<le> max mc 1 \<and> card (dom (sc_target_map sc)) \<le> Suc (length (sc_set sc)) \<and>
    (\<not> sc_stopped sc \<longrightarrow> (\<forall>i \<in> task_id ` set (sc_set sc). join_step P i r cancelled alive sc \<noteq> None))"
proof -
  obtain m where m: "starts P T m (event_results es) sc" "gathered (length P) (event_results es) sc"
    "window (bounded_max_concurrent mc) (\<not> calm cancels es) P T m sc"
    using joins_ok [OF assms] by blast
  have "join_step P i r cancelled alive sc \<noteq> None" if "\<not> sc_stopped sc" "i \<in> task_id ` set (sc_set sc)" for i
    using join_step_ok [OF assms(1) m(1,2) that(1), of i r cancelled alive] starts_task [OF m(1)] that(2) by auto
  then show ?thesis
    using m(3) target_storage [OF assms(1) m(1)] by (auto simp: window_def bounded_max_concurrent_def)
qed

theorem scheduler_bounded_witness:
  "length (sc_set sample_end) \<le> max 2 1 \<and> card (dom (sc_target_map sample_end)) \<le> Suc (length (sc_set sample_end))"
  using scheduler_bounded [OF _ sample_run_ok(1,2)] by blast

text \<open>C18: Every target that is sent is sent once, and carries the outcome of every prober in prober order, each
  the one the probe with that prober on that target returned: start number \<^verbatim>\<open>i\<close> runs prober \<^verbatim>\<open>i mod N\<close>
  on target \<^verbatim>\<open>i div N\<close>, and the outcomes of target \<^verbatim>\<open>t\<close> are the results of starts \<^verbatim>\<open>t * N\<close> up to \<^verbatim>\<open>t * N + N - 1\<close>.\<close>

theorem scheduler_delivers:
  assumes "P \<noteq> []" "scan_start P T cancels mc = Some sc0" "joins P sc0 es sc"
  shows "(\<forall>task \<in> set (sc_set sc). task_prober task = P ! (task_id task mod length P) \<and>
      task_target task = T ! (task_id task div length P)) \<and>
    (\<exists>ts. distinct ts \<and> set ts \<subseteq> {..<length T} \<and>
       sc_results sc = map (\<lambda>t. \<lparr>ts_target_index = t,
         ts_outcomes = map (\<lambda>p. (p, the (event_results es (t * length P + p)))) [0..<length P]\<rparr>) ts \<and>
       (\<forall>t \<in> set ts. \<forall>p < length P. event_results es (t * length P + p) \<noteq> None))"
proof -
  let ?N = "length P"
  obtain m where m: "starts P T m (event_results es) sc" "gathered ?N (event_results es) sc"
    "window (bounded_max_concurrent mc) (\<not> calm cancels es) P T m sc"
    using joins_ok [OF assms] by blast
  obtain ts where ts: "sc_results sc = map (scan_of ?N (event_results es)) ts" "distinct ts"
    "\<forall>t \<in> set ts. answered ?N (event_results es) t" using m(2) unfolding gathered_def by auto
  have N: "0 < ?N" using assms(1) by simp
  have "t < length T" if "t \<in> set ts" for t
  proof -
    have "event_results es (t * ?N + 0) \<noteq> None" using ts(3) that N unfolding answered_def by blast
    then have "t * ?N < m" using m(1) by (auto simp: starts_def)
    then have "t * ?N < length T * ?N" using m(3) by (simp only: window_def mult.commute [of ?N "length T"]) linarith
    then show ?thesis using N by (simp only: mult_less_cancel2)
  qed
  moreover have "scan_of ?N (event_results es) t = \<lparr>ts_target_index = t,
      ts_outcomes = map (\<lambda>p. (p, the (event_results es (t * ?N + p)))) [0..<?N]\<rparr>" for t
    by (simp add: scan_of_def block_def enumerate_eq_zip zip_map2 zip_same_conv_map comp_def)
  moreover have "\<forall>task \<in> set (sc_set sc). task_prober task = P ! (task_id task mod ?N) \<and> task_target task = T ! (task_id task div ?N)"
    using m(1) by (auto simp: starts_def)
  ultimately show ?thesis using ts by (intro conjI exI [of _ ts]) (auto simp: answered_def)
qed

theorem scheduler_delivers_witness:
  "\<exists>ts. distinct ts \<and> map ts_target_index (sc_results sample_end) = ts \<and> ts = [0, 1]"
proof -
  obtain ts where "distinct ts" "map ts_target_index (sc_results sample_end) = ts"
    using scheduler_delivers [OF _ sample_run_ok(1,2)] by (auto simp: comp_def)
  then show ?thesis using sample_run_ok(4) by simp
qed

text \<open>The scan with at least one prober.\<close>

lemma scheduler_ends_probing:
  assumes "P \<noteq> []" "scan_start P T cancels mc = Some sc0" "joins P sc0 es sc"
  shows "length es + length (sc_set sc) \<le> length P * length T \<and>
    (\<not> sc_stopped sc \<longrightarrow> sc_set sc \<noteq> [] \<longrightarrow> (\<exists>e sc'. joins P sc0 (es @ [e]) sc')) \<and>
    (sc_set sc = [] \<longrightarrow> True \<notin> set cancels \<longrightarrow> (\<forall>e \<in> set es. \<not> je_cancelled e \<and> je_receiver_alive e) \<longrightarrow>
       ts_target_index ` set (sc_results sc) = {..<length T})"
proof -
  let ?N = "length P"
  obtain m where m: "starts P T m (event_results es) sc" "gathered ?N (event_results es) sc"
    "window (bounded_max_concurrent mc) (\<not> calm cancels es) P T m sc" "card (dom (event_results es)) = length es"
    "(\<forall>e \<in> set es. je_receiver_alive e) \<Longrightarrow> \<not> sc_stopped sc"
    using joins_ok [OF assms] by blast
  have "length es + length (sc_set sc) = m" using starts_count [OF m(1)] m(4) by simp
  then have bound: "length es + length (sc_set sc) \<le> ?N * length T" using m(3) by (simp add: window_def)
  have go: "\<exists>e sc'. joins P sc0 (es @ [e]) sc'" if g: "\<not> sc_stopped sc" "sc_set sc \<noteq> []"
  proof -
    have "\<exists>i. i \<in> task_id ` set (sc_set sc)" using g(2) by (cases "sc_set sc") auto
    then obtain i where i: "i \<in> task_id ` set (sc_set sc)" ..
    then have "i < m" "event_results es i = None" unfolding starts_task [OF m(1)] by simp_all
    then obtain sc' where "join_step P i Panicked True True sc = Some sc'"
      using join_step_ok [OF assms(1) m(1,2) g(1), of i Panicked True True] by auto
    then show ?thesis
      using joins_step [OF assms(3) g(1), of "\<lparr>je_task = i, je_joined = Panicked, je_cancelled = True, je_receiver_alive = True\<rparr>"] i
      by auto
  qed
  have all: "ts_target_index ` set (sc_results sc) = {..<length T}"
    if g: "sc_set sc = []" "True \<notin> set cancels" "\<forall>e \<in> set es. \<not> je_cancelled e \<and> je_receiver_alive e"
  proof -
    have "m = ?N * length T" using m(3) g by (auto simp: window_def calm_def bounded_max_concurrent_def)
    then have "answered ?N (event_results es) t \<longleftrightarrow> t < length T" for t
      using ended_prefix [OF assms(1) m(1) g(1), of t] assms(1) by simp
    moreover obtain ts where "sc_results sc = map (scan_of ?N (event_results es)) ts" "set ts = {t. answered ?N (event_results es) t}"
      using m(2,5) g(3) unfolding gathered_def by auto
    ultimately show ?thesis by (auto simp: scan_of_def image_image)
  qed
  show ?thesis using bound go all by blast
qed

text \<open>C19: Every scan ends: a run has at most one iteration per prober and target, and while a probe is in flight
  the run can go on. When a scan with at least one prober has ended without cancellation and with the
  receiver listening, every target has been sent; a scan without probers ends at once and sends nothing.\<close>

theorem scheduler_ends:
  assumes "scan_start P T cancels mc = Some sc0" "joins P sc0 es sc"
  shows "length es + length (sc_set sc) \<le> length P * length T \<and>
    (\<not> sc_stopped sc \<longrightarrow> sc_set sc \<noteq> [] \<longrightarrow> (\<exists>e sc'. joins P sc0 (es @ [e]) sc')) \<and>
    (if P = [] then es = [] \<and> sc_set sc = [] \<and> sc_results sc = []
     else sc_set sc = [] \<longrightarrow> True \<notin> set cancels \<longrightarrow> (\<forall>e \<in> set es. \<not> je_cancelled e \<and> je_receiver_alive e) \<longrightarrow>
       ts_target_index ` set (sc_results sc) = {..<length T})"
proof (cases "P = []")
  case True
  then have sc0: "sc_stopped sc0" "sc_set sc0 = []" "sc_results sc0 = []"
    using assms(1) by (auto simp: scan_start_def scan_new_def)
  have "es = [] \<and> sc = sc0" using assms(2) sc0(1) by (induction rule: joins.induct) auto
  then show ?thesis using True sc0 by simp
next
  case False
  then show ?thesis using scheduler_ends_probing [OF False assms] by simp
qed

theorem scheduler_ends_witness:
  "ts_target_index ` set (sc_results sample_end) = {..<length [1 :: nat, 2]} \<and>
   (\<exists>sc0. scan_start ([] :: nat list) [1 :: nat, 2] [] 3 = Some sc0 \<and> sc_results sc0 = [])"
proof -
  have "\<exists>sc0. scan_start ([] :: nat list) [1 :: nat, 2] [] 3 = Some sc0" by (simp add: scan_start_def)
  then show ?thesis
    using scheduler_ends [OF sample_run_ok(1,2)] sample_run_ok(3) scheduler_ends [OF _ joins_refl, of "[] :: nat list" "[1 :: nat, 2]" "[]" 3]
    by (auto simp: sample_run_def finished_event_def)
qed

text \<open>C21: A cancelled scan leaves a contiguous prefix: once the probes in flight have drained, and as long as the
  receiver stayed, the targets that were sent are exactly the first \<^verbatim>\<open>k\<close>, for some \<^verbatim>\<open>k\<close>, and at most one target
  more was ever started. The scan has at least one prober.\<close>

theorem scheduler_cancelled_prefix:
  assumes "P \<noteq> []" "scan_start P T cancels mc = Some sc0" "joins P sc0 es sc"
    and "sc_set sc = []" "\<forall>e \<in> set es. je_receiver_alive e"
  shows "\<exists>k. ts_target_index ` set (sc_results sc) = {..<k} \<and> k \<le> length T \<and>
    fd_next_target_index (sc_feed sc) \<in> {k, Suc k}"
proof -
  let ?N = "length P"
  obtain m where m: "starts P T m (event_results es) sc" "gathered ?N (event_results es) sc"
    "window (bounded_max_concurrent mc) (\<not> calm cancels es) P T m sc" "\<not> sc_stopped sc"
    using joins_ok [OF assms(1-3)] assms(5) by blast
  have N: "0 < ?N" using assms(1) by simp
  obtain ts where "sc_results sc = map (scan_of ?N (event_results es)) ts" "set ts = {t. answered ?N (event_results es) t}"
    using m(2,4) unfolding gathered_def by auto
  then have "ts_target_index ` set (sc_results sc) = {..<m div ?N}"
    by (auto simp: scan_of_def image_image ended_prefix [OF assms(1) m(1) assms(4)])
  moreover have "m div ?N \<le> length T"
    using m(3) N div_le_mono [of m "?N * length T" ?N] by (simp add: window_def)
  moreover have "fd_next_target_index (sc_feed sc) \<in> {m div ?N, Suc (m div ?N)}"
  proof -
    define k where "k = fd_next_target_index (sc_feed sc)"
    have f: "m \<le> k * ?N" "0 < k \<Longrightarrow> (k - 1) * ?N < m"
      using m(1) by (auto simp: starts_def feed_at_def k_def Let_def split: if_splits)
    have "m div ?N \<le> k" using f(1) N div_le_mono [of m "k * ?N" ?N] by simp
    moreover have "k - 1 \<le> m div ?N"
      using f(2) N by (cases "k = 0") (simp_all add: less_eq_div_iff_mult_less_eq)
    ultimately show ?thesis unfolding k_def [symmetric] by auto
  qed
  ultimately show ?thesis by blast
qed

theorem scheduler_cancelled_prefix_witness:
  "\<exists>k. ts_target_index ` set (sc_results sample_end) = {..<k} \<and> k \<le> 2"
  using scheduler_cancelled_prefix [OF _ sample_run_ok(1-3)] by (auto simp: sample_run_def finished_event_def)

text \<open>C23: A target that was started before a cancellation is not always reported, although the drain is meant to
  let every started target report all its outcomes: with two probers and a window of one, a
  cancellation seen after the first probe ends the scan with the target started and nothing sent.\<close>

theorem cancelled_target_unreported:
  "\<exists>sc0 sc. scan_start [7 :: nat, 8] [1 :: nat] [] 1 = Some sc0 \<and> joins [7, 8] sc0 [finished_event 0 True] sc \<and>
     sc_set sc = [] \<and> fd_next_target_index (sc_feed sc) = 1 \<and> sc_results sc = []"
proof -
  obtain sc0 where s: "scan_start [7 :: nat, 8] [1 :: nat] [] 1 = Some sc0"
    using scan_start_ok [of "[7 :: nat, 8]" "[1 :: nat]" "[]" 1] by auto
  moreover have "\<exists>sc. run_joins [7, 8] sc0 [finished_event 0 True] = Some sc \<and> sc_set sc = [] \<and>
      fd_next_target_index (sc_feed sc) = 1 \<and> sc_results sc = []"
    using s by (auto simp: run_defs numeral_2_eq_2)
  ultimately show ?thesis using run_joins_joins [OF joins_refl] by fastforce
qed

section \<open>Pacing\<close>

fun slots :: "Pacer \<Rightarrow> nat list \<Rightarrow> nat list" where
  "slots p [] = []"
| "slots p (now # nows) = (case wait_for_slot now p of (t, p') \<Rightarrow> t # slots p' nows)"

lemma slots_spaced:
  "sorted_wrt (\<lambda>a b. a + pc_interval p \<le> b) (slots p nows) \<and>
   (\<forall>t \<in> set (slots p nows). \<forall>n. pc_next_start p = Some n \<longrightarrow> n \<le> t)"
proof (induction nows arbitrary: p)
  case (Cons now nows)
  obtain t p' where w: "wait_for_slot now p = (t, p')" by fastforce
  then have p': "pc_interval p' = pc_interval p" "pc_next_start p' = Some (t + pc_interval p)"
    "\<forall>n. pc_next_start p = Some n \<longrightarrow> n \<le> t"
    by (auto simp: wait_for_slot_def Let_def split: option.splits if_splits)
  then show ?case using Cons [of p'] w by fastforce
qed simp

lemma slots_not_early: "list_all2 (\<le>) nows (slots p nows)"
  by (induction nows arbitrary: p) (auto simp: wait_for_slot_def Let_def split: option.splits)

lemma spaced_count:
  fixes ts :: "nat list"
  assumes "sorted_wrt (\<lambda>a b. a + d \<le> b) ts" "set ts \<subseteq> {lo..hi}" "ts \<noteq> []"
  shows "lo + (length ts - 1) * d \<le> hi"
  using assms
proof (induction ts arbitrary: lo)
  case (Cons t ts)
  show ?case
  proof (cases "ts = []")
    case False
    have "set ts \<subseteq> {t + d..hi}" using Cons.prems by auto
    then have "t + d + (length ts - 1) * d \<le> hi" using Cons.IH [of "t + d"] Cons.prems(1) False by simp
    moreover have "(length (t # ts) - 1) * d = d + (length ts - 1) * d" using False by (cases ts) auto
    ultimately show ?thesis using Cons.prems(2) by auto
  qed (use Cons.prems in auto)
qed simp

text \<open>C22: However the tasks reach the pacer, no probe starts before it asked to, successive starts are at least one
  interval apart, and so a window of any length holds at most one start more than it has intervals.\<close>

theorem pacer_never_bursts:
  "list_all2 (\<le>) nows (slots p nows) \<and> sorted_wrt (\<lambda>a b. a + pc_interval p \<le> b) (slots p nows) \<and>
   (\<forall>lo hi. let n = length (filter (\<lambda>t. lo \<le> t \<and> t \<le> hi) (slots p nows)) in (n - 1) * pc_interval p \<le> hi - lo)"
proof -
  have "(length (filter (\<lambda>t. lo \<le> t \<and> t \<le> hi) (slots p nows)) - 1) * pc_interval p \<le> hi - lo" for lo hi
  proof (cases "filter (\<lambda>t. lo \<le> t \<and> t \<le> hi) (slots p nows) = []")
    case False
    have "sorted_wrt (\<lambda>a b. a + pc_interval p \<le> b) (filter (\<lambda>t. lo \<le> t \<and> t \<le> hi) (slots p nows))"
      using slots_spaced by (intro sorted_wrt_filter) blast
    moreover have "set (filter (\<lambda>t. lo \<le> t \<and> t \<le> hi) (slots p nows)) \<subseteq> {lo..hi}" by auto
    ultimately have "lo + (length (filter (\<lambda>t. lo \<le> t \<and> t \<le> hi) (slots p nows)) - 1) * pc_interval p \<le> hi"
      using False by (rule spaced_count)
    then show ?thesis by linarith
  qed simp
  then show ?thesis using slots_spaced [of p nows] slots_not_early [of nows p] by (simp add: Let_def)
qed

end
