(* ===== verification/Sink_Core.thy ===== *)
theory Sink_Core
  imports Device_Model
begin

text \<open>
  What every sink shares: the record kinds, sink types and the \<^verbatim>\<open>Sink\<close> trait with its default methods
  (\<^verbatim>\<open>sink/mod.rs\<close>), the buffer of records not accepted yet (\<^verbatim>\<open>sink/pending.rs\<close>) and the bounded
  retry of a delivery (\<^verbatim>\<open>sink/retry.rs\<close>). An operation of a sink reads and returns a world \<^verbatim>\<open>'w\<close>
  (the broker, the file system, the clock), the sink's own state \<^verbatim>\<open>'s\<close> and a result.

  The locale \<^verbatim>\<open>at_least_once\<close> is the contract of a sink that talks to a broker: what it was given is
  held locally or was accepted by the destination, whatever fails.
\<close>

unbundle bit_operations_syntax

definition quoted :: "string \<Rightarrow> string" where
  "quoted s = CHR 0x27 # s @ [CHR 0x27]"

text \<open>\<^verbatim>\<open>Result::err\<close>.\<close>

definition result_err :: "'e + 'a \<Rightarrow> 'e option" where
  "result_err r = (case r of Inl e \<Rightarrow> Some e | Inr _ \<Rightarrow> None)"

lemma result_err_simps [simp]:
  "result_err (Inl e) = Some e" "result_err (Inr v) = None"
  "result_err (r :: 'e + unit) = None \<longleftrightarrow> r = Inr ()"
  by (auto simp: result_err_def split: sum.splits)

section \<open>Saturating counters\<close>

definition saturating_add :: "u64 \<Rightarrow> u64 \<Rightarrow> u64" where
  "saturating_add a b = (if unat a + unat b < 2 ^ 64 then a + b else - 1)"

definition saturating_sub :: "u64 \<Rightarrow> u64 \<Rightarrow> u64" where
  "saturating_sub a b = (if b \<le> a then a - b else 0)"

definition saturating_mul :: "u64 \<Rightarrow> u64 \<Rightarrow> u64" where
  "saturating_mul a b = (if unat a * unat b < 2 ^ 64 then a * b else - 1)"

lemma unat_max_u64: "unat (- 1 :: u64) = 2 ^ 64 - 1"
  by (simp add: unsigned_minus_1_eq_mask mask_eq_exp_minus_1)

lemma unat_u64_bound: "unat (a :: u64) \<le> 2 ^ 64 - 1"
  using unsigned_less [of a, where 'a = nat] by simp

lemma unat_saturating_add: "unat (saturating_add a b) = min (unat a + unat b) (2 ^ 64 - 1)"
  by (auto simp: saturating_add_def unat_max_u64 unat_word_ariths not_less min_def)

lemma unat_saturating_sub: "unat (saturating_sub a b) = unat a - unat b"
  by (auto simp: saturating_sub_def unat_sub not_le word_less_nat_alt)

lemma unat_saturating_mul: "unat (saturating_mul a b) = min (unat a * unat b) (2 ^ 64 - 1)"
  by (auto simp: saturating_mul_def unat_max_u64 unat_word_ariths not_less min_def)

section \<open>The trait\<close>

datatype RecordKind = Device | Link | CollectionProfile

datatype SinkType = StdoutType | FileType | MemoryType | KafkaType | NatsType | TeeType

definition default_links_destination :: string where
  "default_links_destination = ''rastreo.discovery.links.v1''"

definition default_profiles_destination :: string where
  "default_profiles_destination = ''rastreo.discovery.profiles.v1''"

fun sink_error_class_label :: "SinkErrorClass \<Rightarrow> string" where
  "sink_error_class_label PublishFailure = ''publish_failure''"
| "sink_error_class_label AckRejection = ''ack_rejection''"
| "sink_error_class_label ProduceFailure = ''produce_failure''"
| "sink_error_class_label WriteFailure = ''write_failure''"
| "sink_error_class_label FlushFailure = ''flush_failure''"
| "sink_error_class_label OtherClass = ''other''"

fun sink_type_label :: "SinkType \<Rightarrow> string" where
  "sink_type_label StdoutType = ''stdout''"
| "sink_type_label FileType = ''file''"
| "sink_type_label MemoryType = ''memory''"
| "sink_type_label KafkaType = ''kafka''"
| "sink_type_label NatsType = ''nats''"
| "sink_type_label TeeType = ''tee''"

fun type_requires_structured_records :: "SinkType \<Rightarrow> bool" where
  "type_requires_structured_records KafkaType = True"
| "type_requires_structured_records NatsType = True"
| "type_requires_structured_records _ = False"

definition sink_error_new :: "SinkErrorClass \<Rightarrow> string \<Rightarrow> SinkError" where
  "sink_error_new c source = \<lparr>se_class = c, se_source = source\<rparr>"

definition sink_error_other :: "string \<Rightarrow> SinkError" where
  "sink_error_other source = sink_error_new OtherClass source"

text \<open>A trait object: one field per method. The asynchronous methods that only read are functions of the
  world and the state.\<close>

type_synonym ('w, 's) sink_call = "'w \<Rightarrow> 's \<Rightarrow> 'w \<times> 's \<times> unit result"
type_synonym class_counts = "u64 list"
type_synonym attribution = "(SinkType \<times> SinkErrorClass \<times> u64) list"

record ('w, 's) Sink =
  sk_write :: "bytes \<Rightarrow> ('w, 's) sink_call"
  sk_write_kind :: "RecordKind \<Rightarrow> bytes \<Rightarrow> ('w, 's) sink_call"
  sk_flush :: "('w, 's) sink_call"
  sk_close :: "('w, 's) sink_call"
  sk_last_write_delivered :: "'s \<Rightarrow> bool"
  sk_kind :: "'s \<Rightarrow> SinkType"
  sk_requires_structured_records :: "'w \<Rightarrow> 's \<Rightarrow> bool"
  sk_destinations :: "'w \<Rightarrow> 's \<Rightarrow> SinkType list"
  sk_dlq_records_delivered :: "'s \<Rightarrow> u64"
  sk_dlq_records_by_class :: "'s \<Rightarrow> class_counts"
  sk_dlq_records_by_type_and_class :: "'s \<Rightarrow> attribution"
  sk_probe :: "'w \<Rightarrow> 's \<Rightarrow> 'w \<times> (string + unit)"

definition default_dlq_by_type_and_class :: "SinkType \<Rightarrow> class_counts \<Rightarrow> attribution" where
  "default_dlq_by_type_and_class kind by_class =
     List.map_filter (\<lambda>c. let count = by_class ! sink_error_class_index c in
       if count > 0 then Some (kind, c, count) else None) sink_error_class_all"

text \<open>The trait with only its required methods given: every other method is the default.\<close>

definition sink_defaults ::
  "(bytes \<Rightarrow> ('w, 's) sink_call) \<Rightarrow> ('w, 's) sink_call \<Rightarrow> ('s \<Rightarrow> bool) \<Rightarrow> SinkType \<Rightarrow> ('w, 's) Sink" where
  "sink_defaults write flush delivered kind =
     \<lparr>sk_write = write,
      sk_write_kind = (\<lambda>_ data. write data),
      sk_flush = flush,
      sk_close = flush,
      sk_last_write_delivered = delivered,
      sk_kind = (\<lambda>_. kind),
      sk_requires_structured_records = (\<lambda>_ _. type_requires_structured_records kind),
      sk_destinations = (\<lambda>_ _. [kind]),
      sk_dlq_records_delivered = (\<lambda>_. 0),
      sk_dlq_records_by_class = (\<lambda>_. replicate 6 0),
      sk_dlq_records_by_type_and_class = (\<lambda>_. default_dlq_by_type_and_class kind (replicate 6 0)),
      sk_probe = (\<lambda>w _. (w, Inr ()))\<rparr>"

section \<open>Records waiting for acceptance\<close>

text \<open>The byte count is a \<^verbatim>\<open>usize\<close>; it is kept in \<^typ>\<open>int\<close> so that an underflow would show as a negative
  count. The invariant below excludes it.\<close>

record PendingBuffer =
  pb_entries :: "bytes list"
  pb_bytes :: int

definition pending_new :: PendingBuffer where
  "pending_new = \<lparr>pb_entries = [], pb_bytes = 0\<rparr>"

definition pending_is_empty :: "PendingBuffer \<Rightarrow> bool" where
  "pending_is_empty b = (pb_entries b = [])"

definition pending_front :: "PendingBuffer \<Rightarrow> bytes option" where
  "pending_front b = (case pb_entries b of [] \<Rightarrow> None | e # _ \<Rightarrow> Some e)"

definition reached_threshold :: "PendingBuffer \<Rightarrow> nat \<Rightarrow> bool" where
  "reached_threshold b threshold = (pb_bytes b \<ge> int threshold)"

definition pending_push :: "PendingBuffer \<Rightarrow> bytes \<Rightarrow> PendingBuffer" where
  "pending_push b entry = \<lparr>pb_entries = pb_entries b @ [entry], pb_bytes = pb_bytes b + int (length entry)\<rparr>"

definition push_record :: "PendingBuffer \<Rightarrow> bytes \<Rightarrow> PendingBuffer" where
  "push_record b data = pending_push b data"

definition settle_front :: "PendingBuffer \<Rightarrow> 'e + 'v \<Rightarrow> PendingBuffer \<times> ('e + 'v)" where
  "settle_front b outcome = (case outcome of
       Inl _ \<Rightarrow> (b, outcome)
     | Inr _ \<Rightarrow> (case pb_entries b of
         [] \<Rightarrow> (b, outcome)
       | entry # rest \<Rightarrow> (\<lparr>pb_entries = rest, pb_bytes = pb_bytes b - int (length entry)\<rparr>, outcome)))"

definition settle_all :: "PendingBuffer \<Rightarrow> 'e + 'v \<Rightarrow> PendingBuffer \<times> ('e + 'v)" where
  "settle_all b outcome = (case outcome of
       Inl _ \<Rightarrow> (b, outcome)
     | Inr _ \<Rightarrow> (\<lparr>pb_entries = [], pb_bytes = 0\<rparr>, outcome))"

definition restore_front :: "PendingBuffer \<Rightarrow> PendingBuffer \<Rightarrow> PendingBuffer" where
  "restore_front b batch = (if pending_is_empty batch then b
     else \<lparr>pb_entries = pb_entries batch @ pb_entries b, pb_bytes = pb_bytes b + pb_bytes batch\<rparr>)"

definition clamp_threshold :: "nat \<Rightarrow> nat" where
  "clamp_threshold bytes = max bytes 1"

section \<open>Bounded retry\<close>

record SinkRetry =
  sr_max_attempts :: u32
  sr_backoff_initial_ms :: u64
  sr_backoff_max_ms :: u64

definition sink_retry_default :: SinkRetry where
  "sink_retry_default = \<lparr>sr_max_attempts = 3, sr_backoff_initial_ms = 100, sr_backoff_max_ms = 2000\<rparr>"

definition next_backoff :: "u64 \<Rightarrow> u64 \<Rightarrow> u64" where
  "next_backoff current_ms max_ms = min (saturating_mul current_ms 2) max_ms"

text \<open>The loop of \<^verbatim>\<open>retry_with_backoff\<close>; \<^verbatim>\<open>sleep\<close> is what the world does while the task waits.\<close>

function retry_loop ::
  "nat \<Rightarrow> u64 \<Rightarrow> (u64 \<Rightarrow> 'w \<Rightarrow> 'w) \<Rightarrow> ('w \<Rightarrow> 'w \<times> 'a result) \<Rightarrow> nat \<Rightarrow> u64 \<Rightarrow> 'w \<Rightarrow> 'w \<times> 'a result" where
  "retry_loop max_attempts max_ms sleep op attempt delay_ms w = (case op w of
       (w', Inr v) \<Rightarrow> (w', Inr v)
     | (w', Inl err) \<Rightarrow>
         if attempt \<ge> max_attempts then (w', Inl err)
         else retry_loop max_attempts max_ms sleep op (attempt + 1) (next_backoff delay_ms max_ms)
                (if delay_ms > 0 then sleep delay_ms w' else w'))"
  by pat_completeness auto
termination
  by (relation "measure (\<lambda>(max_attempts, _, _, _, attempt, _, _). max_attempts - attempt)") auto

declare retry_loop.simps [simp del]

definition retry_with_backoff ::
  "SinkRetry \<Rightarrow> (u64 \<Rightarrow> 'w \<Rightarrow> 'w) \<Rightarrow> ('w \<Rightarrow> 'w \<times> 'a result) \<Rightarrow> 'w \<Rightarrow> 'w \<times> 'a result" where
  "retry_with_backoff retry sleep op w =
     retry_loop (max (unat (sr_max_attempts retry)) 1) (sr_backoff_max_ms retry) sleep op 1
       (min (sr_backoff_initial_ms retry) (sr_backoff_max_ms retry)) w"

section \<open>The buffer's byte count\<close>

definition pending_ok :: "PendingBuffer \<Rightarrow> bool" where
  "pending_ok b = (pb_bytes b = int (sum_list (map length (pb_entries b))))"

lemmas pending_defs = pending_new_def pending_push_def push_record_def settle_front_def settle_all_def
  restore_front_def pending_is_empty_def pending_front_def

lemma pending_ok_new [simp]: "pending_ok pending_new"
  by (simp add: pending_ok_def pending_new_def)

lemma pending_ok_push [simp]: "pending_ok b \<Longrightarrow> pending_ok (push_record b d)"
  by (simp add: pending_ok_def pending_defs)

lemma pending_ok_settle_front: "pending_ok b \<Longrightarrow> settle_front b r = (b', r') \<Longrightarrow> pending_ok b'"
  by (auto simp: pending_ok_def settle_front_def split: sum.splits list.splits)

lemma pending_ok_settle_all: "pending_ok b \<Longrightarrow> settle_all b r = (b', r') \<Longrightarrow> pending_ok b'"
  by (auto simp: pending_ok_def settle_all_def split: sum.splits)

lemma pending_ok_restore_front: "pending_ok b \<Longrightarrow> pending_ok c \<Longrightarrow> pending_ok (restore_front b c)"
  by (simp add: pending_ok_def restore_front_def)

lemma settle_all_simps [simp]:
  "settle_all b (Inl e) = (b, Inl e)" "settle_all b (Inr v) = (pending_new, Inr v)"
  by (simp_all add: settle_all_def pending_new_def)

lemma settle_front_Inl [simp]: "settle_front b (Inl e) = (b, Inl e)"
  by (simp add: settle_front_def)

lemma pb_entries_simps [simp]:
  "pb_entries pending_new = []" "pb_entries (push_record b d) = pb_entries b @ [d]"
  "pb_entries (restore_front b c) = pb_entries c @ pb_entries b"
  by (simp_all add: pending_defs)

lemma settle_front_Inr [simp]:
  "pb_entries (fst (settle_front b (Inr v))) = tl (pb_entries b)"
  "snd (settle_front b r) = r"
  by (simp_all add: settle_front_def split: list.splits sum.splits)

lemma pending_front_Some: "pending_front b = Some e \<longleftrightarrow> (\<exists>rest. pb_entries b = e # rest)"
  by (auto simp: pending_front_def split: list.splits)

lemma pending_front_None [simp]: "pending_front b = None \<longleftrightarrow> pb_entries b = []"
  by (auto simp: pending_front_def split: list.splits)

section \<open>The retry schedule\<close>

text \<open>Reference: try, and after each failure wait for the next delay of a given schedule; an exhausted
  schedule returns the failure.\<close>

fun try_with :: "(u64 \<Rightarrow> 'w \<Rightarrow> 'w) \<Rightarrow> ('w \<Rightarrow> 'w \<times> 'a result) \<Rightarrow> u64 list \<Rightarrow> 'w \<Rightarrow> 'w \<times> 'a result" where
  "try_with sleep op [] w = op w"
| "try_with sleep op (d # ds) w = (case op w of
       (w', Inr v) \<Rightarrow> (w', Inr v)
     | (w', Inl _) \<Rightarrow> try_with sleep op ds (if d > 0 then sleep d w' else w'))"

text \<open>The doubling schedule under its cap.\<close>

definition backoff_delay :: "SinkRetry \<Rightarrow> nat \<Rightarrow> u64" where
  "backoff_delay r i = of_nat (min (unat (sr_backoff_initial_ms r) * 2 ^ i) (unat (sr_backoff_max_ms r)))"

lemma unat_backoff_delay:
  "unat (backoff_delay r i) = min (unat (sr_backoff_initial_ms r) * 2 ^ i) (unat (sr_backoff_max_ms r))"
proof -
  have "min (unat (sr_backoff_initial_ms r) * 2 ^ i) (unat (sr_backoff_max_ms r)) < 2 ^ LENGTH(64)"
    using unsigned_less [of "sr_backoff_max_ms r", where 'a = nat] by (simp add: min_less_iff_disj)
  then show ?thesis by (simp add: backoff_delay_def unat_of_nat take_bit_nat_eq_self)
qed

lemma next_backoff_delay: "next_backoff (backoff_delay r i) (sr_backoff_max_ms r) = backoff_delay r (Suc i)"
proof -
  have "unat (next_backoff (backoff_delay r i) (sr_backoff_max_ms r)) = unat (backoff_delay r (Suc i))"
    using unat_u64_bound [of "sr_backoff_max_ms r"]
    by (auto simp: next_backoff_def min_def unat_saturating_mul unat_backoff_delay word_le_nat_alt)
  then show ?thesis by (simp only: word_unat_eq_iff)
qed

lemma backoff_delay_0: "backoff_delay r 0 = min (sr_backoff_initial_ms r) (sr_backoff_max_ms r)"
  by (auto simp: word_unat_eq_iff unat_backoff_delay min_def word_le_nat_alt)

lemma retry_loop_try_with:
  "retry_loop (attempt + n) (sr_backoff_max_ms r) sleep op attempt (backoff_delay r i) w =
   try_with sleep op (map (backoff_delay r) [i..<i + n]) w"
proof (induction n arbitrary: attempt i w)
  case 0
  then show ?case
    by (subst retry_loop.simps) (auto split: prod.splits sum.splits)
next
  case (Suc n)
  have range: "[i..<Suc (i + n)] = i # [Suc i..<Suc (i + n)]"
    by (simp add: upt_conv_Cons del: upt_Suc)
  show ?case
    using Suc [of "Suc attempt" "Suc i"]
    by (subst retry_loop.simps) (simp add: range next_backoff_delay del: upt_Suc split: prod.splits sum.splits)
qed

lemma retry_with_backoff_try_with:
  "retry_with_backoff r sleep op w =
   try_with sleep op (map (backoff_delay r) [0..<max (unat (sr_max_attempts r)) 1 - 1]) w"
proof -
  define n where "n = max (unat (sr_max_attempts r)) 1 - 1"
  then have "max (unat (sr_max_attempts r)) 1 = 1 + n" by simp
  then show ?thesis
    using retry_loop_try_with [of 1 n r sleep op 0 w]
    by (simp add: retry_with_backoff_def backoff_delay_0 del: upt_Suc)
qed

text \<open>An invariant of the world that the operation and the waiting keep holds after the retries; a success
  is a success of the operation.\<close>

lemma try_with_rel:
  assumes "try_with sleep op ds w = (w', r)"
    and refl: "\<And>u. R u u" and trans: "\<And>u v x. R u v \<Longrightarrow> R v x \<Longrightarrow> R u x"
    and sleep: "\<And>d u. R u (sleep d u)" and op: "\<And>u v e. op u = (v, Inl e) \<Longrightarrow> R u v"
  shows "\<exists>u. R w u \<and> op u = (w', r)"
  using assms(1)
proof (induction ds arbitrary: w)
  case (Cons d ds)
  show ?case
  proof (cases "op w")
    case (Pair v q)
    show ?thesis
    proof (cases q)
      case (Inl e)
      then obtain u where "R (if d > 0 then sleep d v else v) u" "op u = (w', r)"
        using Cons Pair by auto
      moreover have "R w (if d > 0 then sleep d v else v)"
        using op [of w v e] Pair Inl sleep trans by auto
      ultimately show ?thesis using trans by blast
    next
      case (Inr x)
      then show ?thesis using Cons(2) Pair refl by auto
    qed
  qed
qed (use refl in auto)

lemma retry_with_backoff_rel:
  assumes "retry_with_backoff retry sleep op w = (w', r)"
    and "\<And>u. R u u" "\<And>u v x. R u v \<Longrightarrow> R v x \<Longrightarrow> R u x"
    and "\<And>d u. R u (sleep d u)" "\<And>u v e. op u = (v, Inl e) \<Longrightarrow> R u v"
  shows "\<exists>u. R w u \<and> op u = (w', r)"
  using assms unfolding retry_with_backoff_try_with by (rule try_with_rel)

text \<open>C24: For every policy and every operation, \<^verbatim>\<open>retry_with_backoff\<close> runs the operation once and then
  again after each delay of the schedule of \<^verbatim>\<open>max(max_attempts, 1) - 1\<close> delays that starts at the initial
  backoff, doubles, and never exceeds the cap (no overflow at any length), until one succeeds; the last
  failure is returned.\<close>

theorem retry_schedule:
  "retry_with_backoff r sleep op w =
     try_with sleep op (map (backoff_delay r) [0..<max (unat (sr_max_attempts r)) 1 - 1]) w
   \<and> unat (backoff_delay r i) = min (unat (sr_backoff_initial_ms r) * 2 ^ i) (unat (sr_backoff_max_ms r))"
  by (simp only: retry_with_backoff_try_with unat_backoff_delay simp_thms)

text \<open>The world with a counter of the operation's runs.\<close>

definition counting :: "('w \<Rightarrow> 'w \<times> 'a result) \<Rightarrow> nat \<times> 'w \<Rightarrow> (nat \<times> 'w) \<times> 'a result" where
  "counting op u = (case op (snd u) of (w', r) \<Rightarrow> ((Suc (fst u), w'), r))"

lemma try_with_count:
  "fst (fst (try_with (\<lambda>d u. (fst u, sleep d (snd u))) (counting op) ds u)) \<in> {Suc (fst u)..Suc (fst u) + length ds}"
proof (induction ds arbitrary: u)
  case Nil
  then show ?case by (simp add: counting_def split: prod.splits)
next
  case (Cons d ds)
  obtain w' r where op: "op (snd u) = (w', r)" by fastforce
  show ?case
  proof (cases r)
    case (Inl e)
    then show ?thesis
      using Cons [of "(Suc (fst u), if d > 0 then sleep d w' else w')"] op by (auto simp: counting_def split: if_splits)
  qed (use op in \<open>simp add: counting_def\<close>)
qed

text \<open>C32: The retry loop ends for every operation and every policy: the operation runs at least once and at most
  \<^verbatim>\<open>max(max_attempts, 1)\<close> times.\<close>

theorem retry_terminates:
  "fst (fst (retry_with_backoff r (\<lambda>d u. (fst u, sleep d (snd u))) (counting op) (0, w))) \<in>
     {1..max (unat (sr_max_attempts r)) 1}"
  using try_with_count [of sleep op _ "(0, w)"] unfolding retry_with_backoff_try_with by fastforce

section \<open>The contract of a broker sink\<close>

text \<open>A sequence of calls; a failed call is followed by the next one, as the pipeline and the server do.\<close>

datatype sink_request = Put RecordKind bytes | Flush

fun run_requests ::
  "(RecordKind \<Rightarrow> bytes \<Rightarrow> ('w, 's) sink_call) \<Rightarrow> ('w, 's) sink_call \<Rightarrow> sink_request list \<Rightarrow> 'w \<Rightarrow> 's \<Rightarrow> 'w \<times> 's" where
  "run_requests wk fl [] w s = (w, s)"
| "run_requests wk fl (Put k d # rs) w s = (case wk k d w s of (w', s', _) \<Rightarrow> run_requests wk fl rs w' s')"
| "run_requests wk fl (Flush # rs) w s = (case fl w s of (w', s', _) \<Rightarrow> run_requests wk fl rs w' s')"

fun requested :: "RecordKind \<Rightarrow> sink_request list \<Rightarrow> bytes multiset" where
  "requested k [] = {#}"
| "requested k (Put j d # rs) = (if j = k then {#d#} else {#}) + requested k rs"
| "requested k (Flush # rs) = requested k rs"

text \<open>What destinations have accepted never shrinks.\<close>

definition grows :: "('w \<Rightarrow> string \<Rightarrow> bytes multiset) \<Rightarrow> 'w \<Rightarrow> 'w \<Rightarrow> bool" where
  "grows accepted w w' \<longleftrightarrow> (\<forall>t. accepted w t \<subseteq># accepted w' t)"

lemma grows_refl [simp]: "grows accepted w w"
  by (simp add: grows_def)

lemma grows_trans: "grows accepted u v \<Longrightarrow> grows accepted v w \<Longrightarrow> grows accepted u w"
  unfolding grows_def by (blast intro: subset_mset.trans)

lemma growsD: "grows accepted w w' \<Longrightarrow> accepted w t \<subseteq># accepted w' t"
  by (simp add: grows_def)

lemma mset_chain: "a \<subseteq># b \<Longrightarrow> c + b \<subseteq># d \<Longrightarrow> c + a \<subseteq># (d :: 'x multiset)"
  by (rule subset_mset.trans [OF subset_mset.add_left_mono])

text \<open>What a primary destination and a dead-letter one have accepted, each destination counted once.\<close>

definition either_accepted :: "(string \<Rightarrow> bytes multiset) \<Rightarrow> string \<Rightarrow> string option \<Rightarrow> bytes multiset" where
  "either_accepted acc primary dlq = acc primary +
     (case dlq of None \<Rightarrow> {#} | Some t \<Rightarrow> if t = primary then {#} else acc t)"

lemma either_accepted_grows:
  "grows accepted w w' \<Longrightarrow> either_accepted (accepted w) t d \<subseteq># either_accepted (accepted w') t d"
  by (auto simp: grows_def either_accepted_def intro!: subset_mset.add_mono split: option.splits)

lemma either_accepted_primary:
  assumes "grows accepted w w'" "accepted w t + m \<subseteq># accepted w' t"
  shows "m + either_accepted (accepted w) t d \<subseteq># either_accepted (accepted w') t d"
proof -
  have "(accepted w t + m) + (case d of None \<Rightarrow> {#} | Some u \<Rightarrow> if u = t then {#} else accepted w u) \<subseteq>#
      accepted w' t + (case d of None \<Rightarrow> {#} | Some u \<Rightarrow> if u = t then {#} else accepted w' u)"
    using assms by (intro subset_mset.add_mono) (auto simp: grows_def split: option.splits)
  then show ?thesis by (simp add: either_accepted_def ac_simps)
qed

lemma either_accepted_dlq:
  assumes g: "grows accepted w w'" and acc: "accepted w u + m \<subseteq># accepted w' u"
  shows "m + either_accepted (accepted w) t (Some u) \<subseteq># either_accepted (accepted w') t (Some u)"
proof (cases "u = t")
  case True
  then show ?thesis using either_accepted_primary [OF g, of t m] acc by simp
next
  case False
  have "accepted w t + (accepted w u + m) \<subseteq># accepted w' t + accepted w' u"
    using growsD [OF g] acc by (rule subset_mset.add_mono)
  then show ?thesis using False by (simp add: either_accepted_def ac_simps)
qed

text \<open>\<^verbatim>\<open>held s k\<close> is what the sink still has of stream \<^verbatim>\<open>k\<close>, \<^verbatim>\<open>taken w s k\<close> what the destinations of that
  stream have accepted; \<^verbatim>\<open>lawful\<close> is the documented behaviour of the client library.\<close>

locale at_least_once =
  fixes lawful :: bool
    and invar :: "'s \<Rightarrow> bool"
    and wk :: "RecordKind \<Rightarrow> bytes \<Rightarrow> ('w, 's) sink_call"
    and fl :: "('w, 's) sink_call"
    and delivered :: "'s \<Rightarrow> bool"
    and held :: "'s \<Rightarrow> RecordKind \<Rightarrow> bytes multiset"
    and taken :: "'w \<Rightarrow> 's \<Rightarrow> RecordKind \<Rightarrow> bytes multiset"
  assumes put_invar: "lawful \<Longrightarrow> invar s \<Longrightarrow> wk k d w s = (w', s', r) \<Longrightarrow> invar s'"
    and put_keeps: "lawful \<Longrightarrow> invar s \<Longrightarrow> wk k d w s = (w', s', r) \<Longrightarrow>
      (if j = k then {#d#} else {#}) + (held s j + taken w s j) \<subseteq># held s' j + taken w' s' j"
    and put_delivered: "lawful \<Longrightarrow> invar s \<Longrightarrow> wk k d w s = (w', s', r) \<Longrightarrow> delivered s' \<Longrightarrow> held s' k = {#}"
    and flush_invar: "lawful \<Longrightarrow> invar s \<Longrightarrow> fl w s = (w', s', r) \<Longrightarrow> invar s'"
    and flush_keeps: "lawful \<Longrightarrow> invar s \<Longrightarrow> fl w s = (w', s', r) \<Longrightarrow>
      held s j + taken w s j \<subseteq># held s' j + taken w' s' j"
    and flush_empties: "lawful \<Longrightarrow> invar s \<Longrightarrow> fl w s = (w', s', Inr ()) \<Longrightarrow> held s' j = {#} \<and> delivered s'"
begin

lemma run_invar: "lawful \<Longrightarrow> invar s \<Longrightarrow> run_requests wk fl rs w s = (w', s') \<Longrightarrow> invar s'"
proof (induction rs arbitrary: w s)
  case (Cons q rs)
  then show ?case
    by (cases q) (auto split: prod.splits dest: put_invar flush_invar)
qed simp

lemma run_keeps:
  "lawful \<Longrightarrow> invar s \<Longrightarrow> run_requests wk fl rs w s = (w', s') \<Longrightarrow>
   requested k rs + (held s k + taken w s k) \<subseteq># held s' k + taken w' s' k"
proof (induction rs arbitrary: w s)
  case (Cons q rs)
  show ?case
  proof (cases q)
    case (Put j d)
    obtain w1 s1 r where step: "wk j d w s = (w1, s1, r)" by (cases "wk j d w s") auto
    have "requested k rs + (held s1 k + taken w1 s1 k) \<subseteq># held s' k + taken w' s' k"
      using Cons(4) Put step by (intro Cons.IH Cons.prems put_invar [OF Cons(2,3) step]) simp
    moreover have "(if j = k then {#d#} else {#}) + (held s k + taken w s k) \<subseteq># held s1 k + taken w1 s1 k"
      using put_keeps [OF Cons(2,3) step, of k] by (simp split: if_splits)
    ultimately have "requested k rs + ((if j = k then {#d#} else {#}) + (held s k + taken w s k)) \<subseteq># held s' k + taken w' s' k"
      by (rule mset_chain [rotated])
    then show ?thesis
      unfolding Put requested.simps by (simp only: ac_simps)
  next
    case Flush
    obtain w1 s1 r where step: "fl w s = (w1, s1, r)" by (cases "fl w s") auto
    have "requested k rs + (held s1 k + taken w1 s1 k) \<subseteq># held s' k + taken w' s' k"
      using Cons(4) Flush step by (intro Cons.IH Cons.prems flush_invar [OF Cons(2,3) step]) simp
    then show ?thesis
      using flush_keeps [OF Cons(2,3) step, of k] unfolding Flush requested.simps
      by (rule mset_chain [rotated])
  qed
qed simp

lemma run_flushed:
  assumes "lawful" "invar s" "run_requests wk fl rs w s = (w1, s1)" "fl w1 s1 = (w2, s2, Inr ())"
  shows "requested k rs + (held s k + taken w s k) \<subseteq># taken w2 s2 k \<and> delivered s2"
proof -
  have inv: "invar s1" by (rule run_invar [OF assms(1,2,3)])
  have "held s2 k = {#}" "delivered s2" using flush_empties [OF assms(1) inv assms(4)] by auto
  then show ?thesis
    using run_keeps [OF assms(1,2,3), of k] flush_keeps [OF assms(1) inv assms(4), of k]
    by (auto intro: subset_mset.trans)
qed

end

end
