(* ===== verification/Sink_Kafka.thy ===== *)
theory Sink_Kafka
  imports Sink_Core
begin

text \<open>
  The Kafka sink, \<^verbatim>\<open>rastreo-core/src/sink/kafka.rs\<close>: its configuration and validation, connecting, the
  three stream buffers, the retried produce, the dead-letter topic, flush and probe. The rskafka client,
  the certificate parser, the clock and the tokio timer are the fields of \<^verbatim>\<open>KafkaLib\<close>.

  \<^verbatim>\<open>kafka_lawful\<close> states what the client library promises of the multiset of records each topic has
  accepted; under it the sink meets the contract \<^verbatim>\<open>at_least_once\<close>.
\<close>

section \<open>Configuration\<close>

record DeadLetterConfig =
  dl_topic :: string
  dl_include_error_metadata :: bool

definition dead_letter_validate :: "DeadLetterConfig \<Rightarrow> unit result" where
  "dead_letter_validate c = (if trim (dl_topic c) = []
     then Inl (EConfig (InvalidValue ''kafka sink: dead-letter topic is empty'')) else Inr ())"

record KafkaTls =
  kt_verify :: bool
  kt_ca_cert :: "string option"

datatype SaslMechanism = Plain | ScramSha256 | ScramSha512

record KafkaSasl =
  sasl_mechanism :: SaslMechanism
  sasl_username :: string
  sasl_password :: string

definition kafka_sasl_validate :: "KafkaSasl \<Rightarrow> unit result" where
  "kafka_sasl_validate s = (if trim (sasl_username s) = []
     then Inl (EConfig (InvalidValue ''kafka sink: sasl username is empty'')) else Inr ())"

text \<open>rskafka's SASL configuration and client builder, and the TLS client configuration: accept any server
  certificate, or trust the bundled web roots and these added certificates.\<close>

datatype SaslConfig = SaslPlain string string | SaslScramSha256 string string | SaslScramSha512 string string

datatype 'cert ClientConfig = AcceptAnyVerifier | RootCertificates "'cert list"

record 'cert ClientBuilder =
  cb_brokers :: "string list"
  cb_tls_config :: "'cert ClientConfig option"
  cb_sasl_config :: "SaslConfig option"

record Record =
  rec_value :: bytes
  rec_headers :: "(string \<times> string) list"
  rec_timestamp :: int

definition to_sasl_config :: "KafkaSasl \<Rightarrow> SaslConfig" where
  "to_sasl_config s = (case sasl_mechanism s of
       Plain \<Rightarrow> SaslPlain (sasl_username s) (sasl_password s)
     | ScramSha256 \<Rightarrow> SaslScramSha256 (sasl_username s) (sasl_password s)
     | ScramSha512 \<Rightarrow> SaslScramSha512 (sasl_username s) (sasl_password s))"

text \<open>The client library. A failure is its display text; \<^verbatim>\<open>kl_timeout\<close> says whether a connect attempt
  exceeds its deadline.\<close>

record ('w, 'k, 'c, 'cert) KafkaLib =
  kl_pem_certs :: "string \<Rightarrow> string + 'cert list"
  kl_parsable :: "'cert list \<Rightarrow> 'cert list"
  kl_build :: "'w \<Rightarrow> 'cert ClientBuilder \<Rightarrow> 'w \<times> (string + 'k)"
  kl_partition_client :: "'w \<Rightarrow> 'k \<Rightarrow> string \<Rightarrow> 'w \<times> (string + 'c)"
  kl_timeout :: "nat \<Rightarrow> 'w \<Rightarrow> 'w \<times> bool"
  kl_produce :: "'w \<Rightarrow> 'c \<Rightarrow> Record list \<Rightarrow> 'w \<times> (string + unit)"
  kl_get_offset :: "'w \<Rightarrow> 'c \<Rightarrow> 'w \<times> (string + unit)"
  kl_sleep :: "u64 \<Rightarrow> 'w \<Rightarrow> 'w"
  kl_now :: "'w \<Rightarrow> int"
  kl_rfc3339 :: "int \<Rightarrow> string"

definition parse_ca_certs :: "('w, 'k, 'c, 'cert) KafkaLib \<Rightarrow> string \<Rightarrow> 'cert list result" where
  "parse_ca_certs lib pem = (case kl_pem_certs lib pem of
       Inl e \<Rightarrow> Inl (EConfig (InvalidValue (''kafka sink: tls.ca_cert is not valid PEM: '' @ e)))
     | Inr certs \<Rightarrow> if certs = []
         then Inl (EConfig (InvalidValue ''kafka sink: tls.ca_cert contained no certificate''))
         else Inr certs)"

definition kafka_tls_validate :: "('w, 'k, 'c, 'cert) KafkaLib \<Rightarrow> KafkaTls \<Rightarrow> unit result" where
  "kafka_tls_validate lib t = (if \<not> kt_verify t \<and> kt_ca_cert t \<noteq> None
     then Inl (EConfig (InvalidValue ''kafka sink: tls.ca_cert requires tls.verify: true''))
     else case kt_ca_cert t of
       Some ca_pem \<Rightarrow> (case parse_ca_certs lib ca_pem of Inl e \<Rightarrow> Inl e | Inr _ \<Rightarrow> Inr ())
     | None \<Rightarrow> Inr ())"

definition build_client_config :: "('w, 'k, 'c, 'cert) KafkaLib \<Rightarrow> KafkaTls \<Rightarrow> 'cert ClientConfig result" where
  "build_client_config lib t = (if kt_verify t then
       (case kt_ca_cert t of
          None \<Rightarrow> Inr (RootCertificates [])
        | Some ca_pem \<Rightarrow> (case parse_ca_certs lib ca_pem of
            Inl e \<Rightarrow> Inl e
          | Inr certs \<Rightarrow> let added = kl_parsable lib certs in
              if length added = 0
              then Inl (EConfig (InvalidValue ''kafka sink: tls.ca_cert contained no usable certificate''))
              else Inr (RootCertificates added)))
     else Inr AcceptAnyVerifier)"

definition configure_client_builder ::
  "string list \<Rightarrow> 'cert ClientConfig option \<Rightarrow> KafkaSasl option \<Rightarrow> 'cert ClientBuilder" where
  "configure_client_builder brokers tls_config sasl =
     \<lparr>cb_brokers = brokers, cb_tls_config = tls_config, cb_sasl_config = map_option to_sasl_config sasl\<rparr>"

section \<open>Connecting\<close>

definition connect_partition_client ::
  "('w, 'k, 'c, 'cert) KafkaLib \<Rightarrow> 'w \<Rightarrow> string list \<Rightarrow> string \<Rightarrow> 'cert ClientConfig option \<Rightarrow>
   KafkaSasl option \<Rightarrow> 'w \<times> 'c result" where
  "connect_partition_client lib w brokers topic tls_config sasl =
     (let brokers_for_err = join '','' brokers in
      case kl_build lib w (configure_client_builder brokers tls_config sasl) of
        (w1, Inl e) \<Rightarrow> (w1, Inl (ESink (sink_error_other
          (''kafka sink: failed to connect to broker(s) '' @ quoted brokers_for_err @ '': '' @ e))))
      | (w1, Inr kafka_client) \<Rightarrow>
          (case kl_partition_client lib w1 kafka_client topic of
             (w2, Inl e) \<Rightarrow> (w2, Inl (ESink (sink_error_other
               (''kafka sink: failed to get partition client for topic '' @ quoted topic @ '' at broker(s) '' @ quoted brokers_for_err @ '': '' @ e))))
           | (w2, Inr client) \<Rightarrow> (w2, Inr client)))"

text \<open>\<^verbatim>\<open>tokio::time::timeout\<close> around a connect; \<^verbatim>\<open>what\<close> is the text between the broker list and the deadline.\<close>

definition connect_within ::
  "('w, 'k, 'c, 'cert) KafkaLib \<Rightarrow> 'w \<Rightarrow> string list \<Rightarrow> string \<Rightarrow> 'cert ClientConfig option \<Rightarrow>
   KafkaSasl option \<Rightarrow> nat \<Rightarrow> string \<Rightarrow> 'w \<times> 'c result" where
  "connect_within lib w brokers topic tls_config sasl secs what =
     (case kl_timeout lib secs w of
        (w1, True) \<Rightarrow> (w1, Inl (ESink (sink_error_other
          (''kafka sink: connecting to broker(s) '' @ quoted (join '','' brokers) @ what @
           '' timed out after '' @ show_nat secs @ ''s''))))
      | (w1, False) \<Rightarrow> connect_partition_client lib w1 brokers topic tls_config sasl)"

definition connect_partition_client_bounded ::
  "('w, 'k, 'c, 'cert) KafkaLib \<Rightarrow> 'w \<Rightarrow> string list \<Rightarrow> string \<Rightarrow> 'cert ClientConfig option \<Rightarrow>
   KafkaSasl option \<Rightarrow> nat \<Rightarrow> 'w \<times> 'c result" where
  "connect_partition_client_bounded lib w brokers topic tls_config sasl secs =
     connect_within lib w brokers topic tls_config sasl secs ('' for topic '' @ quoted topic)"

section \<open>The sink\<close>

datatype KafkaFlushMode = KafkaPerRecord | KafkaBatched nat

record ('c, 'cert) KafkaSink =
  ks_topic :: string
  ks_brokers :: "string list"
  ks_client :: 'c
  ks_buffer :: PendingBuffer
  ks_buffer_threshold :: nat
  ks_last_write_delivered :: bool
  ks_dlq_client :: "'c option"
  ks_dlq_topic :: "string option"
  ks_include_error_metadata :: bool
  ks_dlq_delivered :: u64
  ks_tls_config :: "'cert ClientConfig option"
  ks_sasl :: "KafkaSasl option"
  ks_retry :: SinkRetry
  ks_links_topic :: string
  ks_links_client :: "'c option"
  ks_links_buffer :: PendingBuffer
  ks_profiles_topic :: string
  ks_profiles_client :: "'c option"
  ks_profiles_buffer :: PendingBuffer

definition kafka_default_buffer_threshold :: nat where
  "kafka_default_buffer_threshold = 64 * 1024"

definition kafka_connect_timeout :: nat where
  "kafka_connect_timeout = 10"

fun kafka_to_threshold :: "KafkaFlushMode \<Rightarrow> nat" where
  "kafka_to_threshold KafkaPerRecord = 1"
| "kafka_to_threshold (KafkaBatched threshold_bytes) = clamp_threshold threshold_bytes"

definition kafka_new_with_connect_timeout ::
  "('w, 'k, 'c, 'cert) KafkaLib \<Rightarrow> 'w \<Rightarrow> string list \<Rightarrow> string \<Rightarrow> KafkaTls option \<Rightarrow> KafkaSasl option \<Rightarrow>
   nat \<Rightarrow> 'w \<times> ('c, 'cert) KafkaSink result" where
  "kafka_new_with_connect_timeout lib w brokers topic tls sasl secs =
     (case (case tls of None \<Rightarrow> Inr None
            | Some t \<Rightarrow> (case build_client_config lib t of Inl e \<Rightarrow> Inl e | Inr c \<Rightarrow> Inr (Some c))) of
        Inl e \<Rightarrow> (w, Inl e)
      | Inr tls_config \<Rightarrow>
          (case connect_within lib w brokers topic tls_config sasl secs [] of
             (w1, Inl e) \<Rightarrow> (w1, Inl e)
           | (w1, Inr client) \<Rightarrow> (w1, Inr
               \<lparr>ks_topic = topic, ks_brokers = brokers, ks_client = client, ks_buffer = pending_new,
                ks_buffer_threshold = kafka_default_buffer_threshold, ks_last_write_delivered = False,
                ks_dlq_client = None, ks_dlq_topic = None, ks_include_error_metadata = False,
                ks_dlq_delivered = 0, ks_tls_config = tls_config, ks_sasl = sasl,
                ks_retry = sink_retry_default, ks_links_topic = default_links_destination,
                ks_links_client = None, ks_links_buffer = pending_new,
                ks_profiles_topic = default_profiles_destination, ks_profiles_client = None,
                ks_profiles_buffer = pending_new\<rparr>)))"

definition kafka_new ::
  "('w, 'k, 'c, 'cert) KafkaLib \<Rightarrow> 'w \<Rightarrow> string list \<Rightarrow> string \<Rightarrow> KafkaTls option \<Rightarrow> KafkaSasl option \<Rightarrow>
   'w \<times> ('c, 'cert) KafkaSink result" where
  "kafka_new lib w brokers topic tls sasl =
     kafka_new_with_connect_timeout lib w brokers topic tls sasl kafka_connect_timeout"

definition kafka_with_dead_letter ::
  "('w, 'k, 'c, 'cert) KafkaLib \<Rightarrow> 'w \<Rightarrow> ('c, 'cert) KafkaSink \<Rightarrow> DeadLetterConfig \<Rightarrow>
   'w \<times> ('c, 'cert) KafkaSink result" where
  "kafka_with_dead_letter lib w s config = (case dead_letter_validate config of
       Inl e \<Rightarrow> (w, Inl e)
     | Inr _ \<Rightarrow> let dlq_topic = dl_topic config in
         (case connect_within lib w (ks_brokers s) dlq_topic (ks_tls_config s) (ks_sasl s) kafka_connect_timeout
                 ('' for dead-letter topic '' @ quoted dlq_topic) of
            (w1, Inl e) \<Rightarrow> (w1, Inl e)
          | (w1, Inr dlq_client) \<Rightarrow> (w1, Inr (s\<lparr>ks_dlq_client := Some dlq_client, ks_dlq_topic := Some dlq_topic,
              ks_include_error_metadata := dl_include_error_metadata config\<rparr>))))"

section \<open>Delivery\<close>

definition build_records :: "PendingBuffer \<Rightarrow> (string \<times> string) list \<Rightarrow> int \<Rightarrow> Record list" where
  "build_records buffer headers timestamp =
     map (\<lambda>value. \<lparr>rec_value = value, rec_headers = headers, rec_timestamp = timestamp\<rparr>) (pb_entries buffer)"

definition build_produce_error :: "string \<Rightarrow> string list \<Rightarrow> string \<Rightarrow> RastreoError" where
  "build_produce_error topic brokers err = ESink (sink_error_new ProduceFailure
     (''kafka sink: failed to produce record to topic '' @ quoted topic @ '' at broker(s) '' @ quoted (join '','' brokers) @ '': '' @ err))"

definition kafka_build_dlq_headers ::
  "('w, 'k, 'c, 'cert) KafkaLib \<Rightarrow> 'w \<Rightarrow> string \<Rightarrow> SinkErrorClass \<Rightarrow> (string \<times> string) list" where
  "kafka_build_dlq_headers lib w source_topic error_class =
     [(''x-rastreo-dlq-timestamp'', kl_rfc3339 lib (kl_now lib w)),
      (''x-rastreo-error-class'', sink_error_class_label error_class),
      (''x-rastreo-source-topic'', source_topic)]"

definition produce_buffer ::
  "('w, 'k, 'c, 'cert) KafkaLib \<Rightarrow> 'w \<Rightarrow> 'c \<Rightarrow> PendingBuffer \<Rightarrow> (string \<times> string) list \<Rightarrow> string \<Rightarrow>
   string list \<Rightarrow> SinkRetry \<Rightarrow> 'w \<times> unit result" where
  "produce_buffer lib w client buffer headers topic brokers retry =
     (let timestamp = kl_now lib w in
      retry_with_backoff retry (kl_sleep lib)
        (\<lambda>u. case kl_produce lib u client (build_records buffer headers timestamp) of
           (u', Inl e) \<Rightarrow> (u', Inl (build_produce_error topic brokers e))
         | (u', Inr _) \<Rightarrow> (u', Inr ())) w)"

definition kafka_publish_buffer ::
  "('w, 'k, 'c, 'cert) KafkaLib \<Rightarrow> ('w, ('c, 'cert) KafkaSink) sink_call" where
  "kafka_publish_buffer lib w s = (if pending_is_empty (ks_buffer s) then (w, s, Inr ()) else
     let record_count = length (pb_entries (ks_buffer s));
         (w1, primary_result) =
           produce_buffer lib w (ks_client s) (ks_buffer s) [] (ks_topic s) (ks_brokers s) (ks_retry s);
         (b1, settled) = settle_all (ks_buffer s) primary_result;
         s1 = s\<lparr>ks_buffer := b1\<rparr> in
     case settled of
       Inr _ \<Rightarrow> (w1, s1, Inr ())
     | Inl primary_err \<Rightarrow> (case (ks_dlq_client s1, ks_dlq_topic s1) of
         (Some dlq_client, Some dlq_topic) \<Rightarrow>
           let dlq_headers = (if ks_include_error_metadata s1
                 then kafka_build_dlq_headers lib w1 (ks_topic s1) ProduceFailure else []);
               (w2, dlq_result) = kl_produce lib w1 dlq_client (build_records b1 dlq_headers (kl_now lib w1));
               (b2, dlq_settled) = settle_all b1 dlq_result;
               s2 = s1\<lparr>ks_buffer := b2\<rparr> in
           (case dlq_settled of
              Inr _ \<Rightarrow> (w2, s2\<lparr>ks_dlq_delivered := ks_dlq_delivered s2 + of_nat record_count\<rparr>, Inr ())
            | Inl _ \<Rightarrow> (w2, s2, Inl primary_err))
       | _ \<Rightarrow> (w1, s1, Inl primary_err)))"

definition take_links_client ::
  "('w, 'k, 'c, 'cert) KafkaLib \<Rightarrow> 'w \<Rightarrow> ('c, 'cert) KafkaSink \<Rightarrow> 'w \<times> ('c, 'cert) KafkaSink \<times> 'c result" where
  "take_links_client lib w s = (let s1 = s\<lparr>ks_links_client := None\<rparr> in
     case ks_links_client s of
       Some client \<Rightarrow> (w, s1, Inr client)
     | None \<Rightarrow> (case connect_partition_client_bounded lib w (ks_brokers s) (ks_links_topic s) (ks_tls_config s)
                     (ks_sasl s) kafka_connect_timeout of (w1, r) \<Rightarrow> (w1, s1, r)))"

definition publish_links_buffer ::
  "('w, 'k, 'c, 'cert) KafkaLib \<Rightarrow> ('w, ('c, 'cert) KafkaSink) sink_call" where
  "publish_links_buffer lib w s = (if pending_is_empty (ks_links_buffer s) then (w, s, Inr ()) else
     case take_links_client lib w s of
       (w1, s1, Inl e) \<Rightarrow> (w1, s1, Inl e)
     | (w1, s1, Inr client) \<Rightarrow>
         let (w2, result) = produce_buffer lib w1 client (ks_links_buffer s1) [] (ks_links_topic s1) (ks_brokers s1) (ks_retry s1);
             (b, settled) = settle_all (ks_links_buffer s1) result in
         (w2, s1\<lparr>ks_links_client := Some client, ks_links_buffer := b\<rparr>, settled))"

definition take_profiles_client ::
  "('w, 'k, 'c, 'cert) KafkaLib \<Rightarrow> 'w \<Rightarrow> ('c, 'cert) KafkaSink \<Rightarrow> 'w \<times> ('c, 'cert) KafkaSink \<times> 'c result" where
  "take_profiles_client lib w s = (let s1 = s\<lparr>ks_profiles_client := None\<rparr> in
     case ks_profiles_client s of
       Some client \<Rightarrow> (w, s1, Inr client)
     | None \<Rightarrow> (case connect_partition_client_bounded lib w (ks_brokers s) (ks_profiles_topic s) (ks_tls_config s)
                     (ks_sasl s) kafka_connect_timeout of (w1, r) \<Rightarrow> (w1, s1, r)))"

definition publish_profiles_buffer ::
  "('w, 'k, 'c, 'cert) KafkaLib \<Rightarrow> ('w, ('c, 'cert) KafkaSink) sink_call" where
  "publish_profiles_buffer lib w s = (if pending_is_empty (ks_profiles_buffer s) then (w, s, Inr ()) else
     case take_profiles_client lib w s of
       (w1, s1, Inl e) \<Rightarrow> (w1, s1, Inl e)
     | (w1, s1, Inr client) \<Rightarrow>
         let (w2, result) = produce_buffer lib w1 client (ks_profiles_buffer s1) [] (ks_profiles_topic s1) (ks_brokers s1) (ks_retry s1);
             (b, settled) = settle_all (ks_profiles_buffer s1) result in
         (w2, s1\<lparr>ks_profiles_client := Some client, ks_profiles_buffer := b\<rparr>, settled))"

definition kafka_write :: "('w, 'k, 'c, 'cert) KafkaLib \<Rightarrow> bytes \<Rightarrow> ('w, ('c, 'cert) KafkaSink) sink_call" where
  "kafka_write lib data w s =
     (let s1 = s\<lparr>ks_last_write_delivered := False, ks_buffer := push_record (ks_buffer s) data\<rparr> in
      if reached_threshold (ks_buffer s1) (ks_buffer_threshold s1)
      then (case kafka_publish_buffer lib w s1 of
              (w2, s2, Inl e) \<Rightarrow> (w2, s2, Inl e)
            | (w2, s2, Inr _) \<Rightarrow> (w2, s2\<lparr>ks_last_write_delivered := True\<rparr>, Inr ()))
      else (w, s1, Inr ()))"

definition kafka_write_link :: "('w, 'k, 'c, 'cert) KafkaLib \<Rightarrow> bytes \<Rightarrow> ('w, ('c, 'cert) KafkaSink) sink_call" where
  "kafka_write_link lib data w s =
     (let s1 = s\<lparr>ks_last_write_delivered := False, ks_links_buffer := push_record (ks_links_buffer s) data\<rparr> in
      if reached_threshold (ks_links_buffer s1) (ks_buffer_threshold s1)
      then (case publish_links_buffer lib w s1 of
              (w2, s2, Inl e) \<Rightarrow> (w2, s2, Inl e)
            | (w2, s2, Inr _) \<Rightarrow> (w2, s2\<lparr>ks_last_write_delivered := True\<rparr>, Inr ()))
      else (w, s1, Inr ()))"

definition kafka_write_profile :: "('w, 'k, 'c, 'cert) KafkaLib \<Rightarrow> bytes \<Rightarrow> ('w, ('c, 'cert) KafkaSink) sink_call" where
  "kafka_write_profile lib data w s =
     (let s1 = s\<lparr>ks_last_write_delivered := False, ks_profiles_buffer := push_record (ks_profiles_buffer s) data\<rparr> in
      if reached_threshold (ks_profiles_buffer s1) (ks_buffer_threshold s1)
      then (case publish_profiles_buffer lib w s1 of
              (w2, s2, Inl e) \<Rightarrow> (w2, s2, Inl e)
            | (w2, s2, Inr _) \<Rightarrow> (w2, s2\<lparr>ks_last_write_delivered := True\<rparr>, Inr ()))
      else (w, s1, Inr ()))"

fun kafka_write_kind ::
  "('w, 'k, 'c, 'cert) KafkaLib \<Rightarrow> RecordKind \<Rightarrow> bytes \<Rightarrow> ('w, ('c, 'cert) KafkaSink) sink_call" where
  "kafka_write_kind lib Device data = kafka_write lib data"
| "kafka_write_kind lib Link data = kafka_write_link lib data"
| "kafka_write_kind lib CollectionProfile data = kafka_write_profile lib data"

definition kafka_flush :: "('w, 'k, 'c, 'cert) KafkaLib \<Rightarrow> ('w, ('c, 'cert) KafkaSink) sink_call" where
  "kafka_flush lib w s =
     (let (w1, s1, device) = kafka_publish_buffer lib w s;
          (w2, s2, links) = publish_links_buffer lib w1 s1;
          (w3, s3, profiles) = publish_profiles_buffer lib w2 s2;
          first_error = or_else (or_else (result_err device) (result_err links)) (result_err profiles);
          s4 = s3\<lparr>ks_last_write_delivered := (first_error = None)\<rparr> in
      case first_error of Some e \<Rightarrow> (w3, s4, Inl e) | None \<Rightarrow> (w3, s4, Inr ()))"

definition kafka_dlq_records_by_class :: "('c, 'cert) KafkaSink \<Rightarrow> class_counts" where
  "kafka_dlq_records_by_class s = (replicate 6 0)[sink_error_class_index ProduceFailure := ks_dlq_delivered s]"

definition kafka_probe :: "('w, 'k, 'c, 'cert) KafkaLib \<Rightarrow> 'w \<Rightarrow> ('c, 'cert) KafkaSink \<Rightarrow> 'w \<times> (string + unit)" where
  "kafka_probe lib w s =
     (let brokers_for_err = join '','' (ks_brokers s);
          (w1, primary_result) = kl_get_offset lib w (ks_client s);
          (w2, dlq_result) = (case (ks_dlq_client s, ks_dlq_topic s) of
             (Some c, Some t) \<Rightarrow> (case kl_get_offset lib w1 c of (w', r) \<Rightarrow> (w', Some (r, t)))
           | _ \<Rightarrow> (w1, None));
          primary_failures = (case primary_result of
             Inl e \<Rightarrow> [''primary partition unreachable for topic '' @ quoted (ks_topic s) @ '' at broker(s) '' @ quoted brokers_for_err @ '': '' @ e]
           | Inr _ \<Rightarrow> []);
          dlq_failures = (case dlq_result of
             Some (Inl e, t) \<Rightarrow> [''dead-letter partition unreachable for topic '' @ quoted t @ '' at broker(s) '' @ quoted brokers_for_err @ '': '' @ e]
           | _ \<Rightarrow> []);
          failures = primary_failures @ dlq_failures in
      if failures = [] then (w2, Inr ())
      else (w2, Inl (''kafka sink probe: '' @ join ''; '' failures)))"

definition kafka_vtable :: "('w, 'k, 'c, 'cert) KafkaLib \<Rightarrow> ('w, ('c, 'cert) KafkaSink) Sink" where
  "kafka_vtable lib = (sink_defaults (kafka_write lib) (kafka_flush lib) ks_last_write_delivered KafkaType)
     \<lparr>sk_write_kind := kafka_write_kind lib,
      sk_dlq_records_delivered := ks_dlq_delivered,
      sk_dlq_records_by_class := kafka_dlq_records_by_class,
      sk_dlq_records_by_type_and_class := (\<lambda>s. default_dlq_by_type_and_class KafkaType (kafka_dlq_records_by_class s)),
      sk_probe := kafka_probe lib\<rparr>"

section \<open>What the client library promises\<close>

text \<open>\<^verbatim>\<open>accepted w t\<close> is the multiset of record values topic \<^verbatim>\<open>t\<close> has accepted. It only grows, whoever writes;
  a produce that returns success has added its records; a partition client serves the topic it was made for.\<close>

definition kafka_lawful ::
  "('w, 'k, 'c, 'cert) KafkaLib \<Rightarrow> ('c \<Rightarrow> string) \<Rightarrow> ('w \<Rightarrow> string \<Rightarrow> bytes multiset) \<Rightarrow> bool" where
  "kafka_lawful lib topic_of accepted \<longleftrightarrow>
     (\<forall>w b. grows accepted w (fst (kl_build lib w b))) \<and>
     (\<forall>w k t. grows accepted w (fst (kl_partition_client lib w k t))) \<and>
     (\<forall>w d. grows accepted w (fst (kl_timeout lib d w))) \<and>
     (\<forall>w d. grows accepted w (kl_sleep lib d w)) \<and>
     (\<forall>w c rs. grows accepted w (fst (kl_produce lib w c rs))) \<and>
     (\<forall>w c rs. snd (kl_produce lib w c rs) = Inr () \<longrightarrow>
        accepted w (topic_of c) + mset (map rec_value rs) \<subseteq># accepted (fst (kl_produce lib w c rs)) (topic_of c)) \<and>
     (\<forall>w k t c. snd (kl_partition_client lib w k t) = Inr c \<longrightarrow> topic_of c = t)"

definition kafka_invar :: "('c \<Rightarrow> string) \<Rightarrow> ('c, 'cert) KafkaSink \<Rightarrow> bool" where
  "kafka_invar topic_of s \<longleftrightarrow>
     topic_of (ks_client s) = ks_topic s \<and>
     (\<forall>c. ks_dlq_client s = Some c \<longrightarrow> ks_dlq_topic s = Some (topic_of c)) \<and>
     (\<forall>c. ks_links_client s = Some c \<longrightarrow> topic_of c = ks_links_topic s) \<and>
     (\<forall>c. ks_profiles_client s = Some c \<longrightarrow> topic_of c = ks_profiles_topic s) \<and>
     pending_ok (ks_buffer s) \<and> pending_ok (ks_links_buffer s) \<and> pending_ok (ks_profiles_buffer s) \<and>
     0 < ks_buffer_threshold s"

fun kafka_held :: "('c, 'cert) KafkaSink \<Rightarrow> RecordKind \<Rightarrow> bytes multiset" where
  "kafka_held s Device = mset (pb_entries (ks_buffer s))"
| "kafka_held s Link = mset (pb_entries (ks_links_buffer s))"
| "kafka_held s CollectionProfile = mset (pb_entries (ks_profiles_buffer s))"

text \<open>A device record may land on the primary or on the dead-letter topic.\<close>

fun kafka_taken :: "('w \<Rightarrow> string \<Rightarrow> bytes multiset) \<Rightarrow> 'w \<Rightarrow> ('c, 'cert) KafkaSink \<Rightarrow> RecordKind \<Rightarrow> bytes multiset" where
  "kafka_taken accepted w s Device = either_accepted (accepted w) (ks_topic s) (ks_dlq_topic s)"
| "kafka_taken accepted w s Link = accepted w (ks_links_topic s)"
| "kafka_taken accepted w s CollectionProfile = accepted w (ks_profiles_topic s)"

lemma kafka_lawfulD:
  assumes "kafka_lawful lib topic_of accepted"
  shows "kl_build lib w b = (w', x) \<Longrightarrow> grows accepted w w'"
    "kl_partition_client lib w k t = (w', y) \<Longrightarrow> grows accepted w w'"
    "kl_timeout lib d w = (w', q) \<Longrightarrow> grows accepted w w'"
    "grows accepted w (kl_sleep lib ms w)"
    "kl_produce lib w c rs = (w', r) \<Longrightarrow> grows accepted w w'"
    "kl_produce lib w c rs = (w', Inr ()) \<Longrightarrow> accepted w (topic_of c) + mset (map rec_value rs) \<subseteq># accepted w' (topic_of c)"
    "kl_partition_client lib w k t = (w', Inr c) \<Longrightarrow> topic_of c = t"
  using assms unfolding kafka_lawful_def by (metis fst_conv snd_conv)+

lemma build_records_values [simp]: "map rec_value (build_records b hs ts) = pb_entries b"
  by (simp add: build_records_def comp_def)

section \<open>Each operation under the promise\<close>

lemma connect_partition_client_law:
  assumes law: "kafka_lawful lib topic_of accepted"
    and run: "connect_partition_client lib w brokers topic tls sasl = (w', r)"
  shows "grows accepted w w' \<and> (\<forall>c. r = Inr c \<longrightarrow> topic_of c = topic)"
proof (cases "kl_build lib w (configure_client_builder brokers tls sasl)")
  case (Pair w1 x)
  note g1 = kafka_lawfulD(1) [OF law Pair]
  show ?thesis
  proof (cases x)
    case (Inl e)
    then show ?thesis using run Pair g1 by (auto simp: connect_partition_client_def Let_def)
  next
    case (Inr k)
    obtain w2 y where y: "kl_partition_client lib w1 k topic = (w2, y)" by fastforce
    have "w' = w2" "r = Inr c \<Longrightarrow> y = Inr c" for c
      using run Pair Inr y by (auto simp: connect_partition_client_def Let_def split: sum.splits)
    then show ?thesis
      using grows_trans [OF g1 kafka_lawfulD(2) [OF law y]] kafka_lawfulD(7) [OF law] y by blast
  qed
qed

lemma connect_within_law:
  assumes law: "kafka_lawful lib topic_of accepted"
    and run: "connect_within lib w brokers topic tls sasl secs what = (w', r)"
  shows "grows accepted w w'" "r = Inr c \<Longrightarrow> topic_of c = topic"
proof -
  obtain w1 late where t: "kl_timeout lib secs w = (w1, late)" by fastforce
  note g1 = kafka_lawfulD(3) [OF law t]
  have "grows accepted w w' \<and> (\<forall>c. r = Inr c \<longrightarrow> topic_of c = topic)"
  proof (cases late)
    case True
    then show ?thesis using run t g1 by (auto simp: connect_within_def)
  next
    case False
    then have "connect_partition_client lib w1 brokers topic tls sasl = (w', r)"
      using run t by (simp add: connect_within_def)
    then show ?thesis
      using connect_partition_client_law [OF law] grows_trans [OF g1] by blast
  qed
  then show "grows accepted w w'" "r = Inr c \<Longrightarrow> topic_of c = topic" by blast+
qed

lemma produce_buffer_law:
  assumes law: "kafka_lawful lib topic_of accepted"
    and run: "produce_buffer lib w c b hs topic brokers retry = (w', r)"
  shows "grows accepted w w'" "r = Inr () \<Longrightarrow> accepted w (topic_of c) + mset (pb_entries b) \<subseteq># accepted w' (topic_of c)"
proof -
  define op where "op = (\<lambda>u. case kl_produce lib u c (build_records b hs (kl_now lib w)) of
      (u', Inl e) \<Rightarrow> (u', Inl (build_produce_error topic brokers e)) | (u', Inr _) \<Rightarrow> (u', Inr ()))"
  have fails: "grows accepted u v" if g: "op u = (v, Inl e)" for u v e
    using g by (auto simp: op_def split: prod.splits sum.splits dest: kafka_lawfulD(5) [OF law])
  have "retry_with_backoff retry (kl_sleep lib) op w = (w', r)"
    using run by (simp add: produce_buffer_def op_def Let_def)
  then have "\<exists>u. grows accepted w u \<and> op u = (w', r)"
    by (rule retry_with_backoff_rel [where R = "grows accepted"])
      (blast intro: grows_refl grows_trans kafka_lawfulD(4) [OF law] fails)+
  then obtain u where u: "grows accepted w u" "op u = (w', r)" by blast
  obtain q where q: "kl_produce lib u c (build_records b hs (kl_now lib w)) = (w', q)" "r = Inr () \<Longrightarrow> q = Inr ()"
    using u(2) by (auto simp: op_def split: prod.splits sum.splits)
  show "grows accepted w w'" using u(1) kafka_lawfulD(5) [OF law q(1)] by (rule grows_trans)
  show "accepted w (topic_of c) + mset (pb_entries b) \<subseteq># accepted w' (topic_of c)" if "r = Inr ()"
  proof -
    have "kl_produce lib u c (build_records b hs (kl_now lib w)) = (w', Inr ())"
      using q that by simp
    then have "accepted u (topic_of c) + mset (pb_entries b) \<subseteq># accepted w' (topic_of c)"
      using kafka_lawfulD(6) [OF law] by fastforce
    then show ?thesis
      by (rule subset_mset.trans [OF subset_mset.add_right_mono [OF growsD [OF u(1)]]])
  qed
qed

lemma kafka_taken_grows: "grows accepted w w' \<Longrightarrow> kafka_taken accepted w s k \<subseteq># kafka_taken accepted w' s k"
  by (cases k) (simp_all add: either_accepted_grows growsD)

lemma kafka_primary_accepts:
  assumes "grows accepted w w'" "accepted w (ks_topic s) + m \<subseteq># accepted w' (ks_topic s)"
  shows "m + kafka_taken accepted w s Device \<subseteq># kafka_taken accepted w' s Device"
  using either_accepted_primary [OF assms] by simp

lemma kafka_dlq_accepts:
  assumes "grows accepted w w'" "ks_dlq_topic s = Some t" "accepted w t + m \<subseteq># accepted w' t"
  shows "m + kafka_taken accepted w s Device \<subseteq># kafka_taken accepted w' s Device"
  using either_accepted_dlq [OF assms(1,3)] assms(2) by simp

text \<open>The primary produce: the buffer goes as a whole or stays as a whole.\<close>

lemma kafka_publish_buffer_cases:
  assumes "kafka_publish_buffer lib w s = (w', s', r)"
  obtains (idle) "pb_entries (ks_buffer s) = []" "w' = w" "s' = s" "r = Inr ()"
  | (primary) "produce_buffer lib w (ks_client s) (ks_buffer s) [] (ks_topic s) (ks_brokers s) (ks_retry s) = (w', Inr ())"
      "s' = s\<lparr>ks_buffer := pending_new\<rparr>" "r = Inr ()"
  | (dlq) w1 e c hs ts where
      "produce_buffer lib w (ks_client s) (ks_buffer s) [] (ks_topic s) (ks_brokers s) (ks_retry s) = (w1, Inl e)"
      "ks_dlq_client s = Some c" "kl_produce lib w1 c (build_records (ks_buffer s) hs ts) = (w', Inr ())"
      "s' = s\<lparr>ks_buffer := pending_new,
         ks_dlq_delivered := ks_dlq_delivered s + of_nat (length (pb_entries (ks_buffer s)))\<rparr>" "r = Inr ()"
  | (refused) w1 e where
      "produce_buffer lib w (ks_client s) (ks_buffer s) [] (ks_topic s) (ks_brokers s) (ks_retry s) = (w1, Inl e)"
      "w' = w1 \<or> (\<exists>c rs x. kl_produce lib w1 c rs = (w', Inl x))" "s' = s" "r = Inl e"
proof (cases "pb_entries (ks_buffer s) = []")
  case True
  then show ?thesis using assms by (intro idle) (auto simp: kafka_publish_buffer_def pending_is_empty_def)
next
  case busy: False
  obtain w1 p where p: "produce_buffer lib w (ks_client s) (ks_buffer s) [] (ks_topic s) (ks_brokers s) (ks_retry s) = (w1, p)"
    by fastforce
  show ?thesis
  proof (cases p)
    case (Inr u)
    then show ?thesis
      using assms busy p by (intro primary) (auto simp: kafka_publish_buffer_def pending_is_empty_def Let_def)
  next
    case (Inl e)
    show ?thesis
    proof (cases "ks_dlq_client s = None \<or> ks_dlq_topic s = None")
      case True
      then show ?thesis using assms busy p Inl
        by (intro refused) (auto simp: kafka_publish_buffer_def pending_is_empty_def Let_def split: option.splits)
    next
      case False
      then obtain c t where ct: "ks_dlq_client s = Some c" "ks_dlq_topic s = Some t" by auto
      define rs where "rs = build_records (ks_buffer s)
        (if ks_include_error_metadata s then kafka_build_dlq_headers lib w1 (ks_topic s) ProduceFailure else [])
        (kl_now lib w1)"
      obtain w2 q where q: "kl_produce lib w1 c rs = (w2, q)" by fastforce
      show ?thesis
      proof (cases q)
        case (Inl x)
        then show ?thesis using assms busy p \<open>p = Inl e\<close> ct q
          by (intro refused) (auto simp: kafka_publish_buffer_def pending_is_empty_def Let_def rs_def cong: if_cong)
      next
        case (Inr u)
        then show ?thesis using assms busy p \<open>p = Inl e\<close> ct q
          by (intro dlq) (auto simp: kafka_publish_buffer_def pending_is_empty_def Let_def rs_def cong: if_cong)
      qed
    qed
  qed
qed

lemma kafka_publish_buffer_law:
  assumes law: "kafka_lawful lib topic_of accepted" and inv: "kafka_invar topic_of s"
    and run: "kafka_publish_buffer lib w s = (w', s', r)"
  shows "grows accepted w w' \<and> (\<exists>b n. s' = s\<lparr>ks_buffer := b, ks_dlq_delivered := n\<rparr> \<and> pending_ok b \<and>
    mset (pb_entries (ks_buffer s)) + kafka_taken accepted w s Device \<subseteq># mset (pb_entries b) + kafka_taken accepted w' s Device \<and>
    (r = Inr () \<longrightarrow> pb_entries b = []))"
  using run
proof (cases rule: kafka_publish_buffer_cases)
  case idle
  then show ?thesis
    using inv by (auto simp: kafka_invar_def intro!: exI [of _ "ks_buffer s"] exI [of _ "ks_dlq_delivered s"])
next
  case primary
  have g: "grows accepted w w'" by (rule produce_buffer_law [OF law primary(1)])
  have "accepted w (ks_topic s) + mset (pb_entries (ks_buffer s)) \<subseteq># accepted w' (ks_topic s)"
    using produce_buffer_law(2) [OF law primary(1)] inv by (simp add: kafka_invar_def)
  then show ?thesis
    using kafka_primary_accepts [OF g] primary g
    by (intro conjI exI [of _ pending_new] exI [of _ "ks_dlq_delivered s"]) auto
next
  case (dlq w1 e c hs ts)
  have g1: "grows accepted w w1" by (rule produce_buffer_law [OF law dlq(1)])
  have g2: "grows accepted w1 w'" by (rule kafka_lawfulD(5) [OF law dlq(3)])
  have t: "ks_dlq_topic s = Some (topic_of c)" using inv dlq(2) by (simp add: kafka_invar_def)
  have "accepted w1 (topic_of c) + mset (pb_entries (ks_buffer s)) \<subseteq># accepted w' (topic_of c)"
    using kafka_lawfulD(6) [OF law dlq(3)] by simp
  then have "mset (pb_entries (ks_buffer s)) + kafka_taken accepted w s Device \<subseteq># kafka_taken accepted w' s Device"
    by (rule mset_chain [OF kafka_taken_grows [OF g1] kafka_dlq_accepts [OF g2 t]])
  then show ?thesis
    using dlq(4,5) grows_trans [OF g1 g2]
    by (intro conjI exI [of _ pending_new] exI [of _ "ks_dlq_delivered s + of_nat (length (pb_entries (ks_buffer s)))"]) auto
next
  case (refused w1 e)
  have g: "grows accepted w w'"
    using produce_buffer_law(1) [OF law refused(1)] refused(2) by (auto intro: grows_trans dest: kafka_lawfulD(5) [OF law])
  show ?thesis
    using inv refused(3,4) g kafka_taken_grows [OF g, of s Device]
    by (intro conjI exI [of _ "ks_buffer s"] exI [of _ "ks_dlq_delivered s"]) (auto simp: kafka_invar_def)
qed

text \<open>A produce and the settlement of its whole batch.\<close>

lemma settled_law:
  assumes law: "kafka_lawful lib topic_of accepted"
    and run: "produce_buffer lib w c b hs topic brokers retry = (w', p)"
    and t: "topic_of c = t" and ok: "pending_ok b"
  shows "grows accepted w w'" "pending_ok (fst (settle_all b p))" "snd (settle_all b p) = p"
    "mset (pb_entries b) + accepted w t \<subseteq># mset (pb_entries (fst (settle_all b p))) + accepted w' t"
    "p = Inr () \<Longrightarrow> pb_entries (fst (settle_all b p)) = []"
proof -
  show g: "grows accepted w w'" by (rule produce_buffer_law(1) [OF law run])
  show "mset (pb_entries b) + accepted w t \<subseteq># mset (pb_entries (fst (settle_all b p))) + accepted w' t"
    using produce_buffer_law(2) [OF law run] growsD [OF g] t by (cases p) (simp_all add: ac_simps)
qed (use ok in \<open>cases p; simp\<close>)+

lemma take_links_client_law:
  assumes law: "kafka_lawful lib topic_of accepted" and inv: "kafka_invar topic_of s"
    and run: "take_links_client lib w s = (w', s', r)"
  shows "grows accepted w w'" "s' = s\<lparr>ks_links_client := None\<rparr>" "r = Inr c \<Longrightarrow> topic_of c = ks_links_topic s"
proof -
  have "grows accepted w w' \<and> s' = s\<lparr>ks_links_client := None\<rparr> \<and> (\<forall>c. r = Inr c \<longrightarrow> topic_of c = ks_links_topic s)"
  proof (cases "ks_links_client s")
    case None
    then show ?thesis
      using run connect_within_law [OF law]
      by (auto simp: take_links_client_def connect_partition_client_bounded_def Let_def split: prod.splits)
  qed (use run inv in \<open>auto simp: take_links_client_def kafka_invar_def\<close>)
  then show "grows accepted w w'" "s' = s\<lparr>ks_links_client := None\<rparr>" "r = Inr c \<Longrightarrow> topic_of c = ks_links_topic s"
    by blast+
qed

lemma publish_links_buffer_law:
  assumes law: "kafka_lawful lib topic_of accepted" and inv: "kafka_invar topic_of s"
    and run: "publish_links_buffer lib w s = (w', s', r)"
  shows "grows accepted w w' \<and> (\<exists>b c. s' = s\<lparr>ks_links_client := c, ks_links_buffer := b\<rparr> \<and> pending_ok b \<and>
    (\<forall>x. c = Some x \<longrightarrow> topic_of x = ks_links_topic s) \<and>
    mset (pb_entries (ks_links_buffer s)) + accepted w (ks_links_topic s) \<subseteq># mset (pb_entries b) + accepted w' (ks_links_topic s) \<and>
    (r = Inr () \<longrightarrow> pb_entries b = []))"
proof (cases "pb_entries (ks_links_buffer s) = []")
  case True
  then show ?thesis
    using run inv by (auto simp: publish_links_buffer_def pending_is_empty_def kafka_invar_def
        intro!: exI [of _ "ks_links_buffer s"] exI [of _ "ks_links_client s"])
next
  case False
  obtain w1 s1 x where x: "take_links_client lib w s = (w1, s1, x)" by (cases "take_links_client lib w s") auto
  note taken = take_links_client_law [OF law inv x]
  have ok: "pending_ok (ks_links_buffer s)" using inv by (simp add: kafka_invar_def)
  show ?thesis
  proof (cases x)
    case (Inl e)
    then have "w' = w1" "s' = s\<lparr>ks_links_client := None\<rparr>" "r = Inl e"
      using run False x taken(2) by (simp_all add: publish_links_buffer_def pending_is_empty_def)
    then show ?thesis using taken(1) ok
      by (intro conjI exI [of _ "ks_links_buffer s"] exI [of _ None]) (simp_all add: growsD)
  next
    case (Inr c)
    obtain w2 p where p: "produce_buffer lib w1 c (ks_links_buffer s) [] (ks_links_topic s) (ks_brokers s) (ks_retry s) = (w2, p)"
      by fastforce
    note settled = settled_law [OF law p taken(3) [OF Inr] ok]
    have "w' = w2" "r = p" "s' = s\<lparr>ks_links_client := Some c, ks_links_buffer := fst (settle_all (ks_links_buffer s) p)\<rparr>"
      using run False x Inr p taken(2) settled(3) by (auto simp: publish_links_buffer_def pending_is_empty_def Let_def split: prod.splits)
    then show ?thesis
      using settled grows_trans [OF taken(1)] taken(3) [OF Inr] mset_chain [OF growsD [OF taken(1)]]
      by (intro conjI exI [of _ "fst (settle_all (ks_links_buffer s) p)"] exI [of _ "Some c"]) auto
  qed
qed

lemma take_profiles_client_law:
  assumes law: "kafka_lawful lib topic_of accepted" and inv: "kafka_invar topic_of s"
    and run: "take_profiles_client lib w s = (w', s', r)"
  shows "grows accepted w w'" "s' = s\<lparr>ks_profiles_client := None\<rparr>" "r = Inr c \<Longrightarrow> topic_of c = ks_profiles_topic s"
proof -
  have "grows accepted w w' \<and> s' = s\<lparr>ks_profiles_client := None\<rparr> \<and> (\<forall>c. r = Inr c \<longrightarrow> topic_of c = ks_profiles_topic s)"
  proof (cases "ks_profiles_client s")
    case None
    then show ?thesis
      using run connect_within_law [OF law]
      by (auto simp: take_profiles_client_def connect_partition_client_bounded_def Let_def split: prod.splits)
  qed (use run inv in \<open>auto simp: take_profiles_client_def kafka_invar_def\<close>)
  then show "grows accepted w w'" "s' = s\<lparr>ks_profiles_client := None\<rparr>" "r = Inr c \<Longrightarrow> topic_of c = ks_profiles_topic s"
    by blast+
qed

lemma publish_profiles_buffer_law:
  assumes law: "kafka_lawful lib topic_of accepted" and inv: "kafka_invar topic_of s"
    and run: "publish_profiles_buffer lib w s = (w', s', r)"
  shows "grows accepted w w' \<and> (\<exists>b c. s' = s\<lparr>ks_profiles_client := c, ks_profiles_buffer := b\<rparr> \<and> pending_ok b \<and>
    (\<forall>x. c = Some x \<longrightarrow> topic_of x = ks_profiles_topic s) \<and>
    mset (pb_entries (ks_profiles_buffer s)) + accepted w (ks_profiles_topic s) \<subseteq># mset (pb_entries b) + accepted w' (ks_profiles_topic s) \<and>
    (r = Inr () \<longrightarrow> pb_entries b = []))"
proof (cases "pb_entries (ks_profiles_buffer s) = []")
  case True
  then show ?thesis
    using run inv by (auto simp: publish_profiles_buffer_def pending_is_empty_def kafka_invar_def
        intro!: exI [of _ "ks_profiles_buffer s"] exI [of _ "ks_profiles_client s"])
next
  case False
  obtain w1 s1 x where x: "take_profiles_client lib w s = (w1, s1, x)" by (cases "take_profiles_client lib w s") auto
  note taken = take_profiles_client_law [OF law inv x]
  have ok: "pending_ok (ks_profiles_buffer s)" using inv by (simp add: kafka_invar_def)
  show ?thesis
  proof (cases x)
    case (Inl e)
    then have "w' = w1" "s' = s\<lparr>ks_profiles_client := None\<rparr>" "r = Inl e"
      using run False x taken(2) by (simp_all add: publish_profiles_buffer_def pending_is_empty_def)
    then show ?thesis using taken(1) ok
      by (intro conjI exI [of _ "ks_profiles_buffer s"] exI [of _ None]) (simp_all add: growsD)
  next
    case (Inr c)
    obtain w2 p where p: "produce_buffer lib w1 c (ks_profiles_buffer s) [] (ks_profiles_topic s) (ks_brokers s) (ks_retry s) = (w2, p)"
      by fastforce
    note settled = settled_law [OF law p taken(3) [OF Inr] ok]
    have "w' = w2" "r = p" "s' = s\<lparr>ks_profiles_client := Some c, ks_profiles_buffer := fst (settle_all (ks_profiles_buffer s) p)\<rparr>"
      using run False x Inr p taken(2) settled(3) by (auto simp: publish_profiles_buffer_def pending_is_empty_def Let_def split: prod.splits)
    then show ?thesis
      using settled grows_trans [OF taken(1)] taken(3) [OF Inr] mset_chain [OF growsD [OF taken(1)]]
      by (intro conjI exI [of _ "fst (settle_all (ks_profiles_buffer s) p)"] exI [of _ "Some c"]) auto
  qed
qed

section \<open>The sink meets the contract\<close>

text \<open>The three streams in one view: publishing a stream, and pushing a record on it.\<close>

fun kafka_publish :: "('w, 'k, 'c, 'cert) KafkaLib \<Rightarrow> RecordKind \<Rightarrow> ('w, ('c, 'cert) KafkaSink) sink_call" where
  "kafka_publish lib Device = kafka_publish_buffer lib"
| "kafka_publish lib Link = publish_links_buffer lib"
| "kafka_publish lib CollectionProfile = publish_profiles_buffer lib"

fun kafka_push :: "RecordKind \<Rightarrow> bytes \<Rightarrow> ('c, 'cert) KafkaSink \<Rightarrow> ('c, 'cert) KafkaSink" where
  "kafka_push Device d s = s\<lparr>ks_last_write_delivered := False, ks_buffer := push_record (ks_buffer s) d\<rparr>"
| "kafka_push Link d s = s\<lparr>ks_last_write_delivered := False, ks_links_buffer := push_record (ks_links_buffer s) d\<rparr>"
| "kafka_push CollectionProfile d s =
     s\<lparr>ks_last_write_delivered := False, ks_profiles_buffer := push_record (ks_profiles_buffer s) d\<rparr>"

lemma kafka_write_kind_cases:
  assumes "kafka_write_kind lib k d w s = (w', s', r)"
  obtains (kept) "w' = w" "s' = kafka_push k d s" "r = Inr ()"
  | (failed) e where "kafka_publish lib k w (kafka_push k d s) = (w', s', Inl e)" "r = Inl e"
  | (published) s2 where "kafka_publish lib k w (kafka_push k d s) = (w', s2, Inr ())"
      "s' = s2\<lparr>ks_last_write_delivered := True\<rparr>" "r = Inr ()"
  using assms by (cases k)
    (auto simp: kafka_write_def kafka_write_link_def kafka_write_profile_def Let_def split: prod.splits sum.splits if_splits)

definition kafka_step ::
  "('c \<Rightarrow> string) \<Rightarrow> ('w \<Rightarrow> string \<Rightarrow> bytes multiset) \<Rightarrow> 'w \<Rightarrow> ('c, 'cert) KafkaSink \<Rightarrow> 'w \<Rightarrow> ('c, 'cert) KafkaSink \<Rightarrow> bool" where
  "kafka_step topic_of accepted w s w' s' \<longleftrightarrow>
     kafka_invar topic_of s' \<and> (\<forall>u. kafka_taken accepted u s' = kafka_taken accepted u s) \<and>
     (\<forall>j. kafka_held s j + kafka_taken accepted w s j \<subseteq># kafka_held s' j + kafka_taken accepted w' s j)"

lemma kafka_step_trans:
  "kafka_step topic_of accepted w s w1 s1 \<Longrightarrow> kafka_step topic_of accepted w1 s1 w2 s2 \<Longrightarrow>
   kafka_step topic_of accepted w s w2 s2"
  unfolding kafka_step_def by (auto intro: subset_mset.trans)

lemma all_kinds: "(\<forall>j. P j) \<longleftrightarrow> P Device \<and> P Link \<and> P CollectionProfile"
  by (metis RecordKind.exhaust)

lemma kafka_taken_same:
  "ks_topic s' = ks_topic s \<Longrightarrow> ks_dlq_topic s' = ks_dlq_topic s \<Longrightarrow> ks_links_topic s' = ks_links_topic s \<Longrightarrow>
   ks_profiles_topic s' = ks_profiles_topic s \<Longrightarrow> kafka_taken accepted u s' = kafka_taken accepted u s"
  by (rule ext, rename_tac k, case_tac k) simp_all

lemma kafka_publish_step:
  assumes law: "kafka_lawful lib topic_of accepted" and inv: "kafka_invar topic_of s"
    and run: "kafka_publish lib k w s = (w', s', r)"
  shows "kafka_step topic_of accepted w s w' s' \<and> (\<forall>j. j \<noteq> k \<longrightarrow> kafka_held s' j = kafka_held s j) \<and>
    ks_last_write_delivered s' = ks_last_write_delivered s \<and> (r = Inr () \<longrightarrow> kafka_held s' k = {#})"
proof (cases k)
  case Device
  then obtain b n where g: "grows accepted w w'" and s': "s' = s\<lparr>ks_buffer := b, ks_dlq_delivered := n\<rparr>"
    and rest: "pending_ok b" "r = Inr () \<Longrightarrow> pb_entries b = []"
      "mset (pb_entries (ks_buffer s)) + kafka_taken accepted w s Device \<subseteq># mset (pb_entries b) + kafka_taken accepted w' s Device"
    using kafka_publish_buffer_law [OF law inv, of w w' s' r] run by (simp del: kafka_taken.simps) blast
  have "kafka_step topic_of accepted w s w' s'"
    using inv rest(1,3) growsD [OF g] unfolding kafka_step_def all_kinds
    by (intro conjI allI kafka_taken_same) (simp_all add: s' kafka_invar_def)
  then show ?thesis using rest(2) by (auto simp: Device s' all_kinds)
next
  case Link
  then obtain b c where g: "grows accepted w w'" and s': "s' = s\<lparr>ks_links_client := c, ks_links_buffer := b\<rparr>"
    and rest: "pending_ok b" "r = Inr () \<Longrightarrow> pb_entries b = []" "\<forall>x. c = Some x \<longrightarrow> topic_of x = ks_links_topic s"
      "mset (pb_entries (ks_links_buffer s)) + accepted w (ks_links_topic s) \<subseteq># mset (pb_entries b) + accepted w' (ks_links_topic s)"
    using publish_links_buffer_law [OF law inv, of w w' s' r] run by (simp del: kafka_taken.simps) blast
  have "kafka_step topic_of accepted w s w' s'"
    using inv rest(1,3,4) kafka_taken_grows [OF g, of s Device] growsD [OF g] unfolding kafka_step_def all_kinds
    by (intro conjI allI kafka_taken_same) (simp_all add: s' kafka_invar_def del: kafka_taken.simps(1))
  then show ?thesis using rest(2) by (auto simp: Link s' all_kinds)
next
  case CollectionProfile
  then obtain b c where g: "grows accepted w w'" and s': "s' = s\<lparr>ks_profiles_client := c, ks_profiles_buffer := b\<rparr>"
    and rest: "pending_ok b" "r = Inr () \<Longrightarrow> pb_entries b = []" "\<forall>x. c = Some x \<longrightarrow> topic_of x = ks_profiles_topic s"
      "mset (pb_entries (ks_profiles_buffer s)) + accepted w (ks_profiles_topic s) \<subseteq># mset (pb_entries b) + accepted w' (ks_profiles_topic s)"
    using publish_profiles_buffer_law [OF law inv, of w w' s' r] run by (simp del: kafka_taken.simps) blast
  have "kafka_step topic_of accepted w s w' s'"
    using inv rest(1,3,4) kafka_taken_grows [OF g, of s Device] growsD [OF g] unfolding kafka_step_def all_kinds
    by (intro conjI allI kafka_taken_same) (simp_all add: s' kafka_invar_def del: kafka_taken.simps(1))
  then show ?thesis using rest(2) by (auto simp: CollectionProfile s' all_kinds)
qed

lemma kafka_push_simps:
  "kafka_invar topic_of s \<Longrightarrow> kafka_invar topic_of (kafka_push k d s)"
  "kafka_held (kafka_push k d s) j = (if j = k then {#d#} else {#}) + kafka_held s j"
  "kafka_taken accepted u (kafka_push k d s) = kafka_taken accepted u s"
  "\<not> ks_last_write_delivered (kafka_push k d s)"
  by (cases k; cases j; auto simp: kafka_invar_def intro!: kafka_taken_same)+

lemma kafka_delivered_simps [simp]:
  "kafka_invar topic_of (s\<lparr>ks_last_write_delivered := x\<rparr>) = kafka_invar topic_of s"
  "kafka_held (s\<lparr>ks_last_write_delivered := x\<rparr>) j = kafka_held s j"
  "kafka_taken accepted u (s\<lparr>ks_last_write_delivered := x\<rparr>) j = kafka_taken accepted u s j"
  by (cases j; simp add: kafka_invar_def)+

lemma kafka_write_law:
  assumes law: "kafka_lawful lib topic_of accepted" and inv: "kafka_invar topic_of s"
    and run: "kafka_write_kind lib k d w s = (w', s', r)"
  shows "kafka_invar topic_of s'"
    "(if j = k then {#d#} else {#}) + (kafka_held s j + kafka_taken accepted w s j) \<subseteq># kafka_held s' j + kafka_taken accepted w' s' j"
    "ks_last_write_delivered s' \<Longrightarrow> kafka_held s' k = {#}"
proof -
  note push = kafka_push_simps [where k = k and d = d and s = s]
  note publish = kafka_publish_step [OF law push(1) [OF inv]]
  have pushed: "(if j = k then {#d#} else {#}) + (kafka_held s j + kafka_taken accepted w s j) =
      kafka_held (kafka_push k d s) j + kafka_taken accepted w (kafka_push k d s) j" for j
    by (simp add: push(2,3) ac_simps)
  have "kafka_invar topic_of s' \<and>
      (\<forall>j. kafka_held (kafka_push k d s) j + kafka_taken accepted w (kafka_push k d s) j \<subseteq># kafka_held s' j + kafka_taken accepted w' s' j) \<and>
      (ks_last_write_delivered s' \<longrightarrow> kafka_held s' k = {#})"
    using run
  proof (cases rule: kafka_write_kind_cases)
    case kept
    then show ?thesis using push(1) [OF inv] push(4) by auto
  next
    case (failed e)
    then show ?thesis using publish [OF failed(1)] push(4) by (auto simp: kafka_step_def)
  next
    case (published s2)
    then show ?thesis using publish [OF published(1)] by (auto simp: kafka_step_def)
  qed
  then show "kafka_invar topic_of s'" "ks_last_write_delivered s' \<Longrightarrow> kafka_held s' k = {#}"
    "(if j = k then {#d#} else {#}) + (kafka_held s j + kafka_taken accepted w s j) \<subseteq># kafka_held s' j + kafka_taken accepted w' s' j"
    unfolding pushed by blast+
qed

lemma kafka_flush_law:
  assumes law: "kafka_lawful lib topic_of accepted" and inv: "kafka_invar topic_of s"
    and run: "kafka_flush lib w s = (w', s', r)"
  shows "kafka_invar topic_of s'"
    "kafka_held s j + kafka_taken accepted w s j \<subseteq># kafka_held s' j + kafka_taken accepted w' s' j"
    "r = Inr () \<Longrightarrow> kafka_held s' j = {#} \<and> ks_last_write_delivered s'"
proof -
  obtain w1 s1 a w2 s2 b w3 s3 c where steps: "kafka_publish lib Device w s = (w1, s1, a)"
    "kafka_publish lib Link w1 s1 = (w2, s2, b)" "kafka_publish lib CollectionProfile w2 s2 = (w3, s3, c)"
    by (metis prod_cases3)
  have fin: "w' = w3" "\<exists>x. s' = s3\<lparr>ks_last_write_delivered := x\<rparr>"
    "r = Inr () \<Longrightarrow> a = Inr () \<and> b = Inr () \<and> c = Inr () \<and> ks_last_write_delivered s'"
    using run steps by (auto simp: kafka_flush_def Let_def split: option.splits)
  note p1 = kafka_publish_step [OF law inv steps(1)]
  have inv1: "kafka_invar topic_of s1" using p1 by (simp add: kafka_step_def)
  note p2 = kafka_publish_step [OF law inv1 steps(2)]
  have inv2: "kafka_invar topic_of s2" using p2 by (simp add: kafka_step_def)
  note p3 = kafka_publish_step [OF law inv2 steps(3)]
  have all: "kafka_step topic_of accepted w s w3 s3"
    by (rule kafka_step_trans [OF kafka_step_trans [OF conjunct1 [OF p1] conjunct1 [OF p2]] conjunct1 [OF p3]])
  show "kafka_invar topic_of s'" using all fin(2) by (auto simp: kafka_step_def)
  show "kafka_held s j + kafka_taken accepted w s j \<subseteq># kafka_held s' j + kafka_taken accepted w' s' j"
    using all fin(1,2) by (auto simp: kafka_step_def)
  show "kafka_held s' j = {#} \<and> ks_last_write_delivered s'" if "r = Inr ()"
    using that fin(2,3) p1 p2 p3 by (cases j) (auto simp: all_kinds)
qed

interpretation kafka: at_least_once "kafka_lawful lib topic_of accepted" "kafka_invar topic_of"
  "kafka_write_kind lib" "kafka_flush lib" ks_last_write_delivered kafka_held "kafka_taken accepted"
  for lib :: "('w, 'k, 'c, 'cert) KafkaLib" and topic_of accepted
  by unfold_locales
    (erule (2) kafka_write_law(1), erule (2) kafka_write_law(2), erule (3) kafka_write_law(3),
     erule (2) kafka_flush_law(1), erule (2) kafka_flush_law(2), erule (2) kafka_flush_law(3), rule refl)

end
