(* ===== verification/Redact.thy ===== *)
theory Redact
  imports Rust_Prelude
begin

text \<open>
  \<^verbatim>\<open>rastreo-core/src/redact.rs\<close>: removing the user information of server URLs before they reach an error
  message or a log line. The properties say from which entries it is removed, and of which shapes an entry
  keeps it.
\<close>

section \<open>Searching in strings\<close>

text \<open>\<^verbatim>\<open>str::find\<close> with a string and with a character, and \<^verbatim>\<open>str::rfind\<close> with a character.\<close>

fun find_str :: "string \<Rightarrow> string \<Rightarrow> nat option" where
  "find_str pat [] = (if pat = [] then Some 0 else None)"
| "find_str pat (c # cs) = (if take (length pat) (c # cs) = pat then Some 0 else map_option Suc (find_str pat cs))"

fun find_char :: "char \<Rightarrow> string \<Rightarrow> nat option" where
  "find_char p [] = None"
| "find_char p (c # cs) = (if c = p then Some 0 else map_option Suc (find_char p cs))"

fun rfind_char :: "char \<Rightarrow> string \<Rightarrow> nat option" where
  "rfind_char p [] = None"
| "rfind_char p (c # cs) = (case rfind_char p cs of
     Some i \<Rightarrow> Some (Suc i) | None \<Rightarrow> if c = p then Some 0 else None)"

section \<open>Redaction\<close>

definition strip_userinfo :: "string \<Rightarrow> string" where
  "strip_userinfo server = (case find_str ''://'' server of
       None \<Rightarrow> server
     | Some scheme_end \<Rightarrow>
         let authority_start = scheme_end + 3;
             authority_end = (case find_char (CHR ''/'') (drop authority_start server) of
                 None \<Rightarrow> length server | Some i \<Rightarrow> authority_start + i) in
         (case rfind_char (CHR ''@'') (take (authority_end - authority_start) (drop authority_start server)) of
            None \<Rightarrow> server
          | Some at \<Rightarrow> let host_start = authority_start + at + 1 in
              take authority_start server @ drop host_start server))"

definition redacted_server_list :: "string list \<Rightarrow> string" where
  "redacted_server_list servers = join '','' (map strip_userinfo servers)"

section \<open>Facts\<close>

text \<open>The authority of a URL: what lies between the scheme separator and the next slash.\<close>

definition authority :: "string \<Rightarrow> string" where
  "authority server = (case find_str ''://'' server of None \<Rightarrow> []
     | Some i \<Rightarrow> takeWhile (\<lambda>c. c \<noteq> CHR ''/'') (drop (i + 3) server))"

lemma find_char_takeWhile:
  "take (case find_char p s of None \<Rightarrow> length s | Some i \<Rightarrow> i) s = takeWhile (\<lambda>c. c \<noteq> p) s"
  by (induction s) (auto split: option.splits)

lemma rfind_char_None: "rfind_char p s = None \<longleftrightarrow> p \<notin> set s"
  by (induction s) (auto split: option.splits)

lemma rfind_char_Some: "rfind_char p s = Some i \<Longrightarrow> i < length s \<and> s ! i = p \<and> p \<notin> set (drop (Suc i) s)"
proof (induction s arbitrary: i)
  case (Cons c cs)
  then show ?case
    by (auto simp: rfind_char_None split: option.splits if_splits)
qed simp

lemma find_str_Some:
  "find_str pat s = Some i \<Longrightarrow> i + length pat \<le> length s \<and> take (length pat) (drop i s) = pat"
proof (induction s arbitrary: i)
  case (Cons c cs)
  then show ?case
    by (fastforce split: if_splits dest: arg_cong [of _ _ length])
qed (auto split: if_splits)

lemma find_str_None: "\<nexists>a b. s = a @ pat @ b \<Longrightarrow> find_str pat s = None"
proof (rule ccontr)
  assume no: "\<nexists>a b. s = a @ pat @ b" and "find_str pat s \<noteq> None"
  then obtain i where "take (length pat) (drop i s) = pat" using find_str_Some by fastforce
  then have "s = take i s @ pat @ drop (length pat) (drop i s)" by (metis append_take_drop_id)
  then show False using no by blast
qed

text \<open>A separator is found where it stands unless it occurs earlier.\<close>

definition first_separator :: "string \<Rightarrow> bool" where
  "first_separator scheme \<longleftrightarrow> (\<nexists>a b. scheme @ '':/'' = a @ ''://'' @ b)"

lemma find_str_separator: "first_separator scheme \<Longrightarrow> find_str ''://'' (scheme @ ''://'' @ rest) = Some (length scheme)"
proof (induction scheme)
  case (Cons c cs)
  have "first_separator cs" using Cons.prems unfolding first_separator_def by (metis append_Cons)
  moreover have "take 3 (c # cs @ ''://'' @ rest) \<noteq> ''://''"
  proof
    assume "take 3 (c # cs @ ''://'' @ rest) = ''://''"
    then have "take 3 ((c # cs) @ '':/'') = ''://''" by (auto simp: numeral_eq_Suc take_Cons' split: if_splits)
    then have "(c # cs) @ '':/'' = [] @ ''://'' @ drop 3 ((c # cs) @ '':/'')" by (metis append_Nil append_take_drop_id)
    then show False using Cons.prems unfolding first_separator_def by blast
  qed
  ultimately show ?case using Cons.IH by (simp add: numeral_3_eq_3 numeral_2_eq_2)
qed simp

lemma authority_of:
  assumes "first_separator scheme" "CHR ''/'' \<notin> set auth" "rest = [] \<or> hd rest = CHR ''/''"
  shows "authority (scheme @ ''://'' @ auth @ rest) = auth"
proof -
  have "takeWhile (\<lambda>c. c \<noteq> CHR ''/'') (auth @ rest) = auth"
    using assms(2,3) by (cases rest) (auto simp: takeWhile_append takeWhile_eq_all_conv)
  then show ?thesis using find_str_separator [OF assms(1), of "auth @ rest"] by (simp add: authority_def)
qed

lemma strip_userinfo_cases:
  obtains (plain) "CHR ''@'' \<notin> set (authority s)" "strip_userinfo s = s"
  | (redacted) i at where "find_str ''://'' s = Some i" "at < length (authority s)" "authority s ! at = CHR ''@''"
      "CHR ''@'' \<notin> set (drop (Suc at) (authority s))" "strip_userinfo s = take (i + 3) s @ drop (i + 3 + at + 1) s"
proof (cases "find_str ''://'' s")
  case None
  then show ?thesis by (intro plain) (simp_all add: authority_def strip_userinfo_def)
next
  case (Some i)
  have bound: "i + 3 \<le> length s" using find_str_Some [OF Some] by simp
  have auth: "take ((case find_char (CHR ''/'') (drop (i + 3) s) of None \<Rightarrow> length s | Some j \<Rightarrow> i + 3 + j) - (i + 3))
      (drop (i + 3) s) = authority s"
    using find_char_takeWhile [where p = "CHR ''/''" and s = "drop (i + 3) s"] Some
    by (simp add: authority_def split: option.splits)
  show ?thesis
  proof (cases "rfind_char (CHR ''@'') (authority s)")
    case None
    moreover have "strip_userinfo s = s"
      using Some auth None by (simp add: strip_userinfo_def Let_def)
    ultimately show ?thesis by (intro plain) (simp_all add: rfind_char_None)
  next
    case at: (Some at)
    have "strip_userinfo s = take (i + 3) s @ drop (i + 3 + at + 1) s"
      using Some at auth by (simp add: strip_userinfo_def Let_def)
    then show ?thesis using rfind_char_Some [OF at] Some by (intro redacted) auto
  qed
qed

text \<open>C25: Redaction removes the user information of a server URL and nothing else: in a URL with a scheme,
  everything between the scheme separator and the last at sign before the path is dropped, and scheme,
  host, port and path stay; a URL without an at sign there is unchanged, also when its path has one.\<close>

theorem userinfo_removed:
  assumes "first_separator scheme" "CHR ''/'' \<notin> set userinfo" "CHR ''/'' \<notin> set host" "CHR ''@'' \<notin> set host"
    and "path = [] \<or> hd path = CHR ''/''"
  shows "strip_userinfo (scheme @ ''://'' @ userinfo @ ''@'' @ host @ path) = scheme @ ''://'' @ host @ path \<and>
    strip_userinfo (scheme @ ''://'' @ host @ path) = scheme @ ''://'' @ host @ path"
proof
  let ?s = "scheme @ ''://'' @ (userinfo @ ''@'' @ host) @ path"
  have auth: "authority ?s = userinfo @ ''@'' @ host" using assms(1-3,5) by (intro authority_of) simp_all
  have sep: "find_str ''://'' ?s = Some (length scheme)" by (rule find_str_separator [OF assms(1)])
  have "strip_userinfo ?s = scheme @ ''://'' @ host @ path"
  proof (cases rule: strip_userinfo_cases [of ?s])
    case plain
    then show ?thesis unfolding auth by simp
  next
    case (redacted i at)
    have "at \<le> length userinfo"
    proof (rule ccontr)
      assume "\<not> at \<le> length userinfo"
      then have "authority ?s ! at = host ! (at - length userinfo - 1)" "at - length userinfo - 1 < length host"
        using redacted(2) unfolding auth by (simp_all add: nth_append nth_Cons' less_diff_conv2)
      then show False using redacted(3) assms(4) by (metis nth_mem)
    qed
    moreover have "\<not> Suc at \<le> length userinfo" using redacted(4) unfolding auth by auto
    ultimately have "at = length userinfo" by simp
    moreover have "drop (length scheme + 3 + length userinfo + 1) ?s = host @ path"
      by (simp add: drop_Cons' numeral_eq_Suc)
    ultimately show ?thesis using redacted(1,5) sep by simp
  qed
  then show "strip_userinfo (scheme @ ''://'' @ userinfo @ ''@'' @ host @ path) = scheme @ ''://'' @ host @ path" by simp
  have "authority (scheme @ ''://'' @ host @ path) = host" using assms(1,3,5) by (intro authority_of)
  then show "strip_userinfo (scheme @ ''://'' @ host @ path) = scheme @ ''://'' @ host @ path"
    using strip_userinfo_cases [of "scheme @ ''://'' @ host @ path"] assms(4) by (metis nth_mem)
qed

lemma first_separator_nats: "first_separator ''nats''"
  by (auto simp: first_separator_def Cons_eq_append_conv)

theorem userinfo_removed_witness:
  "strip_userinfo ''nats://u:p@ss@host:4222/a@b'' = ''nats://host:4222/a@b'' \<and>
   strip_userinfo ''nats://host:4222/a@b'' = ''nats://host:4222/a@b''"
  using userinfo_removed [OF first_separator_nats, of "''u:p@ss''" "''host:4222''" "''/a@b''"] by simp

text \<open>C37: Two forms of user information survive redaction. A server entry without a scheme separator is returned
  as it is, so the password of \<^verbatim>\<open>user:pass@host:4222\<close> stays; and a slash in the password ends the part that
  is searched, so \<^verbatim>\<open>nats://u:pa/ss@host\<close> stays as well.\<close>

theorem userinfo_survives:
  assumes "first_separator scheme" "CHR ''/'' \<notin> set front" "CHR ''@'' \<notin> set front"
  shows "(\<forall>s. (\<nexists>a b. s = a @ ''://'' @ b) \<longrightarrow> strip_userinfo s = s) \<and>
    strip_userinfo (scheme @ ''://'' @ front @ ''/'' @ rest) = scheme @ ''://'' @ front @ ''/'' @ rest"
proof
  show "\<forall>s. (\<nexists>a b. s = a @ ''://'' @ b) \<longrightarrow> strip_userinfo s = s"
    by (simp add: strip_userinfo_def find_str_None)
  let ?s = "scheme @ ''://'' @ front @ ''/'' @ rest"
  have "authority ?s = front" using assms(1,2) by (intro authority_of) simp_all
  then show "strip_userinfo ?s = ?s" using strip_userinfo_cases [of ?s] assms(3) by (metis nth_mem)
qed

theorem userinfo_survives_witness:
  "strip_userinfo ''user:pass@host:4222'' = ''user:pass@host:4222'' \<and>
   strip_userinfo ''nats://u:pa/ss@host'' = ''nats://u:pa/ss@host''"
proof -
  have "\<nexists>a b. ''user:pass@host:4222'' = a @ ''://'' @ b" by (auto simp: Cons_eq_append_conv)
  then show ?thesis
    using userinfo_survives [OF first_separator_nats, of "''u:pa''" "''ss@host''"] by simp
qed

end
