(* ===== verification/Sink_Nats.thy ===== *)
theory Sink_Nats
  imports Sink_Core Redact
begin

text \<open>
  The NATS JetStream sink, \<^verbatim>\<open>rastreo-core/src/sink/nats.rs\<close>: pipelined publishes whose acknowledgements
  are awaited later, the drain that puts refused records back, the dead-letter subject with its counters
  per failure class, and the second streams whose acknowledgements are awaited one by one. The async-nats
  client, the clock and the timer are the fields of \<^verbatim>\<open>NatsLib\<close>.

  The publish loop terminates: every turn removes the head of the buffer or ends the loop. Under
  \<^verbatim>\<open>nats_lawful\<close> the sink meets the contract \<^verbatim>\<open>at_least_once\<close>.
\<close>

section \<open>Configuration\<close>

definition max_pending_acks :: nat where
  "max_pending_acks = 512"

definition ack_permit_capacity :: nat where
  "ack_permit_capacity = max_pending_acks + 64"

definition should_drain_pending_acks :: "nat \<Rightarrow> bool" where
  "should_drain_pending_acks pending = (pending \<ge> max_pending_acks)"

datatype NatsCredentials = Anonymous | UserPass string string | Token string | Creds string

datatype NatsFlushMode = NatsPerRecord | NatsBatched nat

fun nats_to_threshold :: "NatsFlushMode \<Rightarrow> nat" where
  "nats_to_threshold NatsPerRecord = 1"
| "nats_to_threshold (NatsBatched threshold_bytes) = clamp_threshold threshold_bytes"

record NatsDeadLetterConfig =
  nd_stream :: string
  nd_subject :: string
  nd_include_error_metadata :: bool

definition nats_dead_letter_validate :: "NatsDeadLetterConfig \<Rightarrow> unit result" where
  "nats_dead_letter_validate c =
     (if trim (nd_stream c) = [] then Inl (EConfig (InvalidValue ''nats sink: dead-letter stream is empty''))
      else if trim (nd_subject c) = [] then Inl (EConfig (InvalidValue ''nats sink: dead-letter subject is empty''))
      else Inr ())"

text \<open>The client library; \<^verbatim>\<open>'x\<close> is the client and its JetStream context, \<^verbatim>\<open>'a\<close> the future of an
  acknowledgement, \<^verbatim>\<open>'f\<close> the content of a credentials file.\<close>

datatype 'f ConnectOptions = OptNew | OptUserAndPassword string string | OptToken string | OptCredentials 'f

record ('w, 'x, 'a, 'f) NatsLib =
  nl_credentials_file :: "'w \<Rightarrow> string \<Rightarrow> string + 'f"
  nl_connect :: "'w \<Rightarrow> 'f ConnectOptions \<Rightarrow> string list \<Rightarrow> 'w \<times> (string + 'x)"
  nl_context :: "nat \<Rightarrow> 'x \<Rightarrow> 'x"
  nl_get_stream :: "'w \<Rightarrow> 'x \<Rightarrow> string \<Rightarrow> 'w \<times> (string + unit)"
  nl_publish :: "'w \<Rightarrow> 'x \<Rightarrow> string \<Rightarrow> (string \<times> string) list \<Rightarrow> bytes \<Rightarrow> 'w \<times> (string + 'a)"
  nl_await :: "'w \<Rightarrow> 'a \<Rightarrow> 'w \<times> (string + unit)"
  nl_flush :: "'w \<Rightarrow> 'x \<Rightarrow> 'w \<times> (string + unit)"
  nl_sleep :: "u64 \<Rightarrow> 'w \<Rightarrow> 'w"
  nl_now :: "'w \<Rightarrow> int"
  nl_rfc3339 :: "int \<Rightarrow> string"

fun connect_with_credentials ::
  "('w, 'x, 'a, 'f) NatsLib \<Rightarrow> 'w \<Rightarrow> string list \<Rightarrow> NatsCredentials \<Rightarrow> 'w \<times> (string + 'x)" where
  "connect_with_credentials lib w servers Anonymous = nl_connect lib w OptNew servers"
| "connect_with_credentials lib w servers (UserPass u p) = nl_connect lib w (OptUserAndPassword u p) servers"
| "connect_with_credentials lib w servers (Token t) = nl_connect lib w (OptToken t) servers"
| "connect_with_credentials lib w servers (Creds path) = (case nl_credentials_file lib w path of
     Inl e \<Rightarrow> (w, Inl e) | Inr opts \<Rightarrow> nl_connect lib w (OptCredentials opts) servers)"

section \<open>The sink\<close>

record ('x, 'a) NatsSink =
  ns_subject :: string
  ns_stream :: string
  ns_servers :: "string list"
  ns_ctx :: 'x
  ns_buffer :: PendingBuffer
  ns_buffer_threshold :: nat
  ns_pending_acks :: "(bytes \<times> 'a) list"
  ns_last_write_delivered :: bool
  ns_dlq_stream :: "string option"
  ns_dlq_subject :: "string option"
  ns_include_error_metadata :: bool
  ns_dlq_delivered :: class_counts
  ns_retry :: SinkRetry
  ns_links_subject :: string
  ns_links_buffer :: PendingBuffer
  ns_profiles_subject :: string
  ns_profiles_buffer :: PendingBuffer

definition build_publish_error :: "string \<Rightarrow> string list \<Rightarrow> string \<Rightarrow> RastreoError" where
  "build_publish_error subject servers e = ESink (sink_error_new PublishFailure
     (''nats sink: failed to publish to subject '' @ quoted subject @ '' at server(s) '' @
      quoted (redacted_server_list servers) @ '': '' @ e))"

definition build_ack_error :: "string \<Rightarrow> string list \<Rightarrow> string \<Rightarrow> RastreoError" where
  "build_ack_error subject servers e = ESink (sink_error_new AckRejection
     (''nats sink: publish to subject '' @ quoted subject @ '' at server(s) '' @
      quoted (redacted_server_list servers) @ '' was not acked: '' @ e))"

definition build_probe_error :: "string \<Rightarrow> string list \<Rightarrow> string \<Rightarrow> string" where
  "build_probe_error subject servers e = ''nats sink probe failed for subject '' @ quoted subject @
     '' at server(s) '' @ quoted (redacted_server_list servers) @ '': '' @ e"

definition nats_build_dlq_headers ::
  "('w, 'x, 'a, 'f) NatsLib \<Rightarrow> 'w \<Rightarrow> string \<Rightarrow> SinkErrorClass \<Rightarrow> (string \<times> string) list" where
  "nats_build_dlq_headers lib w source_subject error_class =
     [(''x-rastreo-source-subject'', source_subject),
      (''x-rastreo-error-class'', sink_error_class_label error_class),
      (''x-rastreo-dlq-timestamp'', nl_rfc3339 lib (nl_now lib w))]"

definition nats_new ::
  "('w, 'x, 'a, 'f) NatsLib \<Rightarrow> 'w \<Rightarrow> string list \<Rightarrow> string \<Rightarrow> string \<Rightarrow> NatsCredentials \<Rightarrow>
   'w \<times> ('x, 'a) NatsSink result" where
  "nats_new lib w servers subject stream credentials =
     (let servers_for_err = redacted_server_list servers in
      case connect_with_credentials lib w servers credentials of
        (w1, Inl e) \<Rightarrow> (w1, Inl (ESink (sink_error_other
          (''nats sink: failed to connect to server(s) '' @ quoted servers_for_err @ '': '' @ e))))
      | (w1, Inr client) \<Rightarrow>
          let ctx = nl_context lib ack_permit_capacity client in
          (case nl_get_stream lib w1 ctx stream of
             (w2, Inl e) \<Rightarrow> (w2, Inl (ESink (sink_error_other
               (''nats sink: JetStream stream '' @ quoted stream @ '' not found or unreachable at server(s) '' @
                quoted servers_for_err @ '': '' @ e))))
           | (w2, Inr _) \<Rightarrow> (w2, Inr
               \<lparr>ns_subject = subject, ns_stream = stream, ns_servers = servers, ns_ctx = ctx,
                ns_buffer = pending_new, ns_buffer_threshold = 1, ns_pending_acks = [],
                ns_last_write_delivered = False, ns_dlq_stream = None, ns_dlq_subject = None,
                ns_include_error_metadata = False, ns_dlq_delivered = replicate 6 0,
                ns_retry = sink_retry_default, ns_links_subject = default_links_destination,
                ns_links_buffer = pending_new, ns_profiles_subject = default_profiles_destination,
                ns_profiles_buffer = pending_new\<rparr>)))"

definition nats_with_dead_letter ::
  "('w, 'x, 'a, 'f) NatsLib \<Rightarrow> 'w \<Rightarrow> ('x, 'a) NatsSink \<Rightarrow> NatsDeadLetterConfig \<Rightarrow> 'w \<times> ('x, 'a) NatsSink result" where
  "nats_with_dead_letter lib w s config = (case nats_dead_letter_validate config of
       Inl e \<Rightarrow> (w, Inl e)
     | Inr _ \<Rightarrow> let dlq_stream = nd_stream config in
         (case nl_get_stream lib w (ns_ctx s) dlq_stream of
            (w1, Inl e) \<Rightarrow> (w1, Inl (ESink (sink_error_other
              (''nats sink: JetStream dead-letter stream '' @ quoted dlq_stream @
               '' not found or unreachable at server(s) '' @ quoted (redacted_server_list (ns_servers s)) @ '': '' @ e))))
          | (w1, Inr _) \<Rightarrow> (w1, Inr (s\<lparr>ns_dlq_stream := Some dlq_stream, ns_dlq_subject := Some (nd_subject config),
              ns_include_error_metadata := nd_include_error_metadata config\<rparr>))))"

section \<open>Delivery\<close>

definition credit_dlq :: "('x, 'a) NatsSink \<Rightarrow> SinkErrorClass \<Rightarrow> ('x, 'a) NatsSink" where
  "credit_dlq s c = (let i = sink_error_class_index c in
     s\<lparr>ns_dlq_delivered := (ns_dlq_delivered s)[i := ns_dlq_delivered s ! i + 1]\<rparr>)"

definition quarantine ::
  "('w, 'x, 'a, 'f) NatsLib \<Rightarrow> 'w \<Rightarrow> ('x, 'a) NatsSink \<Rightarrow> bytes \<Rightarrow> SinkErrorClass \<Rightarrow> 'w \<times> ('x, 'a) NatsSink \<times> bool" where
  "quarantine lib w s payload error_class = (case ns_dlq_subject s of
       None \<Rightarrow> (w, s, False)
     | Some dlq_subject \<Rightarrow>
         let headers = (if ns_include_error_metadata s
               then nats_build_dlq_headers lib w (ns_subject s) error_class else []) in
         (case nl_publish lib w (ns_ctx s) dlq_subject headers payload of
            (w1, Inl _) \<Rightarrow> (w1, s, False)
          | (w1, Inr ack) \<Rightarrow> (case nl_await lib w1 ack of
              (w2, Inl _) \<Rightarrow> (w2, s, False)
            | (w2, Inr _) \<Rightarrow> (w2, credit_dlq s error_class, True))))"

text \<open>A retried publish without headers, as both the device stream and the second streams issue it.\<close>

definition publish_retried ::
  "('w, 'x, 'a, 'f) NatsLib \<Rightarrow> SinkRetry \<Rightarrow> 'x \<Rightarrow> string list \<Rightarrow> string \<Rightarrow> bytes \<Rightarrow> 'w \<Rightarrow> 'w \<times> 'a result" where
  "publish_retried lib retry ctx servers subject payload w =
     retry_with_backoff retry (nl_sleep lib)
       (\<lambda>u. case nl_publish lib u ctx subject [] payload of
          (u', Inl e) \<Rightarrow> (u', Inl (build_publish_error subject servers e))
        | (u', Inr ack) \<Rightarrow> (u', Inr ack)) w"

text \<open>The loop of \<^verbatim>\<open>drain_pending_acks\<close> over the acknowledgements taken out of the sink.\<close>

fun drain_loop ::
  "('w, 'x, 'a, 'f) NatsLib \<Rightarrow> 'w \<Rightarrow> ('x, 'a) NatsSink \<Rightarrow> (bytes \<times> 'a) list \<Rightarrow> PendingBuffer \<Rightarrow> RastreoError option \<Rightarrow>
   'w \<times> ('x, 'a) NatsSink \<times> PendingBuffer \<times> RastreoError option" where
  "drain_loop lib w s [] unacked first_error = (w, s, unacked, first_error)"
| "drain_loop lib w s ((payload, ack) # pending) unacked first_error = (case nl_await lib w ack of
       (w1, Inr _) \<Rightarrow> drain_loop lib w1 s pending unacked first_error
     | (w1, Inl ack_err) \<Rightarrow>
         let ack_error = build_ack_error (ns_subject s) (ns_servers s) ack_err in
         (case quarantine lib w1 s payload AckRejection of
            (w2, s2, True) \<Rightarrow> drain_loop lib w2 s2 pending unacked first_error
          | (w2, s2, False) \<Rightarrow> drain_loop lib w2 s2 pending (pending_push unacked payload)
              (if first_error = None then Some ack_error else first_error)))"

definition drain_pending_acks :: "('w, 'x, 'a, 'f) NatsLib \<Rightarrow> ('w, ('x, 'a) NatsSink) sink_call" where
  "drain_pending_acks lib w s = (if ns_pending_acks s = [] then (w, s, Inr ()) else
     case drain_loop lib w (s\<lparr>ns_pending_acks := []\<rparr>) (ns_pending_acks s) pending_new None of
       (w1, s1, unacked, first_error) \<Rightarrow>
         (w1, s1\<lparr>ns_buffer := restore_front (ns_buffer s1) unacked\<rparr>,
          case first_error of Some e \<Rightarrow> Inl e | None \<Rightarrow> Inr ()))"

text \<open>One turn of the loop of \<^verbatim>\<open>publish_buffer\<close>, for the head \<^verbatim>\<open>payload\<close>: \<^verbatim>\<open>None\<close> goes on, \<^verbatim>\<open>Some\<close> returns.\<close>

definition publish_turn ::
  "('w, 'x, 'a, 'f) NatsLib \<Rightarrow> 'w \<Rightarrow> ('x, 'a) NatsSink \<Rightarrow> bytes \<Rightarrow> 'w \<times> ('x, 'a) NatsSink \<times> RastreoError option" where
  "publish_turn lib w s payload =
     (case publish_retried lib (ns_retry s) (ns_ctx s) (ns_servers s) (ns_subject s) payload w of (w1, publish_result) \<Rightarrow>
      case settle_front (ns_buffer s) publish_result of (b1, settled) \<Rightarrow>
      let s1 = s\<lparr>ns_buffer := b1\<rparr> in
      case settled of
        Inr ack \<Rightarrow>
          let s2 = s1\<lparr>ns_pending_acks := ns_pending_acks s1 @ [(payload, ack)]\<rparr> in
          if should_drain_pending_acks (length (ns_pending_acks s2))
          then (case drain_pending_acks lib w1 s2 of (w2, s3, r) \<Rightarrow> (w2, s3, result_err r))
          else (w1, s2, None)
      | Inl primary_err \<Rightarrow>
          (case quarantine lib w1 s1 payload PublishFailure of (w2, s2, quarantined) \<Rightarrow>
           case settle_front (ns_buffer s2) (if quarantined then Inr () else Inl primary_err) of (b2, r) \<Rightarrow>
             (w2, s2\<lparr>ns_buffer := b2\<rparr>, result_err r)))"

section \<open>Termination of the publish loop\<close>

lemma quarantine_frame: "quarantine lib w s p c = (w', s', q) \<Longrightarrow> \<exists>n. s' = s\<lparr>ns_dlq_delivered := n\<rparr>"
  by (auto simp: quarantine_def credit_dlq_def Let_def split: option.splits prod.splits sum.splits
      intro: exI [of _ "ns_dlq_delivered s"])

lemma drain_loop_frame:
  "drain_loop lib w s acks unacked e = (w', s', unacked', e') \<Longrightarrow>
   (\<exists>n. s' = s\<lparr>ns_dlq_delivered := n\<rparr>) \<and> (e' = None \<longrightarrow> unacked' = unacked \<and> e = None)"
proof (induction acks arbitrary: w s unacked e)
  case (Cons pa pending)
  obtain payload ack where pa: "pa = (payload, ack)" by (cases pa)
  obtain w1 a where a: "nl_await lib w ack = (w1, a)" by fastforce
  show ?case
  proof (cases a)
    case (Inr u)
    then show ?thesis using Cons.IH [of w1 s unacked e] Cons.prems pa a by simp
  next
    case (Inl x)
    obtain w2 s2 q where q: "quarantine lib w1 s payload AckRejection = (w2, s2, q)"
      by (cases "quarantine lib w1 s payload AckRejection") auto
    obtain n where n: "s2 = s\<lparr>ns_dlq_delivered := n\<rparr>" using quarantine_frame [OF q] by blast
    show ?thesis
    proof (cases q)
      case True
      then have "(\<exists>n. s' = s2\<lparr>ns_dlq_delivered := n\<rparr>) \<and> (e' = None \<longrightarrow> unacked' = unacked \<and> e = None)"
        using Cons.IH [of w2 s2 unacked e] Cons.prems pa a Inl q by (simp add: Let_def)
      then show ?thesis using n by auto
    next
      case False
      then have "(\<exists>n. s' = s2\<lparr>ns_dlq_delivered := n\<rparr>) \<and> e' \<noteq> None"
        using Cons.IH [of w2 s2] Cons.prems pa a Inl q by (fastforce simp: Let_def split: if_splits)
      then show ?thesis using n by auto
    qed
  qed
qed (auto intro: exI [of _ "ns_dlq_delivered s'"])

lemma drain_pending_acks_ok: "drain_pending_acks lib w s = (w', s', Inr ()) \<Longrightarrow> ns_buffer s' = ns_buffer s"
  by (auto simp: drain_pending_acks_def restore_front_def pending_is_empty_def
      dest!: drain_loop_frame split: if_splits prod.splits option.splits)

lemma publish_turn_shrinks:
  assumes run: "publish_turn lib w s payload = (w', s', None)" and front: "pending_front (ns_buffer s) = Some payload"
  shows "length (pb_entries (ns_buffer s')) < length (pb_entries (ns_buffer s))"
proof -
  obtain rest where rest: "pb_entries (ns_buffer s) = payload # rest" using front by (auto simp: pending_front_Some)
  obtain w1 p where p: "publish_retried lib (ns_retry s) (ns_ctx s) (ns_servers s) (ns_subject s) payload w = (w1, p)"
    by fastforce
  show ?thesis
  proof (cases p)
    case (Inr ack)
    obtain b1 where b1: "settle_front (ns_buffer s) p = (b1, Inr ack)" "pb_entries b1 = rest"
      using rest Inr by (simp add: settle_front_def)
    show ?thesis using run p Inr b1 rest
      by (auto simp: publish_turn_def Let_def dest: drain_pending_acks_ok split: if_splits prod.splits)
  next
    case (Inl e)
    obtain w2 s2 q where q: "quarantine lib w1 s payload PublishFailure = (w2, s2, q)"
      by (cases "quarantine lib w1 s payload PublishFailure") auto
    then have "ns_buffer s2 = ns_buffer s" using quarantine_frame by fastforce
    then show ?thesis using run p Inl q rest
      by (cases q) (auto simp: publish_turn_def Let_def settle_front_def split: if_splits prod.splits)
  qed
qed

function nats_publish_loop :: "('w, 'x, 'a, 'f) NatsLib \<Rightarrow> ('w, ('x, 'a) NatsSink) sink_call" where
  "nats_publish_loop lib w s = (case pending_front (ns_buffer s) of
       None \<Rightarrow> (w, s, Inr ())
     | Some payload \<Rightarrow> (case publish_turn lib w s payload of
         (w1, s1, Some e) \<Rightarrow> (w1, s1, Inl e)
       | (w1, s1, None) \<Rightarrow> nats_publish_loop lib w1 s1))"
  by pat_completeness auto
termination
  by (relation "measure (\<lambda>(_, _, s). length (pb_entries (ns_buffer s)))") (auto intro: publish_turn_shrinks [OF sym])

declare nats_publish_loop.simps [simp del]

definition nats_publish_buffer :: "('w, 'x, 'a, 'f) NatsLib \<Rightarrow> ('w, ('x, 'a) NatsSink) sink_call" where
  "nats_publish_buffer lib w s = (if pending_is_empty (ns_buffer s) then (w, s, Inr ()) else nats_publish_loop lib w s)"

definition publish_and_drain :: "('w, 'x, 'a, 'f) NatsLib \<Rightarrow> ('w, ('x, 'a) NatsSink) sink_call" where
  "publish_and_drain lib w s =
     (case nats_publish_buffer lib w s of (w1, s1, publish) \<Rightarrow>
      case drain_pending_acks lib w1 s1 of (w2, s2, drain) \<Rightarrow>
      (case or_else (result_err publish) (result_err drain) of
         Some e \<Rightarrow> (w2, s2, Inl e) | None \<Rightarrow> (w2, s2, Inr ())))"

text \<open>A second stream: each acknowledgement is awaited before the next publish.\<close>

function publish_stream_buffer ::
  "('w, 'x, 'a, 'f) NatsLib \<Rightarrow> 'x \<Rightarrow> SinkRetry \<Rightarrow> string list \<Rightarrow> string \<Rightarrow> 'w \<Rightarrow> PendingBuffer \<Rightarrow>
   'w \<times> PendingBuffer \<times> unit result" where
  "publish_stream_buffer lib ctx retry servers subject w buffer = (case pending_front buffer of
       None \<Rightarrow> (w, buffer, Inr ())
     | Some payload \<Rightarrow> (case publish_retried lib retry ctx servers subject payload w of
         (w1, Inl e) \<Rightarrow> (w1, buffer, Inl e)
       | (w1, Inr ack) \<Rightarrow> (case nl_await lib w1 ack of
           (w2, Inl e) \<Rightarrow> (w2, fst (settle_front buffer (Inl e :: string + unit)), Inl (build_ack_error subject servers e))
         | (w2, Inr _) \<Rightarrow>
             publish_stream_buffer lib ctx retry servers subject w2 (fst (settle_front buffer (Inr () :: string + unit))))))"
  by pat_completeness auto
termination
  by (relation "measure (\<lambda>(_, _, _, _, _, _, b). length (pb_entries b))") (auto simp: pending_front_Some)

declare publish_stream_buffer.simps [simp del]

definition nats_publish_links_buffer :: "('w, 'x, 'a, 'f) NatsLib \<Rightarrow> ('w, ('x, 'a) NatsSink) sink_call" where
  "nats_publish_links_buffer lib w s =
     (case publish_stream_buffer lib (ns_ctx s) (ns_retry s) (ns_servers s) (ns_links_subject s) w (ns_links_buffer s) of
        (w1, b, r) \<Rightarrow> (w1, s\<lparr>ns_links_buffer := b\<rparr>, r))"

definition nats_publish_profiles_buffer :: "('w, 'x, 'a, 'f) NatsLib \<Rightarrow> ('w, ('x, 'a) NatsSink) sink_call" where
  "nats_publish_profiles_buffer lib w s =
     (case publish_stream_buffer lib (ns_ctx s) (ns_retry s) (ns_servers s) (ns_profiles_subject s) w (ns_profiles_buffer s) of
        (w1, b, r) \<Rightarrow> (w1, s\<lparr>ns_profiles_buffer := b\<rparr>, r))"

section \<open>The trait's methods\<close>

definition nats_write :: "('w, 'x, 'a, 'f) NatsLib \<Rightarrow> bytes \<Rightarrow> ('w, ('x, 'a) NatsSink) sink_call" where
  "nats_write lib data w s =
     (let s1 = s\<lparr>ns_last_write_delivered := False, ns_buffer := push_record (ns_buffer s) data\<rparr> in
      if reached_threshold (ns_buffer s1) (ns_buffer_threshold s1) then
        if ns_buffer_threshold s1 = 1
        then (case publish_and_drain lib w s1 of
                (w2, s2, Inl e) \<Rightarrow> (w2, s2, Inl e)
              | (w2, s2, Inr _) \<Rightarrow> (w2, s2\<lparr>ns_last_write_delivered := True\<rparr>, Inr ()))
        else nats_publish_buffer lib w s1
      else (w, s1, Inr ()))"

definition nats_write_link :: "('w, 'x, 'a, 'f) NatsLib \<Rightarrow> bytes \<Rightarrow> ('w, ('x, 'a) NatsSink) sink_call" where
  "nats_write_link lib data w s =
     (let s1 = s\<lparr>ns_last_write_delivered := False, ns_links_buffer := push_record (ns_links_buffer s) data\<rparr> in
      if reached_threshold (ns_links_buffer s1) (ns_buffer_threshold s1)
      then (case nats_publish_links_buffer lib w s1 of
              (w2, s2, Inl e) \<Rightarrow> (w2, s2, Inl e)
            | (w2, s2, Inr _) \<Rightarrow> (w2, s2\<lparr>ns_last_write_delivered := True\<rparr>, Inr ()))
      else (w, s1, Inr ()))"

definition nats_write_profile :: "('w, 'x, 'a, 'f) NatsLib \<Rightarrow> bytes \<Rightarrow> ('w, ('x, 'a) NatsSink) sink_call" where
  "nats_write_profile lib data w s =
     (let s1 = s\<lparr>ns_last_write_delivered := False, ns_profiles_buffer := push_record (ns_profiles_buffer s) data\<rparr> in
      if reached_threshold (ns_profiles_buffer s1) (ns_buffer_threshold s1)
      then (case nats_publish_profiles_buffer lib w s1 of
              (w2, s2, Inl e) \<Rightarrow> (w2, s2, Inl e)
            | (w2, s2, Inr _) \<Rightarrow> (w2, s2\<lparr>ns_last_write_delivered := True\<rparr>, Inr ()))
      else (w, s1, Inr ()))"

fun nats_write_kind :: "('w, 'x, 'a, 'f) NatsLib \<Rightarrow> RecordKind \<Rightarrow> bytes \<Rightarrow> ('w, ('x, 'a) NatsSink) sink_call" where
  "nats_write_kind lib Device data = nats_write lib data"
| "nats_write_kind lib Link data = nats_write_link lib data"
| "nats_write_kind lib CollectionProfile data = nats_write_profile lib data"

definition nats_flush :: "('w, 'x, 'a, 'f) NatsLib \<Rightarrow> ('w, ('x, 'a) NatsSink) sink_call" where
  "nats_flush lib w s =
     (case publish_and_drain lib w s of (w1, s1, device) \<Rightarrow>
      case nats_publish_links_buffer lib w1 s1 of (w2, s2, links) \<Rightarrow>
      case nats_publish_profiles_buffer lib w2 s2 of (w3, s3, profiles) \<Rightarrow>
      let first_error = or_else (or_else (result_err device) (result_err links)) (result_err profiles);
          s4 = s3\<lparr>ns_last_write_delivered := (first_error = None)\<rparr> in
      case first_error of Some e \<Rightarrow> (w3, s4, Inl e) | None \<Rightarrow> (w3, s4, Inr ()))"

definition nats_last_write_delivered :: "('x, 'a) NatsSink \<Rightarrow> bool" where
  "nats_last_write_delivered s = (ns_last_write_delivered s \<and> ns_pending_acks s = [])"

definition nats_dlq_records_delivered :: "('x, 'a) NatsSink \<Rightarrow> u64" where
  "nats_dlq_records_delivered s = foldl saturating_add 0 (ns_dlq_delivered s)"

definition nats_probe :: "('w, 'x, 'a, 'f) NatsLib \<Rightarrow> 'w \<Rightarrow> ('x, 'a) NatsSink \<Rightarrow> 'w \<times> (string + unit)" where
  "nats_probe lib w s = (case nl_flush lib w (ns_ctx s) of
     (w1, Inl e) \<Rightarrow> (w1, Inl (build_probe_error (ns_subject s) (ns_servers s) e)) | (w1, Inr _) \<Rightarrow> (w1, Inr ()))"

definition nats_vtable :: "('w, 'x, 'a, 'f) NatsLib \<Rightarrow> ('w, ('x, 'a) NatsSink) Sink" where
  "nats_vtable lib = (sink_defaults (nats_write lib) (nats_flush lib) nats_last_write_delivered NatsType)
     \<lparr>sk_write_kind := nats_write_kind lib,
      sk_dlq_records_delivered := nats_dlq_records_delivered,
      sk_dlq_records_by_class := ns_dlq_delivered,
      sk_dlq_records_by_type_and_class := (\<lambda>s. default_dlq_by_type_and_class NatsType (ns_dlq_delivered s)),
      sk_probe := nats_probe lib\<rparr>"

section \<open>What the client library promises\<close>

text \<open>\<^verbatim>\<open>accepted w t\<close> is the multiset of payloads subject \<^verbatim>\<open>t\<close> has acknowledged; \<^verbatim>\<open>ack_for\<close> is the publish an
  acknowledgement belongs to. A publish that returns only hands out the future; awaiting it with success
  means the payload is stored.\<close>

definition nats_lawful ::
  "('w, 'x, 'a, 'f) NatsLib \<Rightarrow> ('a \<Rightarrow> string \<times> bytes) \<Rightarrow> ('w \<Rightarrow> string \<Rightarrow> bytes multiset) \<Rightarrow> bool" where
  "nats_lawful lib ack_for accepted \<longleftrightarrow>
     (\<forall>w x t hs p. grows accepted w (fst (nl_publish lib w x t hs p))) \<and>
     (\<forall>w a. grows accepted w (fst (nl_await lib w a))) \<and>
     (\<forall>w d. grows accepted w (nl_sleep lib d w)) \<and>
     (\<forall>w x t hs p a. snd (nl_publish lib w x t hs p) = Inr a \<longrightarrow> ack_for a = (t, p)) \<and>
     (\<forall>w a. snd (nl_await lib w a) = Inr () \<longrightarrow>
        accepted w (fst (ack_for a)) + {#snd (ack_for a)#} \<subseteq># accepted (fst (nl_await lib w a)) (fst (ack_for a)))"

definition nats_invar :: "('a \<Rightarrow> string \<times> bytes) \<Rightarrow> ('x, 'a) NatsSink \<Rightarrow> bool" where
  "nats_invar ack_for s \<longleftrightarrow>
     (\<forall>(p, a) \<in> set (ns_pending_acks s). ack_for a = (ns_subject s, p)) \<and>
     pending_ok (ns_buffer s) \<and> pending_ok (ns_links_buffer s) \<and> pending_ok (ns_profiles_buffer s) \<and>
     0 < ns_buffer_threshold s"

fun nats_held :: "('x, 'a) NatsSink \<Rightarrow> RecordKind \<Rightarrow> bytes multiset" where
  "nats_held s Device = mset (pb_entries (ns_buffer s)) + mset (map fst (ns_pending_acks s))"
| "nats_held s Link = mset (pb_entries (ns_links_buffer s))"
| "nats_held s CollectionProfile = mset (pb_entries (ns_profiles_buffer s))"

fun nats_taken :: "('w \<Rightarrow> string \<Rightarrow> bytes multiset) \<Rightarrow> 'w \<Rightarrow> ('x, 'a) NatsSink \<Rightarrow> RecordKind \<Rightarrow> bytes multiset" where
  "nats_taken accepted w s Device = either_accepted (accepted w) (ns_subject s) (ns_dlq_subject s)"
| "nats_taken accepted w s Link = accepted w (ns_links_subject s)"
| "nats_taken accepted w s CollectionProfile = accepted w (ns_profiles_subject s)"

lemma nats_lawfulD:
  assumes "nats_lawful lib ack_for accepted"
  shows "nl_publish lib w x t hs p = (w', y) \<Longrightarrow> grows accepted w w'"
    "nl_await lib w a = (w', r) \<Longrightarrow> grows accepted w w'"
    "grows accepted w (nl_sleep lib ms w)"
    "nl_publish lib w x t hs p = (w', Inr a) \<Longrightarrow> ack_for a = (t, p)"
    "nl_await lib w a = (w', Inr ()) \<Longrightarrow> ack_for a = (t, p) \<Longrightarrow> accepted w t + {#p#} \<subseteq># accepted w' t"
  using assms unfolding nats_lawful_def by (metis fst_conv snd_conv)+

lemma nats_taken_grows: "grows accepted w w' \<Longrightarrow> nats_taken accepted w s k \<subseteq># nats_taken accepted w' s k"
  by (cases k) (simp_all add: either_accepted_grows growsD)

lemma nats_primary_accepts:
  assumes "grows accepted w w'" "accepted w (ns_subject s) + m \<subseteq># accepted w' (ns_subject s)"
  shows "m + nats_taken accepted w s Device \<subseteq># nats_taken accepted w' s Device"
  using either_accepted_primary [OF assms] by simp

lemma nats_dlq_accepts:
  assumes "grows accepted w w'" "ns_dlq_subject s = Some t" "accepted w t + m \<subseteq># accepted w' t"
  shows "m + nats_taken accepted w s Device \<subseteq># nats_taken accepted w' s Device"
  using either_accepted_dlq [OF assms(1,3)] assms(2) by simp

section \<open>Each operation under the promise\<close>

lemma publish_retried_law:
  assumes law: "nats_lawful lib ack_for accepted"
    and run: "publish_retried lib retry ctx servers subject payload w = (w', r)"
  shows "grows accepted w w'" "r = Inr a \<Longrightarrow> ack_for a = (subject, payload)"
proof -
  define op where "op = (\<lambda>u. case nl_publish lib u ctx subject [] payload of
      (u', Inl e) \<Rightarrow> (u', Inl (build_publish_error subject servers e)) | (u', Inr ack) \<Rightarrow> (u', Inr ack))"
  have fails: "grows accepted u v" if g: "op u = (v, Inl e)" for u v e
    using g by (auto simp: op_def split: prod.splits sum.splits dest: nats_lawfulD(1) [OF law])
  have "retry_with_backoff retry (nl_sleep lib) op w = (w', r)"
    using run by (simp add: publish_retried_def op_def)
  then have "\<exists>u. grows accepted w u \<and> op u = (w', r)"
    by (rule retry_with_backoff_rel [where R = "grows accepted"])
      (blast intro: grows_refl grows_trans nats_lawfulD(3) [OF law] fails)+
  then obtain u where u: "grows accepted w u" "op u = (w', r)" by blast
  obtain q where q: "nl_publish lib u ctx subject [] payload = (w', q)" "r = Inr a \<Longrightarrow> q = Inr a"
    using u(2) by (auto simp: op_def split: prod.splits sum.splits)
  show "grows accepted w w'" using u(1) nats_lawfulD(1) [OF law q(1)] by (rule grows_trans)
  show "ack_for a = (subject, payload)" if "r = Inr a"
    using nats_lawfulD(4) [OF law] q that by blast
qed

lemma quarantine_law:
  assumes law: "nats_lawful lib ack_for accepted" and run: "quarantine lib w s p c = (w', s', q)"
  shows "grows accepted w w'" "q \<Longrightarrow> {#p#} + nats_taken accepted w s Device \<subseteq># nats_taken accepted w' s Device"
proof -
  have "grows accepted w w' \<and> (q \<longrightarrow> {#p#} + nats_taken accepted w s Device \<subseteq># nats_taken accepted w' s Device)"
  proof (cases "ns_dlq_subject s")
    case None
    then show ?thesis using run by (auto simp: quarantine_def)
  next
    case (Some t)
    define hs where "hs = (if ns_include_error_metadata s then nats_build_dlq_headers lib w (ns_subject s) c else [])"
    obtain w1 y where y: "nl_publish lib w (ns_ctx s) t hs p = (w1, y)" by fastforce
    note g1 = nats_lawfulD(1) [OF law y]
    show ?thesis
    proof (cases y)
      case (Inl e)
      then show ?thesis using run Some y g1 by (auto simp: quarantine_def hs_def)
    next
      case (Inr ack)
      obtain w2 z where z: "nl_await lib w1 ack = (w2, z)" by fastforce
      note g2 = nats_lawfulD(2) [OF law z]
      have res: "w' = w2" "q \<Longrightarrow> z = Inr ()"
        using run Some y Inr z by (auto simp: quarantine_def hs_def split: sum.splits)
      have "{#p#} + nats_taken accepted w s Device \<subseteq># nats_taken accepted w2 s Device" if g: q
        using nats_lawfulD(5) [OF law _ nats_lawfulD(4) [OF law], of w1 ack w2 w "ns_ctx s" t hs p w1] g res(2) y z Inr
        by (intro mset_chain [OF nats_taken_grows [OF g1] nats_dlq_accepts [OF g2 Some]]) simp
      then show ?thesis using grows_trans [OF g1 g2] res(1) by blast
    qed
  qed
  then show "grows accepted w w'" "q \<Longrightarrow> {#p#} + nats_taken accepted w s Device \<subseteq># nats_taken accepted w' s Device"
    by blast+
qed

lemma nats_taken_dlq [simp]: "nats_taken accepted w (s\<lparr>ns_dlq_delivered := n\<rparr>) k = nats_taken accepted w s k"
  by (cases k) simp_all

lemma drain_loop_law:
  assumes law: "nats_lawful lib ack_for accepted"
  shows "drain_loop lib w s acks unacked e = (w', s', unacked', e') \<Longrightarrow> pending_ok unacked \<Longrightarrow>
    \<forall>(p, a) \<in> set acks. ack_for a = (ns_subject s, p) \<Longrightarrow>
    grows accepted w w' \<and> pending_ok unacked' \<and>
    mset (map fst acks) + (mset (pb_entries unacked) + nats_taken accepted w s Device) \<subseteq>#
      mset (pb_entries unacked') + nats_taken accepted w' s Device"
proof (induction acks arbitrary: w s unacked e)
  case (Cons pa pending)
  obtain p a where pa: "pa = (p, a)" by (cases pa)
  have for_p: "ack_for a = (ns_subject s, p)" using Cons.prems(3) pa by simp
  obtain w1 z where z: "nl_await lib w a = (w1, z)" by fastforce
  note g1 = nats_lawfulD(2) [OF law z]
  have chain: ?case
    if rest: "drain_loop lib u s2 pending b x = (w', s', unacked', e')" and s2: "s2 = s\<lparr>ns_dlq_delivered := n\<rparr>"
      and b: "pending_ok b" and g: "grows accepted w u"
      and one: "{#p#} + (mset (pb_entries unacked) + nats_taken accepted w s Device) \<subseteq>#
        mset (pb_entries b) + nats_taken accepted u s Device"
    for u s2 b x n
  proof -
    have "\<forall>(p, a) \<in> set pending. ack_for a = (ns_subject s2, p)" using Cons.prems(3) s2 by auto
    then have ih: "grows accepted u w'" "pending_ok unacked'"
      "mset (map fst pending) + (mset (pb_entries b) + nats_taken accepted u s Device) \<subseteq>#
       mset (pb_entries unacked') + nats_taken accepted w' s Device"
      using Cons.IH [OF rest b] s2 by auto
    have "mset (map fst pending) + ({#p#} + (mset (pb_entries unacked) + nats_taken accepted w s Device)) \<subseteq>#
       mset (pb_entries unacked') + nats_taken accepted w' s Device"
      by (rule mset_chain [OF one ih(3)])
    then show ?thesis using grows_trans [OF g ih(1)] ih(2) pa by (simp add: ac_simps)
  qed
  show ?case
  proof (cases z)
    case (Inr u)
    have "accepted w (ns_subject s) + {#p#} \<subseteq># accepted w1 (ns_subject s)"
      using nats_lawfulD(5) [OF law _ for_p] z Inr by simp
    then have "{#p#} + nats_taken accepted w s Device \<subseteq># nats_taken accepted w1 s Device"
      by (rule nats_primary_accepts [OF g1])
    then have one: "{#p#} + (mset (pb_entries unacked) + nats_taken accepted w s Device) \<subseteq>#
        mset (pb_entries unacked) + nats_taken accepted w1 s Device"
      using subset_mset.add_left_mono by (metis add.left_commute)
    show ?thesis
      by (rule chain [OF _ _ Cons.prems(2) g1 one, of s e "ns_dlq_delivered s"])
        (use Cons.prems(1) pa z Inr in simp_all)
  next
    case (Inl x)
    obtain w2 s2 q where q: "quarantine lib w1 s p AckRejection = (w2, s2, q)"
      by (cases "quarantine lib w1 s p AckRejection") auto
    obtain n where n: "s2 = s\<lparr>ns_dlq_delivered := n\<rparr>" using quarantine_frame [OF q] by blast
    note g = grows_trans [OF g1 quarantine_law(1) [OF law q]]
    show ?thesis
    proof (cases q)
      case True
      have "{#p#} + nats_taken accepted w s Device \<subseteq># nats_taken accepted w2 s Device"
        using quarantine_law(2) [OF law q True] by (rule mset_chain [OF nats_taken_grows [OF g1]])
      then have one: "{#p#} + (mset (pb_entries unacked) + nats_taken accepted w s Device) \<subseteq>#
          mset (pb_entries unacked) + nats_taken accepted w2 s Device"
        using subset_mset.add_left_mono by (metis add.left_commute)
      show ?thesis
        by (rule chain [OF _ n Cons.prems(2) g one, of e]) (use Cons.prems(1) pa z Inl q True in \<open>simp add: Let_def\<close>)
    next
      case False
      define b where "b = pending_push unacked p"
      have b: "pending_ok b" using pending_ok_push [OF Cons.prems(2)] by (simp add: b_def push_record_def)
      have one: "{#p#} + (mset (pb_entries unacked) + nats_taken accepted w s Device) \<subseteq>#
          mset (pb_entries b) + nats_taken accepted w2 s Device"
        using nats_taken_grows [OF g, of s Device] by (simp add: b_def pending_push_def del: nats_taken.simps)
      show ?thesis
        by (rule chain [OF _ n b g one]) (use Cons.prems(1) pa z Inl q False in \<open>simp add: Let_def b_def\<close>)
    qed
  qed
qed simp

text \<open>A step of the device stream: it touches the device buffer, the deferred acknowledgements and the
  counters only, and loses nothing.\<close>

definition nats_device_step ::
  "('a \<Rightarrow> string \<times> bytes) \<Rightarrow> ('w \<Rightarrow> string \<Rightarrow> bytes multiset) \<Rightarrow> 'w \<Rightarrow> ('x, 'a) NatsSink \<Rightarrow> 'w \<Rightarrow> ('x, 'a) NatsSink \<Rightarrow> bool" where
  "nats_device_step ack_for accepted w s w' s' \<longleftrightarrow> grows accepted w w' \<and>
     (\<exists>b acks n. s' = s\<lparr>ns_buffer := b, ns_pending_acks := acks, ns_dlq_delivered := n\<rparr>) \<and> nats_invar ack_for s' \<and>
     nats_held s Device + nats_taken accepted w s Device \<subseteq># nats_held s' Device + nats_taken accepted w' s Device"

lemma nats_taken_frame [simp]:
  "nats_taken accepted u (s\<lparr>ns_buffer := b, ns_pending_acks := acks, ns_dlq_delivered := n\<rparr>) k = nats_taken accepted u s k"
  by (cases k) simp_all

lemma nats_device_step_refl: "nats_invar ack_for s \<Longrightarrow> nats_device_step ack_for accepted w s w s"
  unfolding nats_device_step_def
  by (intro conjI exI [of _ "ns_buffer s"] exI [of _ "ns_pending_acks s"] exI [of _ "ns_dlq_delivered s"]) simp_all

lemma nats_device_step_trans:
  assumes "nats_device_step ack_for accepted w s w1 s1" "nats_device_step ack_for accepted w1 s1 w2 s2"
  shows "nats_device_step ack_for accepted w s w2 s2"
proof -
  obtain b acks n where s1: "s1 = s\<lparr>ns_buffer := b, ns_pending_acks := acks, ns_dlq_delivered := n\<rparr>"
    using assms(1) by (auto simp: nats_device_step_def)
  have "\<exists>b acks n. s2 = s\<lparr>ns_buffer := b, ns_pending_acks := acks, ns_dlq_delivered := n\<rparr>"
    using assms(2) s1 by (auto simp: nats_device_step_def)
  moreover have "nats_taken accepted u s1 Device = nats_taken accepted u s Device" for u
    unfolding s1 by (rule nats_taken_frame)
  ultimately show ?thesis
    using assms unfolding nats_device_step_def by (auto intro: grows_trans subset_mset.trans)
qed

lemma drain_pending_acks_law:
  assumes law: "nats_lawful lib ack_for accepted" and inv: "nats_invar ack_for s"
    and run: "drain_pending_acks lib w s = (w', s', r)"
  shows "nats_device_step ack_for accepted w s w' s'" "ns_pending_acks s' = []"
proof -
  have "nats_device_step ack_for accepted w s w' s' \<and> ns_pending_acks s' = []"
  proof (cases "ns_pending_acks s = []")
    case True
    then show ?thesis using run nats_device_step_refl [OF inv] by (simp add: drain_pending_acks_def)
  next
    case False
    define s0 where "s0 = s\<lparr>ns_pending_acks := []\<rparr>"
    obtain s1 unacked e where loop: "drain_loop lib w s0 (ns_pending_acks s) pending_new None = (w', s1, unacked, e)"
      and s': "s' = s1\<lparr>ns_buffer := restore_front (ns_buffer s1) unacked\<rparr>"
      using run False by (auto simp: drain_pending_acks_def s0_def split: prod.splits)
    obtain n where s1: "s1 = s0\<lparr>ns_dlq_delivered := n\<rparr>" using drain_loop_frame [OF loop] by blast
    have "\<forall>(p, a) \<in> set (ns_pending_acks s). ack_for a = (ns_subject s0, p)"
      using inv by (auto simp: nats_invar_def s0_def)
    then have g: "grows accepted w w'" and un: "pending_ok unacked"
      and kept: "mset (map fst (ns_pending_acks s)) + nats_taken accepted w s Device \<subseteq># mset (pb_entries unacked) + nats_taken accepted w' s Device"
      using drain_loop_law [OF law loop pending_ok_new] by (simp_all add: s0_def)
    have frame: "s' = s\<lparr>ns_buffer := restore_front (ns_buffer s) unacked, ns_pending_acks := [], ns_dlq_delivered := n\<rparr>"
      by (simp add: s' s1 s0_def)
    have "nats_held s Device + nats_taken accepted w s Device \<subseteq># nats_held s' Device + nats_taken accepted w' s Device"
      using mset_chain [OF kept, of "mset (pb_entries (ns_buffer s))"] subset_mset.order_refl
      by (simp add: frame ac_simps del: nats_taken.simps)
    moreover have "nats_invar ack_for s'"
      using inv pending_ok_restore_front [OF _ un] by (simp add: frame nats_invar_def)
    ultimately show ?thesis using g frame unfolding nats_device_step_def by auto
  qed
  then show "nats_device_step ack_for accepted w s w' s'" "ns_pending_acks s' = []" by blast+
qed

lemma publish_turn_law:
  assumes law: "nats_lawful lib ack_for accepted" and inv: "nats_invar ack_for s"
    and front: "pending_front (ns_buffer s) = Some payload"
    and run: "publish_turn lib w s payload = (w', s', e)"
  shows "nats_device_step ack_for accepted w s w' s'"
proof -
  obtain rest where rest: "pb_entries (ns_buffer s) = payload # rest" using front by (auto simp: pending_front_Some)
  obtain w1 p where p: "publish_retried lib (ns_retry s) (ns_ctx s) (ns_servers s) (ns_subject s) payload w = (w1, p)"
    by fastforce
  note g1 = publish_retried_law(1) [OF law p]
  have ok: "pending_ok (ns_buffer s)" using inv by (simp add: nats_invar_def)
  show ?thesis
  proof (cases p)
    case (Inr ack)
    define b1 where "b1 = fst (settle_front (ns_buffer s) p)"
    define s2 where "s2 = s\<lparr>ns_buffer := b1, ns_pending_acks := ns_pending_acks s @ [(payload, ack)]\<rparr>"
    have b1: "settle_front (ns_buffer s) p = (b1, Inr ack)" "pb_entries b1 = rest" "pending_ok b1"
      using pending_ok_settle_front [OF ok, of p b1 p] Inr rest by (simp_all add: b1_def settle_front_def)
    have "nats_invar ack_for s2"
      using inv b1(3) publish_retried_law(2) [OF law p Inr] by (auto simp: nats_invar_def s2_def)
    then have step: "nats_device_step ack_for accepted w s w1 s2"
      using g1 nats_taken_grows [OF g1, of s Device] rest b1(2) unfolding nats_device_step_def
      by (intro conjI exI [of _ b1] exI [of _ "ns_pending_acks s @ [(payload, ack)]"] exI [of _ "ns_dlq_delivered s"])
        (simp_all add: s2_def ac_simps del: nats_taken.simps)
    show ?thesis
      using run p b1(1) step drain_pending_acks_law(1) [OF law \<open>nats_invar ack_for s2\<close>] nats_device_step_trans [OF step]
      by (auto simp: publish_turn_def s2_def Let_def split: if_splits prod.splits)
  next
    case (Inl x)
    obtain w2 s2 q where q: "quarantine lib w1 s payload PublishFailure = (w2, s2, q)"
      by (cases "quarantine lib w1 s payload PublishFailure") auto
    obtain n where n: "s2 = s\<lparr>ns_dlq_delivered := n\<rparr>" using quarantine_frame [OF q] by blast
    note g2 = quarantine_law(1) [OF law q]
    define b2 where "b2 = fst (settle_front (ns_buffer s) (if q then Inr () else Inl x))"
    have res: "w' = w2" "s' = s\<lparr>ns_buffer := b2, ns_dlq_delivered := n\<rparr>"
      using run p Inl q n by (auto simp: publish_turn_def b2_def Let_def split: prod.splits)
    have b2: "pending_ok b2" using pending_ok_settle_front [OF ok] unfolding b2_def by (metis prod.collapse)
    have "nats_held s Device + nats_taken accepted w s Device \<subseteq># nats_held s' Device + nats_taken accepted w2 s Device"
    proof (cases q)
      case True
      have "{#payload#} + nats_taken accepted w s Device \<subseteq># nats_taken accepted w2 s Device"
        using quarantine_law(2) [OF law q True] by (rule mset_chain [OF nats_taken_grows [OF g1]])
      from subset_mset.add_left_mono [OF this, of "mset rest + mset (map fst (ns_pending_acks s))"] show ?thesis
        using True rest by (simp add: res b2_def ac_simps del: nats_taken.simps)
    qed (use nats_taken_grows [OF grows_trans [OF g1 g2], of s Device] in \<open>simp add: res b2_def del: nats_taken.simps\<close>)
    then show ?thesis
      using grows_trans [OF g1 g2] inv b2 res unfolding nats_device_step_def
      by (intro conjI exI [of _ b2] exI [of _ "ns_pending_acks s"] exI [of _ n]) (auto simp: nats_invar_def)
  qed
qed

lemma nats_publish_loop_law:
  assumes law: "nats_lawful lib ack_for accepted"
  shows "nats_invar ack_for s \<Longrightarrow> nats_publish_loop lib w s = (w', s', r) \<Longrightarrow>
    nats_device_step ack_for accepted w s w' s' \<and> (r = Inr () \<longrightarrow> pb_entries (ns_buffer s') = [])"
proof (induction "length (pb_entries (ns_buffer s))" arbitrary: w s rule: less_induct)
  case less
  show ?case
  proof (cases "pending_front (ns_buffer s)")
    case None
    then have "nats_publish_loop lib w s = (w, s, Inr ())"
      by (subst nats_publish_loop.simps) (simp del: pending_front_None)
    then show ?thesis
      using less.prems(2) None nats_device_step_refl [OF less.prems(1)] by auto
  next
    case (Some payload)
    obtain w1 s1 e where turn: "publish_turn lib w s payload = (w1, s1, e)"
      by (cases "publish_turn lib w s payload") auto
    note step = publish_turn_law [OF law less.prems(1) Some turn]
    show ?thesis
    proof (cases e)
      case None
      have "nats_publish_loop lib w1 s1 = (w', s', r)"
        using less.prems(2) Some turn None by (simp add: nats_publish_loop.simps [of lib w s])
      moreover have "length (pb_entries (ns_buffer s1)) < length (pb_entries (ns_buffer s))"
        using publish_turn_shrinks [OF _ Some] turn None by simp
      moreover have "nats_invar ack_for s1" using step by (simp add: nats_device_step_def)
      ultimately have "nats_device_step ack_for accepted w1 s1 w' s' \<and> (r = Inr () \<longrightarrow> pb_entries (ns_buffer s') = [])"
        using less.hyps [of s1 w1] by simp
      then show ?thesis using nats_device_step_trans [OF step] by simp
    next
      case (Some x)
      then show ?thesis
        using less.prems(2) \<open>pending_front (ns_buffer s) = Some payload\<close> turn step
        by (auto simp: nats_publish_loop.simps [of lib w s])
    qed
  qed
qed

lemma nats_publish_buffer_law:
  assumes "nats_lawful lib ack_for accepted" "nats_invar ack_for s" "nats_publish_buffer lib w s = (w', s', r)"
  shows "nats_device_step ack_for accepted w s w' s' \<and> (r = Inr () \<longrightarrow> pb_entries (ns_buffer s') = [])"
  using assms(3) nats_publish_loop_law [OF assms(1,2)] nats_device_step_refl [OF assms(2)]
  by (auto simp: nats_publish_buffer_def pending_is_empty_def split: if_splits)

lemma publish_and_drain_law:
  assumes law: "nats_lawful lib ack_for accepted" and inv: "nats_invar ack_for s"
    and run: "publish_and_drain lib w s = (w', s', r)"
  shows "nats_device_step ack_for accepted w s w' s' \<and> ns_pending_acks s' = [] \<and>
    (r = Inr () \<longrightarrow> nats_held s' Device = {#})"
proof -
  obtain w1 s1 p where p: "nats_publish_buffer lib w s = (w1, s1, p)" by (cases "nats_publish_buffer lib w s") auto
  obtain w2 s2 d where d: "drain_pending_acks lib w1 s1 = (w2, s2, d)" by (cases "drain_pending_acks lib w1 s1") auto
  note step1 = nats_publish_buffer_law [OF law inv p]
  have inv1: "nats_invar ack_for s1" using step1 by (simp add: nats_device_step_def)
  note step2 = drain_pending_acks_law [OF law inv1 d]
  have res: "w' = w2" "s' = s2" "r = Inr () \<Longrightarrow> p = Inr () \<and> d = Inr ()"
    using run p d by (auto simp: publish_and_drain_def split: option.splits)
  have "ns_buffer s2 = ns_buffer s1" if "d = Inr ()"
    using drain_pending_acks_ok [of lib w1 s1 w2 s2] d that by simp
  then show ?thesis
    using step1 step2(2) nats_device_step_trans [OF _ step2(1)] res by auto
qed

text \<open>A second stream.\<close>

lemma publish_stream_buffer_law:
  assumes law: "nats_lawful lib ack_for accepted"
  shows "pending_ok b \<Longrightarrow> publish_stream_buffer lib ctx retry servers subject w b = (w', b', r) \<Longrightarrow>
    grows accepted w w' \<and> pending_ok b' \<and> (r = Inr () \<longrightarrow> pb_entries b' = []) \<and>
    mset (pb_entries b) + accepted w subject \<subseteq># mset (pb_entries b') + accepted w' subject"
proof (induction "length (pb_entries b)" arbitrary: w b rule: less_induct)
  case less
  show ?case
  proof (cases "pending_front b")
    case None
    then have "publish_stream_buffer lib ctx retry servers subject w b = (w, b, Inr ())"
      by (subst publish_stream_buffer.simps) (simp del: pending_front_None)
    then show ?thesis using less.prems None by auto
  next
    case (Some payload)
    then obtain rest where rest: "pb_entries b = payload # rest" by (auto simp: pending_front_Some)
    obtain w1 p where p: "publish_retried lib retry ctx servers subject payload w = (w1, p)" by fastforce
    note g1 = publish_retried_law(1) [OF law p]
    note unfolded = publish_stream_buffer.simps [of lib ctx retry servers subject w b]
    show ?thesis
    proof (cases p)
      case (Inl e)
      then show ?thesis using less.prems Some p g1 by (auto simp: unfolded intro: growsD)
    next
      case (Inr ack)
      obtain w2 z where z: "nl_await lib w1 ack = (w2, z)" by fastforce
      note g = grows_trans [OF g1 nats_lawfulD(2) [OF law z]]
      show ?thesis
      proof (cases z)
        case (Inl e)
        then show ?thesis using less.prems Some p Inr z g by (auto simp: unfolded intro: growsD)
      next
        case stored: (Inr u)
        define b1 where "b1 = fst (settle_front b (Inr () :: string + unit))"
        have b1: "pb_entries b1 = rest" "pending_ok b1"
          using pending_ok_settle_front [OF less.prems(1), of "Inr () :: string + unit" b1] rest
          by (simp_all add: b1_def settle_front_def)
        have "publish_stream_buffer lib ctx retry servers subject w2 b1 = (w', b', r)"
          using less.prems(2) Some p Inr z stored by (simp add: unfolded b1_def)
        then have ih: "grows accepted w2 w'" "pending_ok b'" "r = Inr () \<longrightarrow> pb_entries b' = []"
          "mset rest + accepted w2 subject \<subseteq># mset (pb_entries b') + accepted w' subject"
          using less.hyps [of b1 w2] b1 rest by auto
        have "accepted w1 subject + {#payload#} \<subseteq># accepted w2 subject"
          using nats_lawfulD(5) [OF law _ publish_retried_law(2) [OF law p Inr]] z stored by simp
        then have "{#payload#} + accepted w subject \<subseteq># accepted w2 subject"
          using mset_chain [OF growsD [OF g1], of "{#payload#}"] by (simp add: ac_simps)
        from mset_chain [OF this ih(4)] show ?thesis
          using ih(1,2,3) grows_trans [OF g] rest by (simp add: ac_simps)
      qed
    qed
  qed
qed

section \<open>The sink meets the contract\<close>

fun nats_push :: "RecordKind \<Rightarrow> bytes \<Rightarrow> ('x, 'a) NatsSink \<Rightarrow> ('x, 'a) NatsSink" where
  "nats_push Device d s = s\<lparr>ns_last_write_delivered := False, ns_buffer := push_record (ns_buffer s) d\<rparr>"
| "nats_push Link d s = s\<lparr>ns_last_write_delivered := False, ns_links_buffer := push_record (ns_links_buffer s) d\<rparr>"
| "nats_push CollectionProfile d s =
     s\<lparr>ns_last_write_delivered := False, ns_profiles_buffer := push_record (ns_profiles_buffer s) d\<rparr>"

lemma nats_kinds: "(\<forall>j. P j) \<longleftrightarrow> P Device \<and> P Link \<and> P CollectionProfile"
  by (metis RecordKind.exhaust)

definition nats_step ::
  "('a \<Rightarrow> string \<times> bytes) \<Rightarrow> ('w \<Rightarrow> string \<Rightarrow> bytes multiset) \<Rightarrow> RecordKind \<Rightarrow> 'w \<Rightarrow> ('x, 'a) NatsSink \<Rightarrow> 'w \<Rightarrow> ('x, 'a) NatsSink \<Rightarrow> bool" where
  "nats_step ack_for accepted k w s w' s' \<longleftrightarrow>
     nats_invar ack_for s' \<and> (\<forall>u j. nats_taken accepted u s' j = nats_taken accepted u s j) \<and>
     ns_last_write_delivered s' = ns_last_write_delivered s \<and> (\<forall>j. j \<noteq> k \<longrightarrow> nats_held s' j = nats_held s j) \<and>
     (\<forall>j. nats_held s j + nats_taken accepted w s j \<subseteq># nats_held s' j + nats_taken accepted w' s j)"

lemma nats_stepD:
  assumes "nats_step ack_for accepted k w s w' s'"
  shows "nats_taken accepted u s' j = nats_taken accepted u s j"
    "nats_held s j + nats_taken accepted w s j \<subseteq># nats_held s' j + nats_taken accepted w' s j"
  using assms unfolding nats_step_def by blast+

lemma nats_device_step_step:
  assumes "nats_device_step ack_for accepted w s w' s'"
  shows "nats_step ack_for accepted Device w s w' s'"
proof -
  obtain b acks n where s': "s' = s\<lparr>ns_buffer := b, ns_pending_acks := acks, ns_dlq_delivered := n\<rparr>"
    and rest: "grows accepted w w'" "nats_invar ack_for s'"
      "nats_held s Device + nats_taken accepted w s Device \<subseteq># nats_held s' Device + nats_taken accepted w' s Device"
    using assms by (auto simp: nats_device_step_def)
  have taken: "nats_taken accepted u s' j = nats_taken accepted u s j" for u j unfolding s' by (rule nats_taken_frame)
  have held: "nats_held s' Link = nats_held s Link" "nats_held s' CollectionProfile = nats_held s CollectionProfile"
    by (simp_all add: s')
  show ?thesis
    using rest(2,3) nats_taken_grows [OF rest(1)] taken held s' unfolding nats_step_def nats_kinds
    by (auto simp del: nats_taken.simps nats_held.simps)
qed

lemma nats_links_step:
  assumes law: "nats_lawful lib ack_for accepted" and inv: "nats_invar ack_for s"
    and run: "nats_publish_links_buffer lib w s = (w', s', r)"
  shows "nats_step ack_for accepted Link w s w' s' \<and> (r = Inr () \<longrightarrow> nats_held s' Link = {#})"
proof -
  obtain b where b: "publish_stream_buffer lib (ns_ctx s) (ns_retry s) (ns_servers s) (ns_links_subject s) w (ns_links_buffer s) = (w', b, r)"
    and s': "s' = s\<lparr>ns_links_buffer := b\<rparr>"
    using run by (auto simp: nats_publish_links_buffer_def split: prod.splits)
  have ok: "pending_ok (ns_links_buffer s)" using inv by (simp add: nats_invar_def)
  note stream = publish_stream_buffer_law [OF law ok b]
  show ?thesis
    using stream inv nats_taken_grows [OF conjunct1 [OF stream], of s Device] growsD [OF conjunct1 [OF stream]]
    unfolding nats_step_def nats_kinds
    by (auto simp: s' nats_invar_def)
qed

lemma nats_profiles_step:
  assumes law: "nats_lawful lib ack_for accepted" and inv: "nats_invar ack_for s"
    and run: "nats_publish_profiles_buffer lib w s = (w', s', r)"
  shows "nats_step ack_for accepted CollectionProfile w s w' s' \<and> (r = Inr () \<longrightarrow> nats_held s' CollectionProfile = {#})"
proof -
  obtain b where b: "publish_stream_buffer lib (ns_ctx s) (ns_retry s) (ns_servers s) (ns_profiles_subject s) w (ns_profiles_buffer s) = (w', b, r)"
    and s': "s' = s\<lparr>ns_profiles_buffer := b\<rparr>"
    using run by (auto simp: nats_publish_profiles_buffer_def split: prod.splits)
  have ok: "pending_ok (ns_profiles_buffer s)" using inv by (simp add: nats_invar_def)
  note stream = publish_stream_buffer_law [OF law ok b]
  show ?thesis
    using stream inv nats_taken_grows [OF conjunct1 [OF stream], of s Device] growsD [OF conjunct1 [OF stream]]
    unfolding nats_step_def nats_kinds
    by (auto simp: s' nats_invar_def)
qed

lemma nats_push_simps:
  "nats_invar ack_for s \<Longrightarrow> nats_invar ack_for (nats_push k d s)"
  "nats_held (nats_push k d s) j = (if j = k then {#d#} else {#}) + nats_held s j"
  "nats_taken accepted u (nats_push k d s) j = nats_taken accepted u s j"
  "\<not> ns_last_write_delivered (nats_push k d s)"
  by (cases k; cases j; auto simp: nats_invar_def)+

lemma nats_delivered_simps [simp]:
  "nats_invar ack_for (s\<lparr>ns_last_write_delivered := x\<rparr>) = nats_invar ack_for s"
  "nats_held (s\<lparr>ns_last_write_delivered := x\<rparr>) j = nats_held s j"
  "nats_taken accepted u (s\<lparr>ns_last_write_delivered := x\<rparr>) j = nats_taken accepted u s j"
  by (cases j; simp add: nats_invar_def)+

text \<open>After the push a write keeps the record, or publishes its stream and says so only when nothing of the
  stream is left behind.\<close>

lemma nats_write_kind_cases:
  assumes law: "nats_lawful lib ack_for accepted" and inv: "nats_invar ack_for s"
    and run: "nats_write_kind lib k d w s = (w', s', r)"
  obtains (kept) "w' = w" "s' = nats_push k d s"
  | (published) s2 x where "nats_step ack_for accepted k w (nats_push k d s) w' s2"
      "s' = s2\<lparr>ns_last_write_delivered := x\<rparr>" "x \<Longrightarrow> nats_held s2 k = {#}"
proof -
  note pushed = nats_push_simps(1) [OF inv, of k d]
  show thesis
  proof (cases k)
    case Device
    let ?p = "nats_push k d s"
    consider "w' = w" "s' = ?p" | s2 where "publish_and_drain lib w ?p = (w', s2, Inr ())" "s' = s2\<lparr>ns_last_write_delivered := True\<rparr>"
      | e where "publish_and_drain lib w ?p = (w', s', Inl e)" | "nats_publish_buffer lib w ?p = (w', s', r)"
      using run Device by (auto simp: nats_write_def Let_def split: if_splits prod.splits sum.splits)
    then show thesis
    proof cases
      case 1
      then show ?thesis by (rule kept)
    next
      case 2
      then show ?thesis using publish_and_drain_law [OF law pushed] Device
        by (intro published [of s2 True]) (simp_all add: nats_device_step_step)
    next
      case 3
      then have "nats_step ack_for accepted k w ?p w' s'"
        using nats_device_step_step [OF conjunct1 [OF publish_and_drain_law [OF law pushed]]] Device by simp
      then show ?thesis using nats_push_simps(4) [of k d s]
        by (intro published [of s' False]) (auto simp: nats_step_def)
    next
      case 4
      then have "nats_step ack_for accepted k w ?p w' s'"
        using nats_device_step_step [OF conjunct1 [OF nats_publish_buffer_law [OF law pushed]]] Device by simp
      then show ?thesis using nats_push_simps(4) [of k d s]
        by (intro published [of s' False]) (auto simp: nats_step_def)
    qed
  next
    case Link
    let ?p = "nats_push k d s"
    consider "w' = w" "s' = ?p" | s2 where "nats_publish_links_buffer lib w ?p = (w', s2, Inr ())" "s' = s2\<lparr>ns_last_write_delivered := True\<rparr>"
      | e where "nats_publish_links_buffer lib w ?p = (w', s', Inl e)"
      using run Link by (auto simp: nats_write_link_def Let_def split: if_splits prod.splits sum.splits)
    then show thesis
    proof cases
      case 1
      then show ?thesis by (rule kept)
    next
      case 2
      then show ?thesis using nats_links_step [OF law pushed] Link by (intro published [of s2 True]) auto
    next
      case 3
      then show ?thesis using nats_links_step [OF law pushed] Link nats_push_simps(4) [of k d s]
        by (intro published [of s' False]) (auto simp: nats_step_def)
    qed
  next
    case CollectionProfile
    let ?p = "nats_push k d s"
    consider "w' = w" "s' = ?p" | s2 where "nats_publish_profiles_buffer lib w ?p = (w', s2, Inr ())" "s' = s2\<lparr>ns_last_write_delivered := True\<rparr>"
      | e where "nats_publish_profiles_buffer lib w ?p = (w', s', Inl e)"
      using run CollectionProfile by (auto simp: nats_write_profile_def Let_def split: if_splits prod.splits sum.splits)
    then show thesis
    proof cases
      case 1
      then show ?thesis by (rule kept)
    next
      case 2
      then show ?thesis using nats_profiles_step [OF law pushed] CollectionProfile by (intro published [of s2 True]) auto
    next
      case 3
      then show ?thesis using nats_profiles_step [OF law pushed] CollectionProfile nats_push_simps(4) [of k d s]
        by (intro published [of s' False]) (auto simp: nats_step_def)
    qed
  qed
qed

lemma nats_write_law:
  assumes law: "nats_lawful lib ack_for accepted" and inv: "nats_invar ack_for s"
    and run: "nats_write_kind lib k d w s = (w', s', r)"
  shows "nats_invar ack_for s'"
    "(if j = k then {#d#} else {#}) + (nats_held s j + nats_taken accepted w s j) \<subseteq># nats_held s' j + nats_taken accepted w' s' j"
    "nats_last_write_delivered s' \<Longrightarrow> nats_held s' k = {#}"
proof -
  note push = nats_push_simps [where k = k and d = d and s = s]
  have pushed: "(if j = k then {#d#} else {#}) + (nats_held s j + nats_taken accepted w s j) =
      nats_held (nats_push k d s) j + nats_taken accepted w (nats_push k d s) j" for j
    by (simp add: push(2,3) ac_simps)
  have "nats_invar ack_for s' \<and>
      (\<forall>j. nats_held (nats_push k d s) j + nats_taken accepted w (nats_push k d s) j \<subseteq># nats_held s' j + nats_taken accepted w' s' j) \<and>
      (nats_last_write_delivered s' \<longrightarrow> nats_held s' k = {#})"
    using law inv run
  proof (cases rule: nats_write_kind_cases)
    case kept
    then show ?thesis using push(1) [OF inv] push(4) by (auto simp: nats_last_write_delivered_def)
  next
    case (published s2 x)
    then show ?thesis by (auto simp: nats_step_def nats_last_write_delivered_def)
  qed
  then show "nats_invar ack_for s'" "nats_last_write_delivered s' \<Longrightarrow> nats_held s' k = {#}"
    "(if j = k then {#d#} else {#}) + (nats_held s j + nats_taken accepted w s j) \<subseteq># nats_held s' j + nats_taken accepted w' s' j"
    unfolding pushed by blast+
qed

lemma nats_flush_law:
  assumes law: "nats_lawful lib ack_for accepted" and inv: "nats_invar ack_for s"
    and run: "nats_flush lib w s = (w', s', r)"
  shows "nats_invar ack_for s'"
    "nats_held s j + nats_taken accepted w s j \<subseteq># nats_held s' j + nats_taken accepted w' s' j"
    "r = Inr () \<Longrightarrow> nats_held s' j = {#} \<and> nats_last_write_delivered s'"
proof -
  obtain w1 s1 a w2 s2 b w3 s3 c where steps: "publish_and_drain lib w s = (w1, s1, a)"
    "nats_publish_links_buffer lib w1 s1 = (w2, s2, b)" "nats_publish_profiles_buffer lib w2 s2 = (w3, s3, c)"
    by (metis prod_cases3)
  have fin: "w' = w3" "s' = s3\<lparr>ns_last_write_delivered := (r = Inr ())\<rparr>"
    "r = Inr () \<Longrightarrow> a = Inr () \<and> b = Inr () \<and> c = Inr ()"
    using run steps by (auto simp: nats_flush_def Let_def split: option.splits)
  note p1 = publish_and_drain_law [OF law inv steps(1)]
  have step1: "nats_step ack_for accepted Device w s w1 s1" by (rule nats_device_step_step [OF conjunct1 [OF p1]])
  have inv1: "nats_invar ack_for s1" using step1 by (simp add: nats_step_def)
  note p2 = nats_links_step [OF law inv1 steps(2)]
  have inv2: "nats_invar ack_for s2" using p2 by (simp add: nats_step_def)
  note p3 = nats_profiles_step [OF law inv2 steps(3)]
  show "nats_invar ack_for s'" using p3 fin(2) by (simp add: nats_step_def)
  have t1: "nats_taken accepted u s1 j = nats_taken accepted u s j" for u by (rule nats_stepD(1) [OF step1])
  have t2: "nats_taken accepted u s2 j = nats_taken accepted u s j" for u
    using nats_stepD(1) [OF conjunct1 [OF p2]] by (simp only: t1)
  have t3: "nats_taken accepted u s3 j = nats_taken accepted u s j" for u
    using nats_stepD(1) [OF conjunct1 [OF p3]] by (simp only: t2)
  have "nats_held s j + nats_taken accepted w s j \<subseteq># nats_held s1 j + nats_taken accepted w1 s j"
    by (rule nats_stepD(2) [OF step1])
  also have "nats_held s1 j + nats_taken accepted w1 s j \<subseteq># nats_held s2 j + nats_taken accepted w2 s j"
    using nats_stepD(2) [OF conjunct1 [OF p2], of j] by (simp only: t1)
  also have "nats_held s2 j + nats_taken accepted w2 s j \<subseteq># nats_held s3 j + nats_taken accepted w3 s j"
    using nats_stepD(2) [OF conjunct1 [OF p3], of j] by (simp only: t2)
  finally show "nats_held s j + nats_taken accepted w s j \<subseteq># nats_held s' j + nats_taken accepted w' s' j"
    by (simp only: fin(1,2) nats_delivered_simps t3)
  show "nats_held s' j = {#} \<and> nats_last_write_delivered s'" if "r = Inr ()"
  proof -
    have empty: "nats_held s1 Device = {#}" "nats_held s2 Link = {#}" "nats_held s3 CollectionProfile = {#}"
      using that fin(3) p1 p2 p3 by blast+
    then have all: "nats_held s3 j = {#}" for j
      using p2 p3 by (cases j) (auto simp: nats_step_def simp del: nats_held.simps)
    show ?thesis using that fin(2) all [of j] all [of Device] by (simp add: nats_last_write_delivered_def)
  qed
qed

interpretation nats: at_least_once "nats_lawful lib ack_for accepted" "nats_invar ack_for"
  "nats_write_kind lib" "nats_flush lib" nats_last_write_delivered nats_held "nats_taken accepted"
  for lib :: "('w, 'x, 'a, 'f) NatsLib" and ack_for accepted
  by unfold_locales
    (erule (2) nats_write_law(1), erule (2) nats_write_law(2), erule (3) nats_write_law(3),
     erule (2) nats_flush_law(1), erule (2) nats_flush_law(2), erule (2) nats_flush_law(3), rule refl)

end
