(* ===== verification/Sinks.thy ===== *)
theory Sinks
  imports Sink_Kafka Sink_Nats
begin

text \<open>
  The local sinks (\<^verbatim>\<open>sink/stdout.rs\<close>, \<^verbatim>\<open>sink/file.rs\<close>, \<^verbatim>\<open>sink/memory.rs\<close>), the fan-out sink
  (\<^verbatim>\<open>sink/tee.rs\<close>), the sink configuration, its offline validation and the construction of a sink from it
  (\<^verbatim>\<open>sink/mod.rs\<close>). The buffered writers of tokio and the file system are the fields of \<^verbatim>\<open>IoLib\<close>.

  A fan-out child is owned or shared; a shared child lives in a cell of the world, so that two fan-out sinks
  may name the same one.
\<close>

section \<open>Stdout and file\<close>

record ('w, 'f) IoLib =
  io_stdout :: "'f"
  io_open_append :: "'w \<Rightarrow> string \<Rightarrow> 'w \<times> (string + 'f)"
  io_write_all :: "'w \<Rightarrow> 'f \<Rightarrow> bytes \<Rightarrow> 'w \<times> (string + unit)"
  io_flush :: "'w \<Rightarrow> 'f \<Rightarrow> 'w \<times> (string + unit)"

record 'f StdoutSink =
  so_writer :: 'f
  so_delivered :: bool

definition stdout_new :: "('w, 'f) IoLib \<Rightarrow> 'f StdoutSink" where
  "stdout_new io = \<lparr>so_writer = io_stdout io, so_delivered = False\<rparr>"

definition stdout_write_error :: "string \<Rightarrow> RastreoError" where
  "stdout_write_error e = ESink (sink_error_new WriteFailure (''failed to write to stdout sink: '' @ e))"

definition stdout_flush_error :: "string \<Rightarrow> RastreoError" where
  "stdout_flush_error e = ESink (sink_error_new FlushFailure (''failed to flush stdout sink: '' @ e))"

definition stdout_write :: "('w, 'f) IoLib \<Rightarrow> bytes \<Rightarrow> ('w, 'f StdoutSink) sink_call" where
  "stdout_write io data w s = (let s1 = s\<lparr>so_delivered := False\<rparr> in
     case io_write_all io w (so_writer s1) data of
       (w1, Inl e) \<Rightarrow> (w1, s1, Inl (stdout_write_error e)) | (w1, Inr _) \<Rightarrow> (w1, s1, Inr ()))"

definition stdout_flush :: "('w, 'f) IoLib \<Rightarrow> ('w, 'f StdoutSink) sink_call" where
  "stdout_flush io w s = (case io_flush io w (so_writer s) of
     (w1, Inl e) \<Rightarrow> (w1, s, Inl (stdout_flush_error e)) | (w1, Inr _) \<Rightarrow> (w1, s\<lparr>so_delivered := True\<rparr>, Inr ()))"

definition stdout_vtable :: "('w, 'f) IoLib \<Rightarrow> ('w, 'f StdoutSink) Sink" where
  "stdout_vtable io = sink_defaults (stdout_write io) (stdout_flush io) so_delivered StdoutType"

record 'f FileSink =
  fi_writer :: 'f
  fi_delivered :: bool

definition file_open_error :: "string \<Rightarrow> string \<Rightarrow> RastreoError" where
  "file_open_error path e = ESink (sink_error_other (''failed to open file sink at '' @ path @ '': '' @ e))"

definition file_write_error :: "string \<Rightarrow> RastreoError" where
  "file_write_error e = ESink (sink_error_new WriteFailure (''failed to write to file sink: '' @ e))"

definition file_flush_error :: "string \<Rightarrow> RastreoError" where
  "file_flush_error e = ESink (sink_error_new FlushFailure (''failed to flush file sink: '' @ e))"

definition file_new :: "('w, 'f) IoLib \<Rightarrow> 'w \<Rightarrow> string \<Rightarrow> 'w \<times> 'f FileSink result" where
  "file_new io w path = (case io_open_append io w path of
     (w1, Inl e) \<Rightarrow> (w1, Inl (file_open_error path e))
   | (w1, Inr f) \<Rightarrow> (w1, Inr \<lparr>fi_writer = f, fi_delivered = False\<rparr>))"

definition file_write :: "('w, 'f) IoLib \<Rightarrow> bytes \<Rightarrow> ('w, 'f FileSink) sink_call" where
  "file_write io data w s = (let s1 = s\<lparr>fi_delivered := False\<rparr> in
     case io_write_all io w (fi_writer s1) data of
       (w1, Inl e) \<Rightarrow> (w1, s1, Inl (file_write_error e)) | (w1, Inr _) \<Rightarrow> (w1, s1, Inr ()))"

definition file_flush :: "('w, 'f) IoLib \<Rightarrow> ('w, 'f FileSink) sink_call" where
  "file_flush io w s = (case io_flush io w (fi_writer s) of
     (w1, Inl e) \<Rightarrow> (w1, s, Inl (file_flush_error e)) | (w1, Inr _) \<Rightarrow> (w1, s\<lparr>fi_delivered := True\<rparr>, Inr ()))"

definition file_vtable :: "('w, 'f) IoLib \<Rightarrow> ('w, 'f FileSink) Sink" where
  "file_vtable io = sink_defaults (file_write io) (file_flush io) fi_delivered FileType"

section \<open>Memory\<close>

text \<open>The handle of a memory sink reads the same fields as the sink.\<close>

record MemorySink =
  mem_buffer :: bytes
  mem_delivered :: bool
  mem_truncated :: bool
  mem_max_bytes :: "nat option"

definition memory_new :: MemorySink where
  "memory_new = \<lparr>mem_buffer = [], mem_delivered = False, mem_truncated = False, mem_max_bytes = None\<rparr>"

definition memory_with_max_bytes :: "nat \<Rightarrow> MemorySink" where
  "memory_with_max_bytes max_bytes = memory_new\<lparr>mem_max_bytes := Some max_bytes\<rparr>"

definition memory_write :: "bytes \<Rightarrow> ('w, MemorySink) sink_call" where
  "memory_write data w s =
     (if (case mem_max_bytes s of Some cap \<Rightarrow> length (mem_buffer s) + length data > cap | None \<Rightarrow> False)
      then (w, s\<lparr>mem_truncated := True, mem_delivered := False\<rparr>, Inr ())
      else (w, s\<lparr>mem_buffer := mem_buffer s @ data, mem_delivered := True\<rparr>, Inr ()))"

definition memory_flush :: "('w, MemorySink) sink_call" where
  "memory_flush w s = (w, s, Inr ())"

definition memory_vtable :: "('w, MemorySink) Sink" where
  "memory_vtable = sink_defaults memory_write memory_flush mem_delivered MemoryType"

section \<open>Fan-out\<close>

datatype 's TeeChild = Owned 's | Shared nat

record 's TeeSink =
  tee_children :: "'s TeeChild list"
  tee_last_delivered :: bool
  tee_attribution :: attribution

definition tee_new :: "'s TeeChild list \<Rightarrow> 's TeeSink" where
  "tee_new children = \<lparr>tee_children = children, tee_last_delivered = False, tee_attribution = []\<rparr>"

record ChildAttribution =
  ca_kind :: SinkType
  ca_deltas :: class_counts
  ca_delivered :: bool

datatype Fanout = FanWrite bytes | FanWriteKind RecordKind bytes | FanFlush | FanClose

fun aborts_on_child_error :: "Fanout \<Rightarrow> bool" where
  "aborts_on_child_error (FanWrite _) = True"
| "aborts_on_child_error (FanWriteKind _ _) = True"
| "aborts_on_child_error FanFlush = False"
| "aborts_on_child_error FanClose = False"

definition class_deltas :: "class_counts \<Rightarrow> class_counts \<Rightarrow> class_counts" where
  "class_deltas before after = map (\<lambda>i. saturating_sub (after ! i) (before ! i)) [0..<6]"

fun credit_one :: "attribution \<Rightarrow> SinkType \<Rightarrow> SinkErrorClass \<Rightarrow> u64 \<Rightarrow> attribution" where
  "credit_one [] kind c delta = [(kind, c, delta)]"
| "credit_one ((k, c', n) # rest) kind c delta =
     (if k = kind \<and> c' = c then (k, c', saturating_add n delta) # rest else (k, c', n) # credit_one rest kind c delta)"

definition credit_attribution :: "attribution \<Rightarrow> SinkType \<Rightarrow> class_counts \<Rightarrow> attribution" where
  "credit_attribution bucket kind deltas =
     foldl (\<lambda>b c. let delta = deltas ! sink_error_class_index c in if delta = 0 then b else credit_one b kind c delta)
       bucket sink_error_class_all"

fun fan_call :: "('w, 's) Sink \<Rightarrow> Fanout \<Rightarrow> ('w, 's) sink_call" where
  "fan_call ops (FanWrite data) = sk_write ops data"
| "fan_call ops (FanWriteKind kind data) = sk_write_kind ops kind data"
| "fan_call ops FanFlush = sk_flush ops"
| "fan_call ops FanClose = sk_close ops"

definition fanout_sink ::
  "('w, 's) Sink \<Rightarrow> 'w \<Rightarrow> 's \<Rightarrow> Fanout \<Rightarrow> 'w \<times> 's \<times> ChildAttribution \<times> RastreoError option" where
  "fanout_sink ops w sink call =
     (let before = sk_dlq_records_by_class ops sink in
      case fan_call ops call w sink of (w1, sink1, r) \<Rightarrow>
      let after = sk_dlq_records_by_class ops sink1 in
      (w1, sink1, \<lparr>ca_kind = sk_kind ops sink1, ca_deltas = class_deltas before after,
         ca_delivered = sk_last_write_delivered ops sink1\<rparr>, result_err r))"

fun fanout_child ::
  "('w, 's) Sink \<Rightarrow> 'w \<times> (nat \<Rightarrow> 's) \<Rightarrow> 's TeeChild \<Rightarrow> Fanout \<Rightarrow>
   ('w \<times> (nat \<Rightarrow> 's)) \<times> 's TeeChild \<times> ChildAttribution \<times> RastreoError option" where
  "fanout_child ops (w, cells) (Owned sink) call =
     (case fanout_sink ops w sink call of (w1, sink1, a, e) \<Rightarrow> ((w1, cells), Owned sink1, a, e))"
| "fanout_child ops (w, cells) (Shared i) call =
     (case fanout_sink ops w (cells i) call of (w1, sink1, a, e) \<Rightarrow> ((w1, cells(i := sink1)), Shared i, a, e))"

fun fan_out_loop ::
  "('w, 's) Sink \<Rightarrow> Fanout \<Rightarrow> 'w \<times> (nat \<Rightarrow> 's) \<Rightarrow> 's TeeChild list \<Rightarrow> attribution \<Rightarrow> bool \<Rightarrow> RastreoError option \<Rightarrow>
   ('w \<times> (nat \<Rightarrow> 's)) \<times> 's TeeChild list \<times> attribution \<times> bool \<times> RastreoError option" where
  "fan_out_loop ops call u [] attr all_delivered first_error = (u, [], attr, all_delivered, first_error)"
| "fan_out_loop ops call u (child # children) attr all_delivered first_error =
     (case fanout_child ops u child call of (u1, child1, a, error) \<Rightarrow>
      let attr1 = credit_attribution attr (ca_kind a) (ca_deltas a);
          all1 = (all_delivered \<and> ca_delivered a);
          abort = (error \<noteq> None \<and> aborts_on_child_error call);
          first1 = or_else first_error error in
      if abort then (u1, child1 # children, attr1, all1, first1)
      else (case fan_out_loop ops call u1 children attr1 all1 first1 of (u2, cs, rest) \<Rightarrow> (u2, child1 # cs, rest)))"

definition fan_out :: "('w, 's) Sink \<Rightarrow> Fanout \<Rightarrow> ('w \<times> (nat \<Rightarrow> 's), 's TeeSink) sink_call" where
  "fan_out ops call u t =
     (case fan_out_loop ops call u (tee_children t) (tee_attribution t) True None of
        (u1, cs, attr, all_delivered, first_error) \<Rightarrow>
          let t1 = \<lparr>tee_children = cs, tee_last_delivered = False, tee_attribution = attr\<rparr> in
          (case first_error of
             Some e \<Rightarrow> (u1, t1, Inl e)
           | None \<Rightarrow> (u1, t1\<lparr>tee_last_delivered := all_delivered\<rparr>, Inr ())))"

fun child_state :: "(nat \<Rightarrow> 's) \<Rightarrow> 's TeeChild \<Rightarrow> 's" where
  "child_state cells (Owned sink) = sink"
| "child_state cells (Shared i) = cells i"

definition tee_requires_structured_records :: "('w, 's) Sink \<Rightarrow> 'w \<times> (nat \<Rightarrow> 's) \<Rightarrow> 's TeeSink \<Rightarrow> bool" where
  "tee_requires_structured_records ops u t =
     list_ex (\<lambda>c. sk_requires_structured_records ops (fst u) (child_state (snd u) c)) (tee_children t)"

definition tee_destinations :: "('w, 's) Sink \<Rightarrow> 'w \<times> (nat \<Rightarrow> 's) \<Rightarrow> 's TeeSink \<Rightarrow> SinkType list" where
  "tee_destinations ops u t = concat (map (\<lambda>c. sk_destinations ops (fst u) (child_state (snd u) c)) (tee_children t))"

definition tee_dlq_records_delivered :: "'s TeeSink \<Rightarrow> u64" where
  "tee_dlq_records_delivered t = foldl (\<lambda>acc (_, _, c). saturating_add acc c) 0 (tee_attribution t)"

definition tee_dlq_records_by_class :: "'s TeeSink \<Rightarrow> class_counts" where
  "tee_dlq_records_by_class t = foldl (\<lambda>out (_, c, n).
     let i = sink_error_class_index c in out[i := saturating_add (out ! i) n]) (replicate 6 0) (tee_attribution t)"

definition tee_dlq_by_type_and_class :: "'s TeeSink \<Rightarrow> attribution" where
  "tee_dlq_by_type_and_class t = filter (\<lambda>(_, _, c). c > 0) (tee_attribution t)"

fun probe_children :: "('w, 's) Sink \<Rightarrow> (nat \<Rightarrow> 's) \<Rightarrow> 'w \<Rightarrow> 's TeeChild list \<Rightarrow> 'w \<times> (string + unit)" where
  "probe_children ops cells w [] = (w, Inr ())"
| "probe_children ops cells w (c # cs) = (case sk_probe ops w (child_state cells c) of
     (w1, Inl e) \<Rightarrow> (w1, Inl e) | (w1, Inr _) \<Rightarrow> probe_children ops cells w1 cs)"

definition tee_vtable :: "('w, 's) Sink \<Rightarrow> ('w \<times> (nat \<Rightarrow> 's), 's TeeSink) Sink" where
  "tee_vtable ops =
     \<lparr>sk_write = (\<lambda>data. fan_out ops (FanWrite data)),
      sk_write_kind = (\<lambda>kind data. fan_out ops (FanWriteKind kind data)),
      sk_flush = fan_out ops FanFlush,
      sk_close = fan_out ops FanClose,
      sk_last_write_delivered = tee_last_delivered,
      sk_kind = (\<lambda>_. TeeType),
      sk_requires_structured_records = tee_requires_structured_records ops,
      sk_destinations = tee_destinations ops,
      sk_dlq_records_delivered = tee_dlq_records_delivered,
      sk_dlq_records_by_class = tee_dlq_records_by_class,
      sk_dlq_records_by_type_and_class = tee_dlq_by_type_and_class,
      sk_probe = (\<lambda>(w, cells) t. case probe_children ops cells w (tee_children t) of (w1, r) \<Rightarrow> ((w1, cells), r))\<rparr>"

section \<open>Configuration\<close>

datatype SinkConfig =
    CfgStdout
  | CfgFile string
  | CfgMemory
  | CfgKafka (kc_brokers: "string list") (kc_topic: string) (kc_links_topic: "string option")
      (kc_profiles_topic: "string option") (kc_flush_mode: KafkaFlushMode)
      (kc_dead_letter: "DeadLetterConfig option") (kc_tls: "KafkaTls option") (kc_sasl: "KafkaSasl option")
      (kc_retry: SinkRetry)
  | CfgNats (nc_servers: "string list") (nc_subject: string) (nc_stream: string)
      (nc_links_subject: "string option") (nc_profiles_subject: "string option")
      (nc_credentials: NatsCredentials) (nc_flush_mode: NatsFlushMode)
      (nc_dead_letter: "NatsDeadLetterConfig option") (nc_retry: SinkRetry)

fun supports_resume :: "SinkConfig \<Rightarrow> bool" where
  "supports_resume (CfgFile _) = True"
| "supports_resume (CfgKafka _ _ _ _ _ _ _ _ _) = True"
| "supports_resume (CfgNats _ _ _ _ _ _ _ _ _) = True"
| "supports_resume CfgStdout = False"
| "supports_resume CfgMemory = False"

fun sink_type :: "SinkConfig \<Rightarrow> SinkType" where
  "sink_type CfgStdout = StdoutType"
| "sink_type (CfgFile _) = FileType"
| "sink_type CfgMemory = MemoryType"
| "sink_type (CfgKafka _ _ _ _ _ _ _ _ _) = KafkaType"
| "sink_type (CfgNats _ _ _ _ _ _ _ _ _) = NatsType"

definition config_requires_structured_records :: "SinkConfig \<Rightarrow> bool" where
  "config_requires_structured_records c = type_requires_structured_records (sink_type c)"

definition blank :: "string \<Rightarrow> bool" where
  "blank s = (trim s = [])"

definition invalid :: "string \<Rightarrow> 'a result" where
  "invalid msg = Inl (EConfig (InvalidValue msg))"

text \<open>\<^verbatim>\<open>if let Some(x) = opt { x.validate()? }\<close>.\<close>

definition validate_opt :: "('x \<Rightarrow> unit result) \<Rightarrow> 'x option \<Rightarrow> unit result \<Rightarrow> unit result" where
  "validate_opt check opt rest = (case opt of None \<Rightarrow> rest
     | Some x \<Rightarrow> (case check x of Inl e \<Rightarrow> Inl e | Inr _ \<Rightarrow> rest))"

fun sink_validate :: "('w, 'k, 'c, 'cert) KafkaLib \<Rightarrow> SinkConfig \<Rightarrow> unit result" where
  "sink_validate lib CfgStdout = Inr ()"
| "sink_validate lib (CfgFile _) = Inr ()"
| "sink_validate lib CfgMemory = Inr ()"
| "sink_validate lib (CfgKafka brokers topic links_topic profiles_topic _ dead_letter tls sasl _) =
     (if brokers = [] then invalid ''kafka sink: brokers list is empty''
      else if list_ex blank brokers then invalid ''kafka sink: brokers list contains an empty entry''
      else if blank topic then invalid ''kafka sink: topic is empty''
      else if (case links_topic of Some t \<Rightarrow> blank t | None \<Rightarrow> False) then invalid ''kafka sink: links_topic is empty''
      else if (case profiles_topic of Some t \<Rightarrow> blank t | None \<Rightarrow> False)
        then invalid ''kafka sink: profiles_topic is empty''
      else validate_opt (kafka_tls_validate lib) tls
        (validate_opt kafka_sasl_validate sasl (validate_opt dead_letter_validate dead_letter (Inr ()))))"
| "sink_validate lib (CfgNats servers subject stream links_subject profiles_subject _ _ dead_letter _) =
     (if servers = [] then invalid ''nats sink: servers list is empty''
      else if list_ex blank servers then invalid ''nats sink: servers list contains an empty entry''
      else if blank subject then invalid ''nats sink: subject is empty''
      else if (case links_subject of Some s \<Rightarrow> blank s | None \<Rightarrow> False) then invalid ''nats sink: links_subject is empty''
      else if (case profiles_subject of Some s \<Rightarrow> blank s | None \<Rightarrow> False)
        then invalid ''nats sink: profiles_subject is empty''
      else if blank stream then invalid ''nats sink: stream is empty''
      else validate_opt nats_dead_letter_validate dead_letter (Inr ()))"

section \<open>Construction\<close>

datatype ('f, 'c, 'cert, 'x, 'a) AnySink =
    AnyStdout "'f StdoutSink"
  | AnyFile "'f FileSink"
  | AnyMemory MemorySink
  | AnyKafka "('c, 'cert) KafkaSink"
  | AnyNats "('x, 'a) NatsSink"

definition create_kafka ::
  "('w, 'k, 'c, 'cert) KafkaLib \<Rightarrow> 'w \<Rightarrow> SinkConfig \<Rightarrow> 'w \<times> ('c, 'cert) KafkaSink result" where
  "create_kafka lib w cfg =
     (let links = (case kc_links_topic cfg of Some t \<Rightarrow> t | None \<Rightarrow> default_links_destination);
          profiles = (case kc_profiles_topic cfg of Some t \<Rightarrow> t | None \<Rightarrow> default_profiles_destination) in
      case kafka_new lib w (kc_brokers cfg) (kc_topic cfg) (kc_tls cfg) (kc_sasl cfg) of
        (w1, Inl e) \<Rightarrow> (w1, Inl e)
      | (w1, Inr sink) \<Rightarrow>
          let s1 = sink\<lparr>ks_links_topic := links, ks_profiles_topic := profiles,
            ks_buffer_threshold := kafka_to_threshold (kc_flush_mode cfg), ks_retry := kc_retry cfg\<rparr> in
          (case kc_dead_letter cfg of
             Some dlq \<Rightarrow> kafka_with_dead_letter lib w1 s1 dlq
           | None \<Rightarrow> (w1, Inr s1)))"

definition create_nats ::
  "('w, 'x, 'a, 'f) NatsLib \<Rightarrow> 'w \<Rightarrow> SinkConfig \<Rightarrow> 'w \<times> ('x, 'a) NatsSink result" where
  "create_nats lib w cfg =
     (let links = (case nc_links_subject cfg of Some t \<Rightarrow> t | None \<Rightarrow> default_links_destination);
          profiles = (case nc_profiles_subject cfg of Some t \<Rightarrow> t | None \<Rightarrow> default_profiles_destination) in
      case nats_new lib w (nc_servers cfg) (nc_subject cfg) (nc_stream cfg) (nc_credentials cfg) of
        (w1, Inl e) \<Rightarrow> (w1, Inl e)
      | (w1, Inr sink) \<Rightarrow>
          let s1 = sink\<lparr>ns_links_subject := links, ns_profiles_subject := profiles,
            ns_buffer_threshold := nats_to_threshold (nc_flush_mode cfg), ns_retry := nc_retry cfg\<rparr> in
          (case nc_dead_letter cfg of
             Some dlq \<Rightarrow> nats_with_dead_letter lib w1 s1 dlq
           | None \<Rightarrow> (w1, Inr s1)))"

definition create_sink ::
  "('w, 'f) IoLib \<Rightarrow> ('w, 'k, 'c, 'cert) KafkaLib \<Rightarrow> ('w, 'x, 'a, 'cf) NatsLib \<Rightarrow> 'w \<Rightarrow> SinkConfig \<Rightarrow>
   'w \<times> ('f, 'c, 'cert, 'x, 'a) AnySink result" where
  "create_sink io kl nl w cfg = (case sink_validate kl cfg of
       Inl e \<Rightarrow> (w, Inl e)
     | Inr _ \<Rightarrow> (case cfg of
         CfgStdout \<Rightarrow> (w, Inr (AnyStdout (stdout_new io)))
       | CfgFile path \<Rightarrow> (case file_new io w path of (w1, r) \<Rightarrow> (w1, map_sum id AnyFile r))
       | CfgMemory \<Rightarrow> (w, Inr (AnyMemory memory_new))
       | CfgKafka _ _ _ _ _ _ _ _ _ \<Rightarrow> (case create_kafka kl w cfg of (w1, r) \<Rightarrow> (w1, map_sum id AnyKafka r))
       | CfgNats _ _ _ _ _ _ _ _ _ \<Rightarrow> (case create_nats nl w cfg of (w1, r) \<Rightarrow> (w1, map_sum id AnyNats r))))"

section \<open>The capped memory sink\<close>

fun memory_writes :: "bytes list \<Rightarrow> MemorySink \<Rightarrow> MemorySink" where
  "memory_writes [] s = s"
| "memory_writes (d # ds) s = memory_writes ds (fst (snd (memory_write d () s)))"

lemma memory_writes_snoc: "memory_writes (ds @ [d]) s = fst (snd (memory_write d () (memory_writes ds s)))"
  by (induction ds arbitrary: s) auto

lemma nths_insert_ge: "length xs \<le> n \<Longrightarrow> nths xs (insert n A) = nths xs A"
  unfolding nths_def by (rule arg_cong [of _ _ "map fst"]) (auto intro!: filter_cong dest: set_zip_rightD)

text \<open>C30: After any writes a memory sink capped at \<^verbatim>\<open>m\<close> bytes holds at most \<^verbatim>\<open>m\<close> bytes, and what it holds is
  the concatenation of some of the writes, each whole and in order; it says it is truncated exactly when a
  write was left out.\<close>

theorem memory_cap:
  "\<exists>kept \<subseteq> {..<length ds}. mem_buffer (memory_writes ds (memory_with_max_bytes m)) = concat (nths ds kept) \<and>
     length (concat (nths ds kept)) \<le> m \<and>
     mem_truncated (memory_writes ds (memory_with_max_bytes m)) = (kept \<noteq> {..<length ds})"
proof -
  have "\<exists>kept \<subseteq> {..<length ds}. mem_buffer (memory_writes ds (memory_with_max_bytes m)) = concat (nths ds kept) \<and>
     length (concat (nths ds kept)) \<le> m \<and>
     mem_truncated (memory_writes ds (memory_with_max_bytes m)) = (kept \<noteq> {..<length ds}) \<and>
     mem_max_bytes (memory_writes ds (memory_with_max_bytes m)) = Some m"
  proof (induction ds rule: rev_induct)
    case Nil
    then show ?case by (simp add: memory_with_max_bytes_def memory_new_def)
  next
    case (snoc d ds)
    let ?s = "memory_writes ds (memory_with_max_bytes m)"
    obtain kept where kept: "kept \<subseteq> {..<length ds}" "mem_buffer ?s = concat (nths ds kept)"
      "length (concat (nths ds kept)) \<le> m" "mem_truncated ?s = (kept \<noteq> {..<length ds})" "mem_max_bytes ?s = Some m"
      using snoc by blast
    show ?case
    proof (cases "length (mem_buffer ?s) + length d > m")
      case True
      have "length ds \<notin> kept" using kept(1) by auto
      then have "nths (ds @ [d]) kept = nths ds kept" "kept \<noteq> {..<Suc (length ds)}"
        by (auto simp: nths_append)
      then show ?thesis using kept True
        by (intro exI [of _ kept]) (auto simp: memory_writes_snoc memory_write_def)
    next
      case False
      have eq: "nths (ds @ [d]) (insert (length ds) kept) = nths ds kept @ [d]"
        by (simp add: nths_append nths_insert_ge)
      have "(insert (length ds) kept \<noteq> {..<Suc (length ds)}) = (kept \<noteq> {..<length ds})"
        using kept(1) insert_ident [of "length ds" kept "{..<length ds}"] by (auto simp: lessThan_Suc)
      then show ?thesis using kept False eq
        by (intro exI [of _ "insert (length ds) kept"]) (auto simp: memory_writes_snoc memory_write_def)
    qed
  qed
  then show ?thesis by blast
qed

section \<open>Dead-letter attribution\<close>

definition credited :: "attribution \<Rightarrow> SinkType \<Rightarrow> SinkErrorClass \<Rightarrow> u64" where
  "credited b k c = (case find (\<lambda>(k', c', _). k' = k \<and> c' = c) b of Some (_, _, n) \<Rightarrow> n | None \<Rightarrow> 0)"

lemma saturating_add_0 [simp]: "saturating_add n 0 = n" "saturating_add 0 n = n"
  using unsigned_less [of n, where 'a = nat] by (simp_all add: saturating_add_def)

lemma credited_credit_one:
  "credited (credit_one b kind c d) k c' = (if k = kind \<and> c' = c then saturating_add (credited b k c') d else credited b k c')"
  by (induction b kind c d rule: credit_one.induct) (auto simp: credited_def)

lemma credited_fold:
  "distinct cs \<Longrightarrow> credited (foldl (\<lambda>b c. let delta = ds ! sink_error_class_index c in
      if delta = 0 then b else credit_one b kind c delta) b cs) k c' =
   (if k = kind \<and> c' \<in> set cs then saturating_add (credited b k c') (ds ! sink_error_class_index c') else credited b k c')"
  by (induction cs arbitrary: b) (auto simp: Let_def credited_credit_one)

lemma credited_credit_attribution:
  "credited (credit_attribution b kind ds) k c =
     (if k = kind then saturating_add (credited b k c) (ds ! sink_error_class_index c) else credited b k c)"
proof -
  have "c \<in> set sink_error_class_all" by (cases c) (simp_all add: sink_error_class_all_def)
  moreover have "distinct sink_error_class_all" by (simp add: sink_error_class_all_def)
  ultimately show ?thesis by (simp add: credit_attribution_def credited_fold)
qed

text \<open>C29: Crediting a child's dead letters adds exactly its per-class deltas to the counts of its sink type,
  saturating, and leaves the counts of the other sink types alone.\<close>

theorem attribution_credits:
  "credited (credit_attribution b kind ds) k c =
     (if k = kind then saturating_add (credited b k c) (ds ! sink_error_class_index c) else credited b k c)"
  by (rule credited_credit_attribution)

section \<open>What a fan-out does\<close>

text \<open>An operation of the children run on them in order: on an owned child's own state, on a shared child's cell,
  ending after the first failure when \<^verbatim>\<open>stop\<close> is set. The trace has each child's state before and after
  its call, and what the call returned.\<close>

fun run_children ::
  "bool \<Rightarrow> ('w, 's) sink_call \<Rightarrow> 'w \<Rightarrow> (nat \<Rightarrow> 's) \<Rightarrow> 's TeeChild list \<Rightarrow>
   'w \<times> (nat \<Rightarrow> 's) \<times> 's TeeChild list \<times> ('s \<times> 's \<times> unit result) list" where
  "run_children stop f w cells [] = (w, cells, [], [])"
| "run_children stop f w cells (Owned s # cs) =
     (case f w s of (w1, s1, r) \<Rightarrow>
        if stop \<and> r \<noteq> Inr () then (w1, cells, Owned s1 # cs, [(s, s1, r)])
        else (case run_children stop f w1 cells cs of (w2, cells2, cs2, trace) \<Rightarrow>
          (w2, cells2, Owned s1 # cs2, (s, s1, r) # trace)))"
| "run_children stop f w cells (Shared i # cs) =
     (case f w (cells i) of (w1, s1, r) \<Rightarrow>
        if stop \<and> r \<noteq> Inr () then (w1, cells(i := s1), Shared i # cs, [(cells i, s1, r)])
        else (case run_children stop f w1 (cells(i := s1)) cs of (w2, cells2, cs2, trace) \<Rightarrow>
          (w2, cells2, Shared i # cs2, (cells i, s1, r) # trace)))"

text \<open>The dead letters of one class that the children of one type landed during a fan-out, on top of \<^verbatim>\<open>n\<close>.\<close>

fun landed :: "('w, 's) Sink \<Rightarrow> SinkType \<Rightarrow> SinkErrorClass \<Rightarrow> ('s \<times> 's \<times> unit result) list \<Rightarrow> u64 \<Rightarrow> u64" where
  "landed ops k c [] n = n"
| "landed ops k c ((s, s1, r) # trace) n =
     landed ops k c trace
       (if sk_kind ops s1 = k
        then saturating_add n (saturating_sub (sk_dlq_records_by_class ops s1 ! sink_error_class_index c)
               (sk_dlq_records_by_class ops s ! sink_error_class_index c))
        else n)"

definition fans_out :: "('w, 's) Sink \<Rightarrow> bool \<Rightarrow> ('w, 's) sink_call \<Rightarrow> ('w \<times> (nat \<Rightarrow> 's), 's TeeSink) sink_call \<Rightarrow> bool" where
  "fans_out ops stop f tee \<longleftrightarrow> (\<forall>w cells t w' cells' cs trace.
     run_children stop f w cells (tee_children t) = (w', cells', cs, trace) \<longrightarrow>
     (\<exists>t'. tee (w, cells) t = ((w', cells'), t', case filter (\<lambda>(_, _, r). r \<noteq> Inr ()) trace of
           [] \<Rightarrow> Inr () | (_, _, r) # _ \<Rightarrow> r) \<and>
        tee_children t' = cs \<and>
        tee_last_delivered t' = (\<forall>(s, s1, r) \<in> set trace. r = Inr () \<and> sk_last_write_delivered ops s1) \<and>
        (\<forall>k c. credited (tee_attribution t') k c = landed ops k c trace (credited (tee_attribution t) k c))))"

definition visit_credit :: "('w, 's) Sink \<Rightarrow> attribution \<Rightarrow> 's \<times> 's \<times> unit result \<Rightarrow> attribution" where
  "visit_credit ops b v = (case v of (s, s1, r) \<Rightarrow>
     credit_attribution b (sk_kind ops s1) (class_deltas (sk_dlq_records_by_class ops s) (sk_dlq_records_by_class ops s1)))"

lemma result_err_unit: "result_err (r :: unit result) = None \<longleftrightarrow> r = Inr ()"
  by (cases r) simp_all

lemma fan_out_loop_run:
  "fan_out_loop ops call (w, cells) cs attr all_ok first =
     (case run_children (aborts_on_child_error call) (fan_call ops call) w cells cs of (w', cells', cs', trace) \<Rightarrow>
        ((w', cells'), cs', foldl (visit_credit ops) attr trace,
         all_ok \<and> (\<forall>(s, s1, r) \<in> set trace. sk_last_write_delivered ops s1),
         or_else first (find_map (\<lambda>(s, s1, r). result_err r) trace)))"
proof (induction cs arbitrary: w cells attr all_ok first)
  case (Cons child cs)
  obtain s cells1 child1 where child: "\<And>w1 s1 a e. fanout_sink ops w s call = (w1, s1, a, e) \<Longrightarrow>
      fanout_child ops (w, cells) child call = ((w1, cells1 s1), child1 s1, a, e)"
    and run: "\<And>stop w1 s1 r. fan_call ops call w s = (w1, s1, r) \<Longrightarrow>
      run_children stop (fan_call ops call) w cells (child # cs) =
      (if stop \<and> r \<noteq> Inr () then (w1, cells1 s1, child1 s1 # cs, [(s, s1, r)])
       else (case run_children stop (fan_call ops call) w1 (cells1 s1) cs of (w2, cells2, cs2, trace) \<Rightarrow>
          (w2, cells2, child1 s1 # cs2, (s, s1, r) # trace)))"
  proof (cases child)
    case (Owned s)
    then show ?thesis by (intro that [of s "\<lambda>_. cells" Owned]) simp_all
  next
    case (Shared i)
    then show ?thesis by (intro that [of "cells i" "\<lambda>s1. cells(i := s1)" "\<lambda>_. Shared i"]) simp_all
  qed
  obtain w1 s1 r where f: "fan_call ops call w s = (w1, s1, r)" by (cases "fan_call ops call w s") auto
  obtain w2 cells2 cs2 trace where rec: "run_children (aborts_on_child_error call) (fan_call ops call) w1 (cells1 s1) cs =
      (w2, cells2, cs2, trace)" by (metis prod_cases4)
  note visit = child [unfolded fanout_sink_def Let_def f prod.case, OF refl] run [OF f] Cons.IH
  show ?case
  proof (cases r)
    case (Inl e)
    then show ?thesis using rec
      by (cases "aborts_on_child_error call"; cases first) (simp_all add: visit visit_credit_def del: run_children.simps)
  next
    case (Inr u)
    then show ?thesis using rec by (simp add: visit visit_credit_def del: run_children.simps)
  qed
qed simp

lemma landed_credits: "credited (foldl (visit_credit ops) b trace) k c = landed ops k c trace (credited b k c)"
proof -
  have "class_deltas before after ! sink_error_class_index c =
      saturating_sub (after ! sink_error_class_index c) (before ! sink_error_class_index c)" for before after
    by (simp add: class_deltas_def)
  then show ?thesis
    by (induction trace arbitrary: b) (auto simp: visit_credit_def credited_credit_attribution)
qed

lemma first_error:
  "(case find_map (\<lambda>(s, s1, r). result_err r) trace of Some e \<Rightarrow> Inl e | None \<Rightarrow> Inr ()) =
   (case filter (\<lambda>(_, _, r). r \<noteq> Inr ()) trace of [] \<Rightarrow> Inr () | (_, _, r) # _ \<Rightarrow> r)"
proof (induction trace)
  case (Cons v trace)
  obtain s s1 r where "v = (s, s1, r)" by (cases v)
  then show ?case using Cons by (cases r) simp_all
qed simp

lemma fan_out_fans_out: "fans_out ops (aborts_on_child_error call) (fan_call ops call) (fan_out ops call)"
  unfolding fans_out_def
proof (intro allI impI)
  fix w cells and t :: "'b TeeSink" and w' cells' cs trace
  assume run: "run_children (aborts_on_child_error call) (fan_call ops call) w cells (tee_children t) = (w', cells', cs, trace)"
  let ?e = "find_map (\<lambda>(s, s1, r). result_err r) trace"
  let ?t = "\<lparr>tee_children = cs, tee_last_delivered = (?e = None \<and> (\<forall>(s, s1, r) \<in> set trace. sk_last_write_delivered ops s1)),
      tee_attribution = foldl (visit_credit ops) (tee_attribution t) trace\<rparr>"
  have "fan_out ops call (w, cells) t = ((w', cells'), ?t, case ?e of Some e \<Rightarrow> Inl e | None \<Rightarrow> Inr ())"
    by (cases ?e) (simp_all add: fan_out_def fan_out_loop_run run Let_def del: find_map_None)
  moreover have "tee_last_delivered ?t = (\<forall>(s, s1, r) \<in> set trace. r = Inr () \<and> sk_last_write_delivered ops s1)"
    by (auto simp: result_err_unit)
  ultimately show "\<exists>t'. fan_out ops call (w, cells) t = ((w', cells'), t', case filter (\<lambda>(_, _, r). r \<noteq> Inr ()) trace of
           [] \<Rightarrow> Inr () | (_, _, r) # _ \<Rightarrow> r) \<and> tee_children t' = cs \<and>
        tee_last_delivered t' = (\<forall>(s, s1, r) \<in> set trace. r = Inr () \<and> sk_last_write_delivered ops s1) \<and>
        (\<forall>k c. credited (tee_attribution t') k c = landed ops k c trace (credited (tee_attribution t) k c))"
    unfolding first_error by (intro exI [of _ ?t]) (simp add: landed_credits)
qed

text \<open>C28: A fan-out sink performs each operation as that operation of its children, in order: a write or typed
  write up to and with the first child that fails, a flush or close on every child. Owned and shared
  children keep the state their call left, a child past the end is untouched, the first error is
  returned, delivery is reported exactly when every call succeeded and every child says so afterwards,
  and per sink type and error class the dead letters each call landed are added, saturating. Shared
  children may be named several times.\<close>

theorem tee_fan_out:
  "fans_out ops True (sk_write ops data) (sk_write (tee_vtable ops) data) \<and>
   fans_out ops True (sk_write_kind ops kind data) (sk_write_kind (tee_vtable ops) kind data) \<and>
   fans_out ops False (sk_flush ops) (sk_flush (tee_vtable ops)) \<and>
   fans_out ops False (sk_close ops) (sk_close (tee_vtable ops))"
  using fan_out_fans_out [of ops "FanWrite data"] fan_out_fans_out [of ops "FanWriteKind kind data"]
    fan_out_fans_out [of ops FanFlush] fan_out_fans_out [of ops FanClose]
  by (simp add: tee_vtable_def)

section \<open>Broker sinks from their configuration\<close>

lemma kafka_new_ok:
  assumes law: "kafka_lawful lib topic_of accepted" and run: "kafka_new lib w brokers topic tls sasl = (w', Inr s)"
  shows "kafka_invar topic_of s" "kafka_held s k = {#}" "ks_links_client s = None" "ks_profiles_client s = None"
    "ks_dlq_client s = None"
proof -
  obtain c t where conn: "connect_within lib w brokers topic t sasl kafka_connect_timeout [] = (w', Inr c)"
    and s: "ks_topic s = topic" "ks_client s = c" "ks_buffer s = pending_new" "ks_links_buffer s = pending_new"
      "ks_profiles_buffer s = pending_new" "ks_dlq_client s = None" "ks_links_client s = None"
      "ks_profiles_client s = None" "ks_buffer_threshold s = kafka_default_buffer_threshold"
    using run by (auto simp: kafka_new_def kafka_new_with_connect_timeout_def split: option.splits sum.splits prod.splits)
  show "kafka_invar topic_of s"
    using connect_within_law(2) [OF law conn] s by (simp add: kafka_invar_def kafka_default_buffer_threshold_def)
qed (use run in \<open>cases k; auto simp: kafka_new_def kafka_new_with_connect_timeout_def split: option.splits sum.splits prod.splits\<close>)+

lemma kafka_to_threshold_pos [simp]: "0 < kafka_to_threshold m"
  by (cases m) (simp_all add: clamp_threshold_def)

lemma nats_to_threshold_pos [simp]: "0 < nats_to_threshold m"
  by (cases m) (simp_all add: clamp_threshold_def)

lemma create_kafka_ok:
  assumes law: "kafka_lawful lib topic_of accepted" and run: "create_kafka lib w cfg = (w', Inr s)"
  shows "kafka_invar topic_of s" "kafka_held s k = {#}"
proof -
  obtain w1 s0 where new: "kafka_new lib w (kc_brokers cfg) (kc_topic cfg) (kc_tls cfg) (kc_sasl cfg) = (w1, Inr s0)"
    using run by (auto simp: create_kafka_def Let_def split: prod.splits sum.splits)
  note fresh = kafka_new_ok [OF law new]
  define links where "links = (case kc_links_topic cfg of Some t \<Rightarrow> t | None \<Rightarrow> default_links_destination)"
  define profiles where "profiles = (case kc_profiles_topic cfg of Some t \<Rightarrow> t | None \<Rightarrow> default_profiles_destination)"
  define s1 where "s1 = s0\<lparr>ks_links_topic := links, ks_profiles_topic := profiles,
      ks_buffer_threshold := kafka_to_threshold (kc_flush_mode cfg), ks_retry := kc_retry cfg\<rparr>"
  have s1: "kafka_invar topic_of s1" "kafka_held s1 j = {#}" for j
    using fresh(1,3,4) fresh(2) [of j] by (cases j; simp add: s1_def kafka_invar_def)+
  have "kafka_invar topic_of s \<and> kafka_held s k = {#}"
  proof (cases "kc_dead_letter cfg")
    case None
    then have "s = s1" using run new by (simp add: create_kafka_def Let_def s1_def links_def profiles_def)
    then show ?thesis using s1 by simp
  next
    case (Some dlq)
    then have dl: "kafka_with_dead_letter lib w1 s1 dlq = (w', Inr s)"
      using run new by (simp add: create_kafka_def Let_def s1_def links_def profiles_def)
    then obtain c what where conn: "connect_within lib w1 (ks_brokers s1) (dl_topic dlq) (ks_tls_config s1) (ks_sasl s1)
        kafka_connect_timeout what = (w', Inr c)"
      and s: "s = s1\<lparr>ks_dlq_client := Some c, ks_dlq_topic := Some (dl_topic dlq),
        ks_include_error_metadata := dl_include_error_metadata dlq\<rparr>"
      by (auto simp: kafka_with_dead_letter_def Let_def split: sum.splits prod.splits)
    show ?thesis
      using s1(1) s1(2) [of k] connect_within_law(2) [OF law conn] by (cases k) (simp_all add: s kafka_invar_def)
  qed
  then show "kafka_invar topic_of s" "kafka_held s k = {#}" by blast+
qed

lemma create_nats_ok:
  assumes run: "create_nats lib w cfg = (w', Inr s)"
  shows "nats_invar ack_for s" "nats_held s k = {#}"
proof -
  obtain w1 s0 where new: "nats_new lib w (nc_servers cfg) (nc_subject cfg) (nc_stream cfg) (nc_credentials cfg) = (w1, Inr s0)"
    using run by (auto simp: create_nats_def Let_def split: prod.splits sum.splits)
  have s0: "ns_buffer s0 = pending_new" "ns_links_buffer s0 = pending_new" "ns_profiles_buffer s0 = pending_new"
    "ns_pending_acks s0 = []"
    using new by (auto simp: nats_new_def Let_def split: prod.splits sum.splits)
  have "ns_buffer s = pending_new \<and> ns_links_buffer s = pending_new \<and> ns_profiles_buffer s = pending_new \<and>
      ns_pending_acks s = [] \<and> 0 < ns_buffer_threshold s"
    using run new s0 by (auto simp: create_nats_def nats_with_dead_letter_def Let_def split: option.splits sum.splits prod.splits)
  then show "nats_invar ack_for s" "nats_held s k = {#}" by (cases k; simp add: nats_invar_def)+
qed

lemma create_sink_kafka: "create_sink io kl nl w cfg = (w', Inr (AnyKafka s)) \<Longrightarrow> create_kafka kl w cfg = (w', Inr s)"
  by (auto simp: create_sink_def split: sum.splits prod.splits SinkConfig.splits)
    (auto simp: map_sum_def split: sum.splits)

lemma create_sink_nats: "create_sink io kl nl w cfg = (w', Inr (AnyNats s)) \<Longrightarrow> create_nats nl w cfg = (w', Inr s)"
  by (auto simp: create_sink_def split: sum.splits prod.splits SinkConfig.splits)
    (auto simp: map_sum_def split: sum.splits)

text \<open>C26: Take a Kafka sink built from any configuration and any sequence of writes and flushes, each of which may
  fail. Every record written to a stream is still in that stream's buffer or was accepted by its topic or,
  for device records, by the dead-letter topic; after a flush that returns success, every one was accepted.\<close>

theorem kafka_loses_no_record:
  assumes "kafka_lawful kl topic_of accepted"
    and "create_sink io kl nl w cfg = (w0, Inr (AnyKafka s0))"
    and "run_requests (kafka_write_kind kl) (kafka_flush kl) rs w0 s0 = (w1, s1)"
    and "kafka_flush kl w1 s1 = (w2, s2, r)"
  shows "requested k rs + kafka_taken accepted w0 s0 k \<subseteq># kafka_held s1 k + kafka_taken accepted w1 s1 k \<and>
    (r = Inr () \<longrightarrow> requested k rs + kafka_taken accepted w0 s0 k \<subseteq># kafka_taken accepted w2 s2 k)"
proof -
  note ok = create_kafka_ok [OF assms(1) create_sink_kafka [OF assms(2)]]
  have "requested k rs + kafka_taken accepted w0 s0 k \<subseteq># kafka_held s1 k + kafka_taken accepted w1 s1 k"
    using kafka.run_keeps [OF assms(1) ok(1) assms(3), of k] ok(2) [of k] by simp
  moreover have "requested k rs + kafka_taken accepted w0 s0 k \<subseteq># kafka_taken accepted w2 s2 k" if "r = Inr ()"
    using kafka.run_flushed [OF assms(1) ok(1) assms(3), of w2 s2 k] assms(4) ok(2) [of k] that by simp
  ultimately show ?thesis by blast
qed

text \<open>A broker whose topic \<^verbatim>\<open>p\<close> always refuses and whose other topics accept; the world is what was accepted.\<close>

definition refusing_kafka :: "((string \<times> bytes) list, unit, string, unit) KafkaLib" where
  "refusing_kafka =
     \<lparr>kl_pem_certs = (\<lambda>_. Inr []), kl_parsable = id,
      kl_build = (\<lambda>w _. (w, Inr ())), kl_partition_client = (\<lambda>w _ t. (w, Inr t)), kl_timeout = (\<lambda>_ w. (w, False)),
      kl_produce = (\<lambda>w c rs. if c = ''p'' then (w, Inl ''down'') else (w @ map (\<lambda>r. (c, rec_value r)) rs, Inr ())),
      kl_get_offset = (\<lambda>w _. (w, Inr ())), kl_sleep = (\<lambda>_ w. w), kl_now = (\<lambda>_. 0), kl_rfc3339 = (\<lambda>_. [])\<rparr>"

definition logged :: "(string \<times> bytes) list \<Rightarrow> string \<Rightarrow> bytes multiset" where
  "logged w t = mset (map snd (filter (\<lambda>e. fst e = t) w))"

lemma logged_simps [simp]: "logged (w @ v) t = logged w t + logged v t" "logged [] t = {#}"
  by (simp_all add: logged_def)

lemma logged_values [simp]: "logged (map (\<lambda>r. (c, f r)) rs) t = (if c = t then mset (map f rs) else {#})"
  by (simp add: logged_def filter_map comp_def)

lemma refusing_kafka_lawful: "kafka_lawful refusing_kafka id logged"
  by (auto simp: kafka_lawful_def refusing_kafka_def grows_def)

definition dlq_config :: SinkConfig where
  "dlq_config = CfgKafka [''b''] ''p'' None None KafkaPerRecord
     (Some \<lparr>dl_topic = ''d'', dl_include_error_metadata = False\<rparr>) None None
     \<lparr>sr_max_attempts = 1, sr_backoff_initial_ms = 0, sr_backoff_max_ms = 0\<rparr>"

definition storing_nats :: "((string \<times> bytes) list, unit, string \<times> bytes, unit) NatsLib" where
  "storing_nats =
     \<lparr>nl_credentials_file = (\<lambda>_ _. Inr ()), nl_connect = (\<lambda>w _ _. (w, Inr ())), nl_context = (\<lambda>_ x. x),
      nl_get_stream = (\<lambda>w _ _. (w, Inr ())), nl_publish = (\<lambda>w _ t _ p. (w, Inr (t, p))),
      nl_await = (\<lambda>w a. if fst a = ''p'' then (w, Inl ''refused'') else (w @ [a], Inr ())),
      nl_flush = (\<lambda>w _. (w, Inr ())), nl_sleep = (\<lambda>_ w. w), nl_now = (\<lambda>_. 0), nl_rfc3339 = (\<lambda>_. [])\<rparr>"

definition quiet_io :: "((string \<times> bytes) list, unit) IoLib" where
  "quiet_io = \<lparr>io_stdout = (), io_open_append = (\<lambda>w _. (w, Inr ())), io_write_all = (\<lambda>w _ _. (w, Inr ())),
     io_flush = (\<lambda>w _. (w, Inr ()))\<rparr>"

fun any_kafka :: "('f, 'c, 'cert, 'x, 'a) AnySink result \<Rightarrow> ('c, 'cert) KafkaSink" where
  "any_kafka (Inr (AnyKafka s)) = s"

definition kafka_run :: "(string \<times> bytes) list \<times> (string, unit) KafkaSink" where
  "kafka_run = run_requests (kafka_write_kind refusing_kafka) (kafka_flush refusing_kafka) [Put Device [1], Put Link [2]] []
     (any_kafka (snd (create_sink quiet_io refusing_kafka storing_nats [] dlq_config)))"

lemma not_blank [simp]: "\<not> blank ''b''" "\<not> blank ''p''" "trim ''d'' \<noteq> []"
  by (simp_all add: blank_def trim_def is_whitespace_def Let_def)

lemmas demo_defs = create_sink_def dlq_config_def validate_opt_def create_kafka_def kafka_new_def
  kafka_new_with_connect_timeout_def connect_within_def connect_partition_client_def refusing_kafka_def
  kafka_with_dead_letter_def dead_letter_validate_def Let_def

lemma kafka_run_created:
  "create_sink quiet_io refusing_kafka storing_nats [] dlq_config =
   ([], Inr (AnyKafka (any_kafka (snd (create_sink quiet_io refusing_kafka storing_nats [] dlq_config)))))"
  by (simp add: demo_defs)

lemmas kafka_eval = kafka_write_def kafka_write_link_def kafka_publish_buffer_def publish_links_buffer_def
  publish_profiles_buffer_def take_links_client_def connect_partition_client_bounded_def produce_buffer_def
  retry_with_backoff_try_with kafka_flush_def reached_threshold_def pending_is_empty_def build_records_def
  pending_new_def push_record_def pending_push_def settle_all_def

lemma kafka_run_flushed: "snd (snd (kafka_flush refusing_kafka (fst kafka_run) (snd kafka_run))) = Inr ()"
  by (simp add: kafka_run_def kafka_eval demo_defs default_links_destination_def)

theorem kafka_loses_no_record_witness:
  "requested Device [Put Device [1], Put Link [2]] \<subseteq>#
     kafka_taken logged (fst (kafka_flush refusing_kafka (fst kafka_run) (snd kafka_run)))
       (fst (snd (kafka_flush refusing_kafka (fst kafka_run) (snd kafka_run)))) Device"
proof -
  note created = kafka_run_created
  have run: "run_requests (kafka_write_kind refusing_kafka) (kafka_flush refusing_kafka) [Put Device [1], Put Link [2]] []
      (any_kafka (snd (create_sink quiet_io refusing_kafka storing_nats [] dlq_config))) = (fst kafka_run, snd kafka_run)"
    by (simp add: kafka_run_def)
  have flush: "kafka_flush refusing_kafka (fst kafka_run) (snd kafka_run) =
      (fst (kafka_flush refusing_kafka (fst kafka_run) (snd kafka_run)),
       fst (snd (kafka_flush refusing_kafka (fst kafka_run) (snd kafka_run))), Inr ())"
    by (simp add: kafka_run_flushed [symmetric])
  show ?thesis
    by (rule subset_mset.trans [OF mset_subset_eq_add_left
          mp [OF conjunct2 [OF kafka_loses_no_record [OF refusing_kafka_lawful created run flush]] refl]])
qed

text \<open>C27: Take a NATS sink built from any configuration and any sequence of writes and flushes, each of which may
  fail. Every record written to a stream is still in that stream's buffer, awaits its acknowledgement, or was
  acknowledged on its subject or, for device records, on the dead-letter subject; after a flush that returns
  success, every one was acknowledged.\<close>

theorem nats_loses_no_record:
  assumes "nats_lawful nl ack_for accepted"
    and "create_sink io kl nl w cfg = (w0, Inr (AnyNats s0))"
    and "run_requests (nats_write_kind nl) (nats_flush nl) rs w0 s0 = (w1, s1)"
    and "nats_flush nl w1 s1 = (w2, s2, r)"
  shows "requested k rs + nats_taken accepted w0 s0 k \<subseteq># nats_held s1 k + nats_taken accepted w1 s1 k \<and>
    (r = Inr () \<longrightarrow> requested k rs + nats_taken accepted w0 s0 k \<subseteq># nats_taken accepted w2 s2 k)"
proof -
  note ok = create_nats_ok [OF create_sink_nats [OF assms(2)]]
  have "requested k rs + nats_taken accepted w0 s0 k \<subseteq># nats_held s1 k + nats_taken accepted w1 s1 k"
    using nats.run_keeps [OF assms(1) ok(1) assms(3), of k] ok(2) [of k] by simp
  moreover have "requested k rs + nats_taken accepted w0 s0 k \<subseteq># nats_taken accepted w2 s2 k" if "r = Inr ()"
    using nats.run_flushed [OF assms(1) ok(1) assms(3), of w2 s2 k] assms(4) ok(2) [of k] that by simp
  ultimately show ?thesis by blast
qed

lemma storing_nats_lawful: "nats_lawful storing_nats id logged"
  by (auto simp: nats_lawful_def storing_nats_def grows_def logged_def)

definition nats_dlq_config :: SinkConfig where
  "nats_dlq_config = CfgNats [''b''] ''p'' ''b'' None None Anonymous NatsPerRecord
     (Some \<lparr>nd_stream = ''d'', nd_subject = ''d'', nd_include_error_metadata = False\<rparr>)
     \<lparr>sr_max_attempts = 1, sr_backoff_initial_ms = 0, sr_backoff_max_ms = 0\<rparr>"

fun any_nats :: "('f, 'c, 'cert, 'x, 'a) AnySink result \<Rightarrow> ('x, 'a) NatsSink" where
  "any_nats (Inr (AnyNats s)) = s"

definition nats_run :: "(string \<times> bytes) list \<times> (unit, string \<times> bytes) NatsSink" where
  "nats_run = run_requests (nats_write_kind storing_nats) (nats_flush storing_nats) [Put Device [1], Put Link [2]] []
     (any_nats (snd (create_sink quiet_io refusing_kafka storing_nats [] nats_dlq_config)))"

lemmas nats_demo_defs = create_sink_def nats_dlq_config_def validate_opt_def create_nats_def nats_new_def
  storing_nats_def nats_with_dead_letter_def nats_dead_letter_validate_def Let_def

lemmas nats_eval = nats_write_def nats_write_link_def publish_and_drain_def nats_publish_buffer_def
  nats_publish_links_buffer_def nats_publish_profiles_buffer_def publish_retried_def publish_turn_def quarantine_def
  drain_pending_acks_def retry_with_backoff_try_with nats_flush_def reached_threshold_def pending_is_empty_def
  pending_new_def push_record_def pending_push_def settle_front_def pending_front_def nats_publish_loop.simps
  publish_stream_buffer.simps should_drain_pending_acks_def max_pending_acks_def credit_dlq_def restore_front_def

lemma nats_run_created:
  "create_sink quiet_io refusing_kafka storing_nats [] nats_dlq_config =
   ([], Inr (AnyNats (any_nats (snd (create_sink quiet_io refusing_kafka storing_nats [] nats_dlq_config)))))"
  by (simp add: nats_demo_defs)

lemma nats_run_flushed: "snd (snd (nats_flush storing_nats (fst nats_run) (snd nats_run))) = Inr ()"
  by (simp add: nats_run_def nats_eval nats_demo_defs default_links_destination_def)

theorem nats_loses_no_record_witness:
  "requested Device [Put Device [1], Put Link [2]] \<subseteq>#
     nats_taken logged (fst (nats_flush storing_nats (fst nats_run) (snd nats_run)))
       (fst (snd (nats_flush storing_nats (fst nats_run) (snd nats_run)))) Device"
proof -
  have run: "run_requests (nats_write_kind storing_nats) (nats_flush storing_nats) [Put Device [1], Put Link [2]] []
      (any_nats (snd (create_sink quiet_io refusing_kafka storing_nats [] nats_dlq_config))) = (fst nats_run, snd nats_run)"
    by (simp add: nats_run_def)
  have flush: "nats_flush storing_nats (fst nats_run) (snd nats_run) =
      (fst (nats_flush storing_nats (fst nats_run) (snd nats_run)),
       fst (snd (nats_flush storing_nats (fst nats_run) (snd nats_run))), Inr ())"
    by (simp add: nats_run_flushed [symmetric])
  show ?thesis
    by (rule subset_mset.trans [OF mset_subset_eq_add_left
          mp [OF conjunct2 [OF nats_loses_no_record [OF storing_nats_lawful nats_run_created run flush]] refl]])
qed

text \<open>C31: Along every sequence of writes and flushes from construction, failed ones included, the byte count of each
  of a NATS sink's buffers is the total size of the records in it, so subtracting a settled record never
  underflows.\<close>

theorem nats_buffers_counted:
  assumes "nats_lawful nl ack_for accepted"
    and "create_sink io kl nl w cfg = (w0, Inr (AnyNats s0))"
    and "run_requests (nats_write_kind nl) (nats_flush nl) rs w0 s0 = (w1, s1)"
    and "b \<in> {ns_buffer s1, ns_links_buffer s1, ns_profiles_buffer s1}"
  shows "pb_bytes b = int (sum_list (map length (pb_entries b)))"
  using nats.run_invar [OF assms(1) create_nats_ok(1) [OF create_sink_nats [OF assms(2)]] assms(3)] assms(4)
  by (auto simp: nats_invar_def pending_ok_def)

theorem nats_buffers_counted_witness: "pb_bytes (ns_buffer (snd nats_run)) = int (sum_list (map length (pb_entries (ns_buffer (snd nats_run)))))"
proof -
  have "run_requests (nats_write_kind storing_nats) (nats_flush storing_nats) [Put Device [1], Put Link [2]] []
      (any_nats (snd (create_sink quiet_io refusing_kafka storing_nats [] nats_dlq_config))) = (fst nats_run, snd nats_run)"
    by (simp add: nats_run_def)
  then show ?thesis
    by (rule nats_buffers_counted [OF storing_nats_lawful nats_run_created]) simp
qed

end
