(* ===== verification/Targets.thy ===== *)
theory Targets
  imports Sink_Core
begin

text \<open>
  Scan targets (\<^verbatim>\<open>model/target.rs\<close>) and the address blocks they stand for (the free functions of
  \<^verbatim>\<open>resolver/mod.rs\<close>). A network of the \<^verbatim>\<open>ipnet\<close> crate is the address and the prefix length it was
  built from; what the crate computes from them (first and last address, membership, text) is the
  parameter \<^verbatim>\<open>IpNetLib\<close>, whose documented behaviour is \<^verbatim>\<open>ipnet_lawful\<close>. Addresses and spans are
  computed at the width the code uses, with the wrap-around of a release build.

  The lemmas read a block as the ascending run of its addresses and give the bounds and counts of
  networks and ranges without wrap-around.
\<close>

section \<open>Definitions\<close>

type_synonym u128 = "128 word"

record Ipv4Net =
  n4_addr :: u32
  n4_prefix_len :: u8

record Ipv6Net =
  n6_addr :: u128
  n6_prefix_len :: u8

datatype IpNet = Net4 Ipv4Net | Net6 Ipv6Net

record IpNetLib =
  in_network4 :: "Ipv4Net \<Rightarrow> u32"
  in_broadcast4 :: "Ipv4Net \<Rightarrow> u32"
  in_network6 :: "Ipv6Net \<Rightarrow> u128"
  in_broadcast6 :: "Ipv6Net \<Rightarrow> u128"
  in_contains :: "IpNet \<Rightarrow> IpAddr \<Rightarrow> bool"
  in_show :: "IpNet \<Rightarrow> string"

datatype Target =
    TargetIp IpAddr
  | TargetCidr IpNet
  | TargetRange IpAddr IpAddr
  | TargetDnsName string

fun show_target :: "IpNetLib \<Rightarrow> Target \<Rightarrow> string" where
  "show_target nets (TargetIp ip) = show_ip ip"
| "show_target nets (TargetCidr net) = in_show nets net"
| "show_target nets (TargetRange start end) = show_ip start @ ''-'' @ show_ip end"
| "show_target nets (TargetDnsName name) = name"

record ResolvedTarget =
  rt_ip :: IpAddr
  rt_original :: Target
  rt_resolved_at :: system_time

definition saturating_add_u128 :: "u128 \<Rightarrow> u128 \<Rightarrow> u128" where
  "saturating_add_u128 a b = (if unat a + unat b < 2 ^ 128 then a + b else - 1)"

fun cidr_bounds :: "IpNetLib \<Rightarrow> IpNet \<Rightarrow> IpAddr \<times> IpAddr \<times> u128" where
  "cidr_bounds nets (Net4 n) =
     (if n4_prefix_len n = 32 then (V4 (in_network4 nets n), V4 (in_network4 nets n), 1)
      else if n4_prefix_len n = 31
      then (let base = in_network4 nets n in (V4 base, V4 (base + 1), 2))
      else (let hosts = ucast (in_broadcast4 nets n - in_network4 nets n - 1) in
        (V4 (in_network4 nets n + 1), V4 (in_broadcast4 nets n - 1), hosts)))"
| "cidr_bounds nets (Net6 n) =
     (let span = in_broadcast6 nets n - in_network6 nets n in
      (V6 (in_network6 nets n), V6 (in_broadcast6 nets n),
       saturating_add_u128 span 1))"

fun range_bounds :: "IpAddr \<Rightarrow> IpAddr \<Rightarrow> (IpAddr \<times> IpAddr \<times> u128) result" where
  "range_bounds (V4 s) (V4 e) =
     (let s_bits = ucast s; e_bits = ucast e in
      if s_bits > e_bits then Inl (EResolver (InvalidRange (show_v4 s) (show_v4 e)))
      else Inr (V4 s, V4 e, e_bits - s_bits + 1))"
| "range_bounds (V6 s) (V6 e) =
     (if s > e then Inl (EResolver (InvalidRange (show_v6 s) (show_v6 e)))
      else Inr (V6 s, V6 e, saturating_add_u128 (e - s) 1))"
| "range_bounds s e = Inl (EResolver (MixedFamilyRange (show_ip s) (show_ip e)))"

fun ensure_target_shape :: "Target \<Rightarrow> unit result" where
  "ensure_target_shape (TargetRange start end) = map_sum id (\<lambda>_. ()) (range_bounds start end)"
| "ensure_target_shape _ = Inr ()"

fun ip_to_bits :: "IpAddr \<Rightarrow> bool \<times> u128" where
  "ip_to_bits (V4 a) = (False, ucast a)"
| "ip_to_bits (V6 a) = (True, a)"

fun block_span :: "IpAddr \<Rightarrow> IpAddr \<Rightarrow> u64" where
  "block_span (V4 a) (V4 b) = ucast (ucast b - ucast a + 1 :: u128)"
| "block_span (V6 a) (V6 b) = ucast (b - a + 1)"
| "block_span _ _ = 0"

fun block_addresses :: "IpAddr \<Rightarrow> IpAddr \<Rightarrow> IpAddr list" where
  "block_addresses (V4 a) (V4 b) = map (\<lambda>bits. V4 (word_of_nat bits)) [unat a..<Suc (unat b)]"
| "block_addresses (V6 a) (V6 b) = map (\<lambda>bits. V6 (word_of_nat bits)) [unat a..<Suc (unat b)]"
| "block_addresses _ _ = []"

definition block_stream :: "IpAddr \<Rightarrow> IpAddr \<Rightarrow> Target \<Rightarrow> system_time \<Rightarrow> ResolvedTarget list" where
  "block_stream first last_ip original now =
     map (\<lambda>ip. \<lparr>rt_ip = ip, rt_original = original, rt_resolved_at = now\<rparr>) (block_addresses first last_ip)"

fun uncovered_loop :: "u128 \<Rightarrow> u128 \<Rightarrow> (u128 \<times> u128) list \<Rightarrow> u128 option" where
  "uncovered_loop hi cursor [] = (if cursor \<le> hi then Some cursor else None)"
| "uncovered_loop hi cursor ((start, end) # ivals) =
     (if start > cursor then Some cursor
      else if end \<ge> cursor then (if end \<ge> hi then None else uncovered_loop hi (end + 1) ivals)
      else uncovered_loop hi cursor ivals)"

definition uncovered_point :: "u128 \<Rightarrow> u128 \<Rightarrow> (u128 \<times> u128) list \<Rightarrow> u128 option" where
  "uncovered_point lo hi ivals = uncovered_loop hi lo (sort_key fst ivals)"

fun net4_interval :: "IpNetLib \<Rightarrow> IpNet \<Rightarrow> (u128 \<times> u128) option" where
  "net4_interval nets (Net4 n) = Some (ucast (in_network4 nets n), ucast (in_broadcast4 nets n))"
| "net4_interval nets (Net6 n) = None"

fun net6_interval :: "IpNetLib \<Rightarrow> IpNet \<Rightarrow> (u128 \<times> u128) option" where
  "net6_interval nets (Net4 n) = None"
| "net6_interval nets (Net6 n) = Some (in_network6 nets n, in_broadcast6 nets n)"

fun first_uncovered_ip :: "IpNetLib \<Rightarrow> IpAddr \<Rightarrow> IpAddr \<Rightarrow> IpNet list \<Rightarrow> IpAddr option" where
  "first_uncovered_ip nets (V4 a) (V4 b) allowlist =
     map_option (\<lambda>bits. V4 (ucast bits))
       (uncovered_point (ucast a) (ucast b) (List.map_filter (net4_interval nets) allowlist))"
| "first_uncovered_ip nets (V6 a) (V6 b) allowlist =
     map_option V6 (uncovered_point a b (List.map_filter (net6_interval nets) allowlist))"
| "first_uncovered_ip nets first last_ip allowlist = Some first"

definition each_address_step :: "IpAddr list \<times> nat \<Rightarrow> nat \<Rightarrow> IpAddr list \<times> nat" where
  "each_address_step st index =
     (case st of (ips, kept) \<Rightarrow>
        if ips ! index \<notin> set (take kept ips)
        then (ips[kept := ips ! index, index := ips ! kept], kept + 1)
        else (ips, kept))"

definition each_address_once :: "IpAddr list \<Rightarrow> IpAddr list" where
  "each_address_once ips =
     (case foldl each_address_step (ips, 0) [0..<length ips] of (ips, kept) \<Rightarrow> take kept ips)"

section \<open>The laws of the network crate\<close>

definition net_ok :: "IpNet \<Rightarrow> bool" where
  "net_ok net = (case net of Net4 n \<Rightarrow> n4_prefix_len n \<le> 32 | Net6 n \<Rightarrow> n6_prefix_len n \<le> 128)"

text \<open>A network of prefix length \<^verbatim>\<open>p\<close> is the aligned run of \<^verbatim>\<open>2 ^ (width - p)\<close> addresses from \<^verbatim>\<open>network\<close> to
  \<^verbatim>\<open>broadcast\<close>, and it contains exactly the addresses of its family in that run.\<close>

definition ipnet_lawful :: "IpNetLib \<Rightarrow> bool" where
  "ipnet_lawful nets \<longleftrightarrow>
     (\<forall>n. n4_prefix_len n \<le> 32 \<longrightarrow>
        unat (in_network4 nets n) + 2 ^ (32 - unat (n4_prefix_len n)) = unat (in_broadcast4 nets n) + 1) \<and>
     (\<forall>n. n6_prefix_len n \<le> 128 \<longrightarrow>
        unat (in_network6 nets n) + 2 ^ (128 - unat (n6_prefix_len n)) = unat (in_broadcast6 nets n) + 1) \<and>
     (\<forall>n ip. in_contains nets (Net4 n) ip \<longleftrightarrow>
        (\<exists>a. ip = V4 a \<and> in_network4 nets n \<le> a \<and> a \<le> in_broadcast4 nets n)) \<and>
     (\<forall>n ip. in_contains nets (Net6 n) ip \<longleftrightarrow>
        (\<exists>a. ip = V6 a \<and> in_network6 nets n \<le> a \<and> a \<le> in_broadcast6 nets n))"

definition target_ok :: "Target \<Rightarrow> bool" where
  "target_ok t = (case t of TargetCidr net \<Rightarrow> net_ok net | _ \<Rightarrow> True)"

definition allowed :: "IpNetLib \<Rightarrow> IpNet list \<Rightarrow> IpAddr \<Rightarrow> bool" where
  "allowed nets allowlist ip = (\<exists>net \<in> set allowlist. in_contains nets net ip)"

text \<open>A block whose ends are of one family and in order.\<close>

fun block_ok :: "IpAddr \<Rightarrow> IpAddr \<Rightarrow> bool" where
  "block_ok (V4 a) (V4 b) = (a \<le> b)"
| "block_ok (V6 a) (V6 b) = (a \<le> b)"
| "block_ok _ _ = False"

fun block_size :: "IpAddr \<Rightarrow> IpAddr \<Rightarrow> nat" where
  "block_size (V4 a) (V4 b) = unat b - unat a + 1"
| "block_size (V6 a) (V6 b) = unat b - unat a + 1"
| "block_size _ _ = 0"

definition between :: "IpAddr \<Rightarrow> IpAddr \<Rightarrow> IpAddr \<Rightarrow> bool" where
  "between first last_ip ip \<longleftrightarrow> fst (ip_to_bits ip) = fst (ip_to_bits first) \<and>
     fst (ip_to_bits ip) = fst (ip_to_bits last_ip) \<and>
     snd (ip_to_bits first) \<le> snd (ip_to_bits ip) \<and> snd (ip_to_bits ip) \<le> snd (ip_to_bits last_ip)"

section \<open>Blocks\<close>

lemma unat_ucast_u32 [simp]: "unat (ucast (a :: u32) :: u128) = unat a"
  using unsigned_less [of a, where 'a = nat] by (simp add: unsigned_ucast_eq take_bit_nat_eq_self)

lemma ucast_u32_le [simp]: "(ucast (a :: u32) :: u128) \<le> ucast b \<longleftrightarrow> a \<le> b"
  by (simp add: word_le_nat_alt)

lemma ucast_u32_less [simp]: "(ucast (a :: u32) :: u128) < ucast b \<longleftrightarrow> a < b"
  by (simp add: word_less_nat_alt)

lemma ucast_u32_back [simp]: "(ucast (ucast (a :: u32) :: u128) :: u32) = a"
  by (simp add: unsigned_ucast_eq take_bit_word_eq_self)

lemma ip_to_bits_inj: "ip_to_bits a = ip_to_bits b \<longleftrightarrow> a = b"
  by (cases a; cases b) (auto dest: arg_cong [of _ _ "ucast :: u128 \<Rightarrow> u32"])

lemma unat_word_of_nat_less: "n \<le> unat (a :: 'a::len word) \<Longrightarrow> unat (word_of_nat n :: 'a word) = n"
  by (simp add: unat_of_nat le_less_trans [OF _ unsigned_less [of a, where 'a = nat]])

lemma length_block_addresses: "block_ok a b \<Longrightarrow> length (block_addresses a b) = block_size a b"
  by (induction a b rule: block_ok.induct) (auto simp: word_le_nat_alt Suc_diff_le)

lemma set_words_upto:
  "(\<lambda>bits. word_of_nat bits :: 'a::len word) ` set [unat a..<Suc (unat b)] = {x. a \<le> x \<and> x \<le> b}"
proof (intro equalityI subsetI)
  fix x :: "'a word" assume "x \<in> {x. a \<le> x \<and> x \<le> b}"
  then have "unat x \<in> set [unat a..<Suc (unat b)]" by (auto simp: word_le_nat_alt)
  then show "x \<in> (\<lambda>bits. word_of_nat bits) ` set [unat a..<Suc (unat b)]"
    by (rule rev_image_eqI) simp
next
  fix x :: "'a word" assume "x \<in> (\<lambda>bits. word_of_nat bits) ` set [unat a..<Suc (unat b)]"
  then obtain n where n: "x = word_of_nat n" "unat a \<le> n" "n \<le> unat b" by (auto simp del: upt_Suc)
  have "unat (word_of_nat n :: 'a word) = n" by (rule unat_word_of_nat_less [OF n(3)])
  then show "x \<in> {x. a \<le> x \<and> x \<le> b}" using n by (simp add: word_le_nat_alt)
qed

lemma set_block_addresses: "set (block_addresses a b) = {ip. between a b ip}"
proof (cases a; cases b)
  fix x y assume "a = V4 x" "b = V4 y"
  moreover have "set (block_addresses (V4 x) (V4 y)) = V4 ` {z. x \<le> z \<and> z \<le> y}"
    unfolding set_words_upto [symmetric] by (simp add: image_image del: upt_Suc)
  moreover have "between (V4 x) (V4 y) ip \<longleftrightarrow> (\<exists>z. ip = V4 z \<and> x \<le> z \<and> z \<le> y)" for ip
    by (cases ip) (auto simp: between_def)
  ultimately show ?thesis by auto
next
  fix x y assume "a = V6 x" "b = V6 y"
  moreover have "set (block_addresses (V6 x) (V6 y)) = V6 ` {z. x \<le> z \<and> z \<le> y}"
    unfolding set_words_upto [symmetric] by (simp add: image_image del: upt_Suc)
  moreover have "between (V6 x) (V6 y) ip \<longleftrightarrow> (\<exists>z. ip = V6 z \<and> x \<le> z \<and> z \<le> y)" for ip
    by (cases ip) (auto simp: between_def)
  ultimately show ?thesis by auto
qed (auto simp: between_def)

lemma unat_diff_Suc:
  "(a :: 'a::len word) \<le> b \<Longrightarrow> unat b - unat a + 1 < 2 ^ LENGTH('a) \<Longrightarrow> unat (b - a + 1) = unat b - unat a + 1"
  by (simp add: unat_word_ariths unat_sub word_le_nat_alt)

lemma unat_ucast_u64: "unat (x :: u128) < 2 ^ 64 \<Longrightarrow> unat (ucast x :: u64) = unat x"
  by (simp add: unsigned_ucast_eq take_bit_nat_eq_self)

lemma block_span_size:
  assumes "block_ok a b" "block_size a b < 2 ^ 64"
  shows "unat (block_span a b) = block_size a b"
proof (cases a; cases b)
  fix x y assume v4: "a = V4 x" "b = V4 y"
  then have "unat ((ucast y :: u128) - ucast x + 1) = unat y - unat x + 1"
    using assms unat_diff_Suc [of "ucast x :: u128" "ucast y"] unsigned_less [of y, where 'a = nat] by simp
  then show ?thesis using v4 assms by (simp add: unat_ucast_u64)
next
  fix x y assume v6: "a = V6 x" "b = V6 y"
  then have "unat (y - x + 1) = unat y - unat x + 1"
    using assms unat_diff_Suc [of x y] by simp
  then show ?thesis using v6 assms by (simp add: unat_ucast_u64)
qed (use assms in auto)

section \<open>The allow-list sweep\<close>

definition covered :: "(u128 \<times> u128) list \<Rightarrow> u128 \<Rightarrow> bool" where
  "covered ivals x = (\<exists>(start, end) \<in> set ivals. start \<le> x \<and> x \<le> end)"

lemma covered_simps [simp]:
  "\<not> covered [] x" "covered ((s, e) # ivals) x \<longleftrightarrow> (s \<le> x \<and> x \<le> e) \<or> covered ivals x"
  by (auto simp: covered_def)

lemma covered_sort_key [simp]: "covered (sort_key f ivals) x = covered ivals x"
  by (simp add: covered_def)

lemma covered_above: "\<forall>iv \<in> set ivals. s \<le> fst iv \<Longrightarrow> x < s \<Longrightarrow> \<not> covered ivals x"
  unfolding covered_def by (auto simp: not_le intro: less_le_trans)

lemma Suc_word_le:
  assumes "(a :: 'a::len word) < b"
  shows "a + 1 \<le> x \<longleftrightarrow> a < x"
proof -
  have "unat a + 1 < 2 ^ LENGTH('a)"
    using assms unsigned_less [of b, where 'a = nat] by (simp only: word_less_nat_alt)
  then have "unat (a + 1) = unat a + 1" by (simp add: unat_word_ariths)
  then show ?thesis by (auto simp: word_le_nat_alt word_less_nat_alt)
qed

lemma uncovered_loop_spec:
  assumes "sorted (map fst ivals)" "cursor \<le> hi"
  shows "case uncovered_loop hi cursor ivals of
      None \<Rightarrow> \<forall>x. cursor \<le> x \<and> x \<le> hi \<longrightarrow> covered ivals x
    | Some c \<Rightarrow> cursor \<le> c \<and> c \<le> hi \<and> \<not> covered ivals c \<and> (\<forall>x. cursor \<le> x \<and> x < c \<longrightarrow> covered ivals x)"
  using assms
proof (induction ivals arbitrary: cursor)
  case (Cons iv ivals)
  obtain s e where iv: "iv = (s, e)" by (cases iv)
  have above: "\<forall>iv \<in> set ivals. s \<le> fst iv" and srt: "sorted (map fst ivals)" using Cons.prems(1) iv by auto
  consider (gap) "cursor < s" | (ends) "s \<le> cursor" "cursor \<le> e" "hi \<le> e"
    | (move) "s \<le> cursor" "cursor \<le> e" "e < hi" | (skip) "s \<le> cursor" "e < cursor" by fastforce
  then show ?case
  proof cases
    case gap
    then show ?thesis using Cons.prems(2) covered_above [OF above gap] by (auto simp: iv)
  next
    case ends
    then show ?thesis by (auto simp: iv)
  next
    case move
    have next_le: "\<And>x. e + 1 \<le> x \<longleftrightarrow> e < x" by (rule Suc_word_le [OF move(3)])
    show ?thesis using Cons.IH [OF srt, of "e + 1"] move
      by (auto simp: iv next_le not_le split: option.splits)
  next
    case skip
    then show ?thesis using Cons.IH [OF srt Cons.prems(2)]
      by (auto simp: iv split: option.splits)
  qed
qed (simp add: not_less)

lemma uncovered_point_spec:
  assumes "lo \<le> hi"
  shows "case uncovered_point lo hi ivals of
      None \<Rightarrow> \<forall>x. lo \<le> x \<and> x \<le> hi \<longrightarrow> covered ivals x
    | Some c \<Rightarrow> lo \<le> c \<and> c \<le> hi \<and> \<not> covered ivals c \<and> (\<forall>x. lo \<le> x \<and> x < c \<longrightarrow> covered ivals x)"
  using uncovered_loop_spec [of "sort_key fst ivals" lo hi] assms
  by (simp add: uncovered_point_def cong: option.case_cong)

lemma find_run:
  fixes a b c :: "'a::len word"
  assumes "a \<le> c" "c \<le> b" "P c" "\<And>x. a \<le> x \<Longrightarrow> x < c \<Longrightarrow> \<not> P x"
  shows "find P (map word_of_nat [unat a..<Suc (unat b)]) = Some c"
proof -
  define xs :: "'a word list" where "xs = map word_of_nat [unat a..<Suc (unat b)]"
  have nth: "xs ! j = word_of_nat (unat a + j)" "unat (xs ! j) = unat a + j" if "j \<le> unat b - unat a" for j
    using that assms(1,2) unfolding xs_def
    by (auto simp: word_le_nat_alt unat_word_of_nat_less [of _ b] simp del: upt_Suc of_nat_add)
  let ?i = "unat c - unat a"
  have "xs ! ?i = c" using nth(1) [of ?i] assms by (simp add: word_le_nat_alt)
  moreover have "\<not> P (xs ! j)" if "j < ?i" for j
    using that assms(1,2) nth(2) [of j] by (intro assms(4)) (auto simp: word_le_nat_alt word_less_nat_alt)
  moreover have "?i < length xs" using assms(1,2) by (simp add: xs_def word_le_nat_alt)
  ultimately show ?thesis using assms(3) unfolding xs_def [symmetric] find_Some_iff
    by (intro exI [of _ ?i]) simp
qed

lemma find_no_run:
  fixes a b :: "'a::len word"
  assumes "\<And>x. a \<le> x \<Longrightarrow> x \<le> b \<Longrightarrow> \<not> P x"
  shows "find P (map word_of_nat [unat a..<Suc (unat b)]) = None"
proof -
  have "\<not> P x" if "x \<in> set (map word_of_nat [unat a..<Suc (unat b)])" for x
    using that assms set_words_upto [of a b] by (auto simp del: upt_Suc)
  then show ?thesis by (auto simp: find_None_iff simp del: upt_Suc)
qed

lemma find_map_inj: "find P (map f xs) = map_option f (find (P \<circ> f) xs)"
  by (induction xs) auto

lemma covered_net4:
  assumes "ipnet_lawful nets"
  shows "covered (List.map_filter (net4_interval nets) allowlist) (ucast a) \<longleftrightarrow> allowed nets allowlist (V4 a)"
proof -
  have "in_contains nets net (V4 a) \<longleftrightarrow>
    (case net4_interval nets net of None \<Rightarrow> False | Some (s, e) \<Rightarrow> s \<le> ucast a \<and> ucast a \<le> e)" for net
    using assms by (cases net) (auto simp: ipnet_lawful_def)
  then show ?thesis
    by (induction allowlist) (auto simp: allowed_def List.map_filter_simps split: option.splits)
qed

lemma covered_net6:
  assumes "ipnet_lawful nets"
  shows "covered (List.map_filter (net6_interval nets) allowlist) a \<longleftrightarrow> allowed nets allowlist (V6 a)"
proof -
  have "in_contains nets net (V6 a) \<longleftrightarrow>
    (case net6_interval nets net of None \<Rightarrow> False | Some (s, e) \<Rightarrow> s \<le> a \<and> a \<le> e)" for net
    using assms by (cases net) (auto simp: ipnet_lawful_def)
  then show ?thesis
    by (induction allowlist) (auto simp: allowed_def List.map_filter_simps split: option.splits)
qed

text \<open>The sweep over the allow-list names exactly the first address of the block's own order that no
  network of the list contains.\<close>

lemma u32_of_u128: "(c :: u128) \<le> ucast (b :: u32) \<Longrightarrow> \<exists>c' :: u32. c = ucast c'"
proof -
  assume "c \<le> ucast b"
  then have "unat c < 2 ^ 32" using unsigned_less [of b, where 'a = nat] by (simp add: word_le_nat_alt)
  then have "ucast (ucast c :: u32) = c"
    by (intro word_unat_eq_iff [THEN iffD2]) (simp add: unsigned_ucast_eq unsigned_take_bit_eq take_bit_nat_eq_self)
  then show ?thesis by metis
qed

lemma first_uncovered_ip_v4:
  assumes lawful: "ipnet_lawful nets" and "a \<le> b"
  shows "first_uncovered_ip nets (V4 a) (V4 b) allowlist =
    find (\<lambda>ip. \<not> allowed nets allowlist ip) (block_addresses (V4 a) (V4 b))"
proof -
  let ?ivals = "List.map_filter (net4_interval nets) allowlist"
  let ?bad = "\<lambda>x. \<not> allowed nets allowlist (V4 x)"
  note cov = covered_net4 [OF lawful, of allowlist]
  have "map_option ucast (uncovered_point (ucast a) (ucast b) ?ivals) =
    find ?bad (map word_of_nat [unat a..<Suc (unat b)])"
  proof (cases "uncovered_point (ucast a) (ucast b) ?ivals")
    case None
    have "\<forall>x. ucast a \<le> x \<and> x \<le> ucast b \<longrightarrow> covered ?ivals x"
      using uncovered_point_spec [of "ucast a" "ucast b" ?ivals] assms(2) None by simp
    then have "allowed nets allowlist (V4 x)" if "a \<le> x" "x \<le> b" for x
      using that by (simp add: cov [symmetric])
    then show ?thesis using None by (subst find_no_run) simp_all
  next
    case (Some c)
    have c: "ucast a \<le> c" "c \<le> ucast b" "\<not> covered ?ivals c" "\<forall>x. ucast a \<le> x \<and> x < c \<longrightarrow> covered ?ivals x"
      using uncovered_point_spec [of "ucast a" "ucast b" ?ivals] assms(2) Some by simp_all
    obtain c' :: u32 where c': "c = ucast c'" using u32_of_u128 [OF c(2)] by blast
    have "find ?bad (map word_of_nat [unat a..<Suc (unat b)]) = Some c'"
      using c by (intro find_run) (simp_all add: c' cov [symmetric])
    then show ?thesis using Some c' by simp
  qed
  then have "map_option V4 (map_option ucast (uncovered_point (ucast a) (ucast b) ?ivals)) =
    map_option V4 (find ?bad (map word_of_nat [unat a..<Suc (unat b)]))" by simp
  then show ?thesis by (simp add: find_map_inj option.map_comp comp_def del: upt_Suc)
qed

lemma first_uncovered_ip_v6:
  assumes lawful: "ipnet_lawful nets" and "a \<le> b"
  shows "first_uncovered_ip nets (V6 a) (V6 b) allowlist =
    find (\<lambda>ip. \<not> allowed nets allowlist ip) (block_addresses (V6 a) (V6 b))"
proof -
  let ?ivals = "List.map_filter (net6_interval nets) allowlist"
  let ?bad = "\<lambda>x. \<not> allowed nets allowlist (V6 x)"
  note cov = covered_net6 [OF lawful, of allowlist]
  have "find ?bad (map word_of_nat [unat a..<Suc (unat b)]) = uncovered_point a b ?ivals"
    using uncovered_point_spec [OF assms(2), of ?ivals]
    by (cases "uncovered_point a b ?ivals") (auto simp: cov simp del: upt_Suc intro!: find_no_run find_run)
  from this [symmetric] show ?thesis by (simp add: find_map_inj option.map_comp comp_def del: upt_Suc)
qed

lemma first_uncovered_ip_find:
  assumes "ipnet_lawful nets" "block_ok first last_ip"
  shows "first_uncovered_ip nets first last_ip allowlist =
    find (\<lambda>ip. \<not> allowed nets allowlist ip) (block_addresses first last_ip)"
  using assms
  by (cases first; cases last_ip)
    (simp_all add: first_uncovered_ip_v4 first_uncovered_ip_v6
      del: first_uncovered_ip.simps block_addresses.simps)

section \<open>Bounds of networks and ranges\<close>

text \<open>The addresses a network is scanned over: all of them, except that an IPv4 network wider than
  a point-to-point pair leaves out its first and last address.\<close>

fun usable_host :: "IpNetLib \<Rightarrow> IpNet \<Rightarrow> IpAddr \<Rightarrow> bool" where
  "usable_host nets (Net4 n) ip = (in_contains nets (Net4 n) ip \<and>
     (n4_prefix_len n < 31 \<longrightarrow> ip \<noteq> V4 (in_network4 nets n) \<and> ip \<noteq> V4 (in_broadcast4 nets n)))"
| "usable_host nets (Net6 n) ip = in_contains nets (Net6 n) ip"

lemma prefix4_cases:
  assumes "n4_prefix_len n \<le> 32"
  obtains "n4_prefix_len n = 32" | "n4_prefix_len n = 31" | "n4_prefix_len n < 31" "unat (n4_prefix_len n) \<le> 30"
proof -
  have "unat (n4_prefix_len n) \<le> 32" using assms by (simp add: word_le_nat_alt)
  then consider "unat (n4_prefix_len n) = 32" | "unat (n4_prefix_len n) = 31" | "unat (n4_prefix_len n) \<le> 30"
    by linarith
  then show thesis
  proof cases
    case 1
    then show thesis using that(1) by (simp add: word_unat_eq_iff)
  next
    case 2
    then show thesis using that(2) by (simp add: word_unat_eq_iff)
  next
    case 3
    then show thesis using that(3) by (simp add: word_less_nat_alt)
  qed
qed

lemma cidr_bounds_v4:
  assumes lawful: "ipnet_lawful nets" and ok: "n4_prefix_len n \<le> 32"
    and b: "cidr_bounds nets (Net4 n) = (first, last_ip, hosts)"
  shows "block_ok first last_ip" "unat hosts = block_size first last_ip"
    "between first last_ip ip \<longleftrightarrow> usable_host nets (Net4 n) ip"
proof -
  let ?lo = "in_network4 nets n" and ?hi = "in_broadcast4 nets n"
  have len: "unat ?lo + 2 ^ (32 - unat (n4_prefix_len n)) = unat ?hi + 1"
    using lawful ok by (auto simp: ipnet_lawful_def)
  have mem: "in_contains nets (Net4 n) ip \<longleftrightarrow> (\<exists>a. ip = V4 a \<and> ?lo \<le> a \<and> a \<le> ?hi)" for ip
    using lawful by (auto simp: ipnet_lawful_def)
  have hi: "unat ?hi < 2 ^ 32" using unsigned_less [of ?hi, where 'a = nat] by simp
  have "block_ok first last_ip \<and> unat hosts = block_size first last_ip \<and>
    (between first last_ip ip \<longleftrightarrow> usable_host nets (Net4 n) ip)"
    using ok
  proof (cases rule: prefix4_cases)
    case 1
    then have "unat ?hi = unat ?lo" using len by simp
    then have "?hi = ?lo" by (simp add: word_unat_eq_iff)
    then show ?thesis using b 1 by (cases ip) (auto simp: mem between_def)
  next
    case 2
    then have h: "unat ?hi = unat ?lo + 1" using len by simp
    then have "?lo + 1 = ?hi" using hi by (simp add: word_unat_eq_iff unat_word_ariths)
    then show ?thesis using b 2 h by (cases ip) (auto simp: mem between_def Let_def word_le_nat_alt)
  next
    case 3
    have "(2::nat) ^ 2 \<le> 2 ^ (32 - unat (n4_prefix_len n))"
      using 3(2) by (intro power_increasing) auto
    then have h: "unat ?lo + 3 \<le> unat ?hi" using len by simp
    have w: "unat (?lo + 1) = unat ?lo + 1" "unat (?hi - 1) = unat ?hi - 1" "unat (?hi - ?lo - 1) = unat ?hi - unat ?lo - 1"
      using h hi by (simp_all add: unat_word_ariths unat_sub_if')
    have neq: "n4_prefix_len n \<noteq> 32" "n4_prefix_len n \<noteq> 31" using 3(1) by auto
    then have bb: "first = V4 (?lo + 1)" "last_ip = V4 (?hi - 1)" "hosts = ucast (?hi - ?lo - 1)"
      using b by (simp_all add: Let_def)
    have "between first last_ip (V4 a) \<longleftrightarrow> usable_host nets (Net4 n) (V4 a)" for a
      using h 3(1) by (auto simp: bb mem between_def word_le_nat_alt word_unat_eq_iff w)
    then have "between first last_ip ip \<longleftrightarrow> usable_host nets (Net4 n) ip"
      by (cases ip) (auto simp: bb mem between_def)
    moreover have "unat ?lo + 1 \<le> unat ?hi - 1" "unat ?hi - unat ?lo - 1 = unat ?hi - 1 - (unat ?lo + 1) + 1"
      using h by linarith+
    ultimately show ?thesis using w by (simp add: bb word_le_nat_alt del: usable_host.simps)
  qed
  then show "block_ok first last_ip" "unat hosts = block_size first last_ip"
    "between first last_ip ip \<longleftrightarrow> usable_host nets (Net4 n) ip" by auto
qed

lemma unat_max_u128: "unat (- 1 :: u128) = 2 ^ 128 - 1"
  by (simp add: unsigned_minus_1_eq_mask mask_eq_exp_minus_1)

lemma unat_saturating_add_u128: "unat (saturating_add_u128 a b) = min (unat a + unat b) (2 ^ 128 - 1)"
  by (auto simp: saturating_add_u128_def unat_max_u128 unat_word_ariths not_less min_def)

lemma cidr_bounds_v6:
  assumes lawful: "ipnet_lawful nets" and ok: "n6_prefix_len n \<le> 128"
    and b: "cidr_bounds nets (Net6 n) = (first, last_ip, hosts)"
  shows "block_ok first last_ip" "unat hosts = min (block_size first last_ip) (2 ^ 128 - 1)"
    "between first last_ip ip \<longleftrightarrow> usable_host nets (Net6 n) ip"
proof -
  let ?lo = "in_network6 nets n" and ?hi = "in_broadcast6 nets n"
  have len: "unat ?lo + 2 ^ (128 - unat (n6_prefix_len n)) = unat ?hi + 1"
    using lawful ok by (auto simp: ipnet_lawful_def)
  have mem: "in_contains nets (Net6 n) ip \<longleftrightarrow> (\<exists>a. ip = V6 a \<and> ?lo \<le> a \<and> a \<le> ?hi)" for ip
    using lawful by (auto simp: ipnet_lawful_def)
  have "(1::nat) \<le> 2 ^ (128 - unat (n6_prefix_len n))" by simp
  then have le: "?lo \<le> ?hi" using len by (simp only: word_le_nat_alt)
  show "block_ok first last_ip" using b le by (auto simp: Let_def)
  show "unat hosts = min (block_size first last_ip) (2 ^ 128 - 1)"
    using b le by (auto simp: Let_def unat_sub unat_saturating_add_u128)
  show "between first last_ip ip \<longleftrightarrow> usable_host nets (Net6 n) ip"
    using b by (cases ip) (auto simp: Let_def mem between_def)
qed

lemma range_bounds_ok:
  assumes "range_bounds s e = Inr (first, last_ip, hosts)"
  shows "first = s" "last_ip = e" "block_ok s e" "unat hosts = min (block_size s e) (2 ^ 128 - 1)"
proof -
  have "first = s \<and> last_ip = e \<and> block_ok s e \<and> unat hosts = min (block_size s e) (2 ^ 128 - 1)"
  proof (cases s; cases e)
    fix a b assume v4: "s = V4 a" "e = V4 b"
    then have "a \<le> b" using assms by (auto simp: Let_def not_less split: if_splits)
    moreover have "unat ((ucast b :: u128) - ucast a + 1) = unat b - unat a + 1"
      using unat_diff_Suc [of "ucast a :: u128" "ucast b"] calculation unsigned_less [of b, where 'a = nat] by simp
    ultimately show ?thesis using assms v4 unsigned_less [of b, where 'a = nat]
      by (auto simp: Let_def not_less split: if_splits)
  next
    fix a b assume v6: "s = V6 a" "e = V6 b"
    then have "a \<le> b" using assms by (auto simp: not_less split: if_splits)
    then show ?thesis using assms v6 by (auto simp: unat_sub unat_saturating_add_u128 not_less split: if_splits)
  qed (use assms in auto)
  then show "first = s" "last_ip = e" "block_ok s e" "unat hosts = min (block_size s e) (2 ^ 128 - 1)" by auto
qed

section \<open>One address once\<close>

lemma each_address_step_prefix:
  assumes "n \<le> length ips"
  shows "\<exists>xs kept. foldl each_address_step (ips, 0) [0..<n] = (xs, kept) \<and> length xs = length ips \<and> kept \<le> n \<and>
    take kept xs = extend_new [] (take n ips) \<and> drop n xs = drop n ips"
  using assms
proof (induction n)
  case (Suc n)
  then obtain xs kept where IH: "foldl each_address_step (ips, 0) [0..<n] = (xs, kept)" "length xs = length ips"
    "kept \<le> n" "take kept xs = extend_new [] (take n ips)" "drop n xs = drop n ips" by auto
  have n: "n < length ips" "n < length xs" using Suc.prems IH(2) by auto
  have x: "xs ! n = ips ! n" using IH(5) n by (metis Cons_nth_drop_Suc list.inject)
  have tl: "drop (Suc n) xs = drop (Suc n) ips" using IH(5) by (metis drop_Suc tl_drop)
  have new: "extend_new [] (take (Suc n) ips) = push_new (take kept xs) (xs ! n)"
    using n by (simp add: take_Suc_conv_app_nth IH(4) x)
  have step: "foldl each_address_step (ips, 0) [0..<Suc n] = each_address_step (xs, kept) n" using IH(1) by simp
  show ?case
  proof (cases "xs ! n \<in> set (take kept xs)")
    case True
    then show ?thesis using IH(2-4) tl new unfolding step by (simp add: each_address_step_def push_new_def)
  next
    case False
    let ?ys = "xs[kept := xs ! n, n := xs ! kept]"
    have "take (Suc kept) ?ys = take kept xs @ [xs ! n]"
      using IH(3) n by (cases "kept = n") (auto simp: take_Suc_conv_app_nth nth_list_update)
    moreover have "drop (Suc n) ?ys = drop (Suc n) xs" using IH(3) by simp
    ultimately show ?thesis using IH(2,3) tl new False unfolding step
      by (simp add: each_address_step_def push_new_def)
  qed
qed simp

lemma each_address_once_eq: "each_address_once ips = extend_new [] ips"
  using each_address_step_prefix [of "length ips" ips] by (auto simp: each_address_once_def)

end
