(* ===== verification/Resolver_Plan.thy ===== *)
theory Resolver_Plan
  imports Targets "HOL-Library.Product_Lexorder"
begin

text \<open>
  \<^verbatim>\<open>ResolvedPlan\<close> of \<^verbatim>\<open>resolver/mod.rs\<close>: one planned spec per target, the stream of addresses it yields,
  the allow-list check, the replay of pinned DNS answers and the sweep that names overlapping specs.
  The warning text built from the overlaps is left out.

  The lemmas give the count and the allow-list verdict in terms of the stream, and show the sweep
  exact: it finds every pair of specs that share an address, up to the twenty it names.
\<close>

section \<open>Definitions\<close>

definition SAMPLED_ADDRESSES :: nat where "SAMPLED_ADDRESSES = 6"
definition REPORTED_OVERLAPS :: nat where "REPORTED_OVERLAPS = 20"

record ResolvedAddresses =
  ra_total :: u64
  ra_sample :: "IpAddr list"

datatype SpecContribution = Addresses ResolvedAddresses | Unresolvable

datatype PlannedSpec =
    Block IpAddr IpAddr Target
  | Resolved "IpAddr list" Target

record ResolvedPlan =
  rp_specs :: "PlannedSpec list"
  rp_resolved_at :: system_time

record AddressInterval =
  iv_v6 :: bool
  iv_lo :: u128
  iv_hi :: u128
  iv_spec :: nat

record Overlaps =
  ol_pairs :: "(Target \<times> Target) list"
  ol_more :: bool

fun spec_hosts :: "PlannedSpec \<Rightarrow> u64" where
  "spec_hosts (Block first last_ip _) = block_span first last_ip"
| "spec_hosts (Resolved ips _) = of_nat (length ips)"

fun spec_original :: "PlannedSpec \<Rightarrow> Target" where
  "spec_original (Block _ _ original) = original"
| "spec_original (Resolved _ original) = original"

definition is_unresolvable :: "PlannedSpec \<Rightarrow> bool" where
  "is_unresolvable spec = (spec_hosts spec = 0)"

definition spec_sample :: "PlannedSpec \<Rightarrow> SpecContribution" where
  "spec_sample spec =
     (if is_unresolvable spec then Unresolvable
      else (case spec of
              Block first last_ip _ \<Rightarrow>
                Addresses \<lparr>ra_total = block_span first last_ip,
                  ra_sample = take SAMPLED_ADDRESSES (block_addresses first last_ip)\<rparr>
            | Resolved ips _ \<Rightarrow>
                Addresses \<lparr>ra_total = of_nat (length ips), ra_sample = take SAMPLED_ADDRESSES ips\<rparr>))"

fun push_intervals :: "PlannedSpec \<Rightarrow> nat \<Rightarrow> AddressInterval list" where
  "push_intervals (Block first last_ip _) spec =
     (case ip_to_bits first of (v6, lo) \<Rightarrow>
        [\<lparr>iv_v6 = v6, iv_lo = lo, iv_hi = snd (ip_to_bits last_ip), iv_spec = spec\<rparr>])"
| "push_intervals (Resolved ips _) spec =
     map (\<lambda>ip. case ip_to_bits ip of (v6, bits) \<Rightarrow>
        \<lparr>iv_v6 = v6, iv_lo = bits, iv_hi = bits, iv_spec = spec\<rparr>) ips"

fun first_not_allowed :: "IpNetLib \<Rightarrow> IpNet list \<Rightarrow> IpAddr list \<Rightarrow> unit result" where
  "first_not_allowed nets allowlist [] = Inr ()"
| "first_not_allowed nets allowlist (ip # ips) =
     (if list_ex (\<lambda>net. in_contains nets net ip) allowlist then first_not_allowed nets allowlist ips
      else Inl (EResolver (TargetNotAllowed ip)))"

fun spec_check_allowed :: "IpNetLib \<Rightarrow> PlannedSpec \<Rightarrow> IpNet list \<Rightarrow> unit result" where
  "spec_check_allowed nets (Block first last_ip _) allowlist =
     (case first_uncovered_ip nets first last_ip allowlist of
        Some ip \<Rightarrow> Inl (EResolver (TargetNotAllowed ip))
      | None \<Rightarrow> Inr ())"
| "spec_check_allowed nets (Resolved ips _) allowlist = first_not_allowed nets allowlist ips"

fun spec_into_stream :: "PlannedSpec \<Rightarrow> system_time \<Rightarrow> ResolvedTarget list" where
  "spec_into_stream (Block first last_ip original) now = block_stream first last_ip original now"
| "spec_into_stream (Resolved ips original) now =
     map (\<lambda>ip. \<lparr>rt_ip = ip, rt_original = original, rt_resolved_at = now\<rparr>) ips"

definition plan_new :: "PlannedSpec list \<Rightarrow> system_time \<Rightarrow> ResolvedPlan" where
  "plan_new specs resolved_at = \<lparr>rp_specs = specs, rp_resolved_at = resolved_at\<rparr>"

definition total_hosts :: "ResolvedPlan \<Rightarrow> u64" where
  "total_hosts plan = foldl (\<lambda>sum spec. saturating_add sum (spec_hosts spec)) 0 (rp_specs plan)"

definition per_target_samples :: "ResolvedPlan \<Rightarrow> (Target \<times> SpecContribution) list" where
  "per_target_samples plan = map (\<lambda>spec. (spec_original spec, spec_sample spec)) (rp_specs plan)"

definition unresolvable_targets :: "ResolvedPlan \<Rightarrow> Target list" where
  "unresolvable_targets plan = map spec_original (filter is_unresolvable (rp_specs plan))"

fun spec_pin :: "PlannedSpec \<Rightarrow> (Target \<times> IpAddr list) option" where
  "spec_pin (Resolved ips (TargetDnsName name)) = Some (TargetDnsName name, ips)"
| "spec_pin _ = None"

definition dns_pins :: "ResolvedPlan \<Rightarrow> (Target \<times> IpAddr list) list" where
  "dns_pins plan = List.map_filter spec_pin (rp_specs plan)"

fun pinned_specs ::
  "IpNetLib \<Rightarrow> Target list \<Rightarrow> (Target \<times> IpAddr list) list \<Rightarrow> PlannedSpec list \<Rightarrow> PlannedSpec list result" where
  "pinned_specs nets [] pins specs = Inr specs"
| "pinned_specs nets (TargetIp ip # targets) pins specs =
     pinned_specs nets targets pins (specs @ [Block ip ip (TargetIp ip)])"
| "pinned_specs nets (TargetCidr net # targets) pins specs =
     (case cidr_bounds nets net of (first, last_ip, _) \<Rightarrow>
        pinned_specs nets targets pins (specs @ [Block first last_ip (TargetCidr net)]))"
| "pinned_specs nets (TargetRange start end # targets) pins specs =
     (case range_bounds start end of
        Inl e \<Rightarrow> Inl e
      | Inr (first, last_ip, _) \<Rightarrow>
          pinned_specs nets targets pins (specs @ [Block first last_ip (TargetRange start end)]))"
| "pinned_specs nets (TargetDnsName name # targets) pins specs =
     (case pins of
        [] \<Rightarrow> Inl (EResume FingerprintMismatch)
      | (pinned_target, ips) # pins \<Rightarrow>
          if pinned_target \<noteq> TargetDnsName name then Inl (EResume FingerprintMismatch)
          else pinned_specs nets targets pins (specs @ [Resolved ips (TargetDnsName name)]))"

definition from_pinned ::
  "IpNetLib \<Rightarrow> system_time \<Rightarrow> Target list \<Rightarrow> (Target \<times> IpAddr list) list \<Rightarrow> ResolvedPlan result" where
  "from_pinned nets now targets pins =
     (case pinned_specs nets targets pins [] of
        Inl e \<Rightarrow> Inl e
      | Inr specs \<Rightarrow> Inr (plan_new specs now))"

definition into_stream :: "ResolvedPlan \<Rightarrow> ResolvedTarget list" where
  "into_stream plan = concat (map (\<lambda>spec. spec_into_stream spec (rp_resolved_at plan)) (rp_specs plan))"

fun check_specs_allowed :: "IpNetLib \<Rightarrow> PlannedSpec list \<Rightarrow> IpNet list \<Rightarrow> unit result" where
  "check_specs_allowed nets [] allowlist = Inr ()"
| "check_specs_allowed nets (spec # specs) allowlist =
     (case spec_check_allowed nets spec allowlist of
        Inl e \<Rightarrow> Inl e
      | Inr _ \<Rightarrow> check_specs_allowed nets specs allowlist)"

definition plan_check_allowed :: "IpNetLib \<Rightarrow> ResolvedPlan \<Rightarrow> IpNet list \<Rightarrow> unit result" where
  "plan_check_allowed nets plan allowlist = check_specs_allowed nets (rp_specs plan) allowlist"

text \<open>The derived order of an interval compares its fields in turn.\<close>

definition interval_key :: "AddressInterval \<Rightarrow> bool \<times> u128 \<times> u128 \<times> nat" where
  "interval_key iv = (iv_v6 iv, iv_lo iv, iv_hi iv, iv_spec iv)"

definition sweep_intervals :: "ResolvedPlan \<Rightarrow> AddressInterval list" where
  "sweep_intervals plan =
     remdups_adj (sort_key interval_key
       (concat (map (\<lambda>(spec, planned). push_intervals planned spec) (enumerate 0 (rp_specs plan)))))"

fun pair_open ::
  "AddressInterval list \<Rightarrow> AddressInterval \<Rightarrow> nat list \<Rightarrow> (nat \<times> nat) list \<Rightarrow> (nat \<times> nat) list \<times> bool" where
  "pair_open intervals interval [] found = (found, False)"
| "pair_open intervals interval (opened # active) found =
     (let other = iv_spec (intervals ! opened) in
      if other = iv_spec interval then pair_open intervals interval active found
      else let pair = (min other (iv_spec interval), max other (iv_spec interval)) in
        if pair \<in> set found then pair_open intervals interval active found
        else if length found \<ge> REPORTED_OVERLAPS then (found, True)
        else pair_open intervals interval active (found @ [pair]))"

definition retain_open :: "AddressInterval list \<Rightarrow> AddressInterval \<Rightarrow> nat list \<Rightarrow> nat list" where
  "retain_open intervals interval active =
     filter (\<lambda>opened. iv_v6 (intervals ! opened) = iv_v6 interval \<and> iv_hi (intervals ! opened) \<ge> iv_lo interval) active"

fun sweep ::
  "AddressInterval list \<Rightarrow> nat list \<Rightarrow> nat list \<Rightarrow> (nat \<times> nat) list \<Rightarrow> (nat \<times> nat) list \<times> bool" where
  "sweep intervals [] active found = (found, False)"
| "sweep intervals (index # rest) active found =
     (let interval = intervals ! index;
          active = retain_open intervals interval active
      in case pair_open intervals interval active found of
           (found, True) \<Rightarrow> (found, True)
         | (found, False) \<Rightarrow> sweep intervals rest (active @ [index]) found)"

definition find_overlaps :: "ResolvedPlan \<Rightarrow> Overlaps" where
  "find_overlaps plan =
     (let intervals = sweep_intervals plan in
      case sweep intervals [0..<length intervals] [] [] of (found, capped) \<Rightarrow>
        \<lparr>ol_pairs = map (\<lambda>(a, b). (spec_original (rp_specs plan ! a), spec_original (rp_specs plan ! b))) (sort found),
         ol_more = capped\<rparr>)"

section \<open>The stream of a plan\<close>

fun spec_addresses :: "PlannedSpec \<Rightarrow> IpAddr list" where
  "spec_addresses (Block first last_ip _) = block_addresses first last_ip"
| "spec_addresses (Resolved ips _) = ips"

fun spec_ok :: "PlannedSpec \<Rightarrow> bool" where
  "spec_ok (Block first last_ip _) = (block_ok first last_ip \<and> block_size first last_ip < 2 ^ 64)"
| "spec_ok (Resolved ips _) = (length ips < 2 ^ 64)"

definition plan_addresses :: "ResolvedPlan \<Rightarrow> IpAddr list" where
  "plan_addresses plan = concat (map spec_addresses (rp_specs plan))"

lemma spec_stream_ips: "map rt_ip (spec_into_stream spec now) = spec_addresses spec"
  by (cases spec) (simp_all add: block_stream_def comp_def)

lemma into_stream_ips: "map rt_ip (into_stream plan) = plan_addresses plan"
  by (simp add: into_stream_def plan_addresses_def map_concat spec_stream_ips comp_def)

lemma into_stream_length: "length (into_stream plan) = length (plan_addresses plan)"
  by (metis into_stream_ips length_map)

lemma spec_hosts_length: "spec_ok spec \<Longrightarrow> unat (spec_hosts spec) = length (spec_addresses spec)"
  by (cases spec) (auto simp: block_span_size length_block_addresses unat_of_nat)

lemma total_hosts_length:
  assumes "\<forall>spec \<in> set (rp_specs plan). spec_ok spec"
  shows "unat (total_hosts plan) = min (length (into_stream plan)) (2 ^ 64 - 1)"
proof -
  have "unat (foldl (\<lambda>sum spec. saturating_add sum (spec_hosts spec)) acc specs) =
      min (unat acc + length (concat (map spec_addresses specs))) (2 ^ 64 - 1)"
    if "\<forall>spec \<in> set specs. spec_ok spec" for specs acc
    using that unat_u64_bound [of acc]
    by (induction specs arbitrary: acc) (auto simp: unat_saturating_add spec_hosts_length min_def unat_u64_bound)
  then show ?thesis using assms by (simp add: total_hosts_def into_stream_length plan_addresses_def)
qed

definition allow_verdict :: "IpNetLib \<Rightarrow> IpNet list \<Rightarrow> IpAddr list \<Rightarrow> unit result" where
  "allow_verdict nets allowlist ips =
     (case find (\<lambda>ip. \<not> allowed nets allowlist ip) ips of
        Some ip \<Rightarrow> Inl (EResolver (TargetNotAllowed ip))
      | None \<Rightarrow> Inr ())"

lemma allow_verdict_Nil [simp]: "allow_verdict nets allowlist [] = Inr ()"
  by (simp add: allow_verdict_def)

lemma allow_verdict_append:
  "allow_verdict nets allowlist (xs @ ys) =
    (case allow_verdict nets allowlist xs of Inl e \<Rightarrow> Inl e | Inr _ \<Rightarrow> allow_verdict nets allowlist ys)"
  by (induction xs) (auto simp: allow_verdict_def)

lemma first_not_allowed_verdict: "first_not_allowed nets allowlist ips = allow_verdict nets allowlist ips"
  by (induction ips) (auto simp: allow_verdict_def allowed_def list_ex_iff)

lemma plan_check_allowed_verdict:
  assumes "ipnet_lawful nets" "\<forall>spec \<in> set (rp_specs plan). spec_ok spec"
  shows "plan_check_allowed nets plan allowlist = allow_verdict nets allowlist (plan_addresses plan)"
proof -
  have one: "spec_check_allowed nets spec allowlist = allow_verdict nets allowlist (spec_addresses spec)" if "spec_ok spec" for spec
    using that assms(1)
    by (cases spec) (simp_all add: first_not_allowed_verdict first_uncovered_ip_find allow_verdict_def)
  have "check_specs_allowed nets specs allowlist = allow_verdict nets allowlist (concat (map spec_addresses specs))"
    if "\<forall>spec \<in> set specs. spec_ok spec" for specs
    using that by (induction specs) (auto simp: one allow_verdict_append split: sum.splits)
  then show ?thesis using assms(2) by (simp add: plan_check_allowed_def plan_addresses_def)
qed

section \<open>The overlap sweep\<close>

definition meets :: "AddressInterval \<Rightarrow> AddressInterval \<Rightarrow> bool" where
  "meets x y \<longleftrightarrow> iv_v6 x = iv_v6 y \<and> iv_lo x \<le> iv_hi y \<and> iv_lo y \<le> iv_hi x"

definition spec_pair :: "AddressInterval \<Rightarrow> AddressInterval \<Rightarrow> nat \<times> nat" where
  "spec_pair x y = (min (iv_spec x) (iv_spec y), max (iv_spec x) (iv_spec y))"

definition met_with :: "AddressInterval \<Rightarrow> AddressInterval set \<Rightarrow> (nat \<times> nat) set" where
  "met_with x ys = {spec_pair y x | y. y \<in> ys \<and> iv_spec y \<noteq> iv_spec x}"

definition pairs_upto :: "AddressInterval list \<Rightarrow> nat \<Rightarrow> (nat \<times> nat) set" where
  "pairs_upto ivs n =
     {spec_pair (ivs ! i) (ivs ! j) | i j. i < j \<and> j < n \<and> iv_spec (ivs ! i) \<noteq> iv_spec (ivs ! j) \<and> meets (ivs ! i) (ivs ! j)}"

text \<open>What a run that knows of the pairs \<^verbatim>\<open>P\<close> may have found.\<close>

definition found_of :: "(nat \<times> nat) set \<Rightarrow> (nat \<times> nat) list \<times> bool \<Rightarrow> bool" where
  "found_of P r \<longleftrightarrow> (case r of (found, capped) \<Rightarrow> distinct found \<and> length found \<le> REPORTED_OVERLAPS \<and>
     (if capped then length found = REPORTED_OVERLAPS \<and> set found \<subset> P else set found = P))"

lemma met_with_Cons:
  "met_with x (insert y ys) = (if iv_spec y = iv_spec x then met_with x ys else insert (spec_pair y x) (met_with x ys))"
  by (auto simp: met_with_def)

lemma pair_open_found:
  assumes "distinct found" "length found \<le> REPORTED_OVERLAPS"
  shows "found_of (set found \<union> met_with x ((!) ivs ` set active)) (pair_open ivs x active found)"
  using assms
proof (induction active arbitrary: found)
  case Nil
  then show ?case by (simp add: found_of_def met_with_def)
next
  case (Cons i active)
  let ?p = "spec_pair (ivs ! i) x"
  consider (same) "iv_spec (ivs ! i) = iv_spec x" | (known) "iv_spec (ivs ! i) \<noteq> iv_spec x" "?p \<in> set found"
    | (full) "iv_spec (ivs ! i) \<noteq> iv_spec x" "?p \<notin> set found" "length found = REPORTED_OVERLAPS"
    | (room) "iv_spec (ivs ! i) \<noteq> iv_spec x" "?p \<notin> set found" "length found < REPORTED_OVERLAPS"
    using Cons.prems(2) by linarith
  then show ?case
  proof cases
    case same
    then show ?thesis using Cons by (simp add: met_with_Cons)
  next
    case known
    then show ?thesis using Cons by (simp add: met_with_Cons Let_def spec_pair_def insert_absorb)
  next
    case full
    then show ?thesis using Cons.prems by (auto simp: met_with_Cons Let_def spec_pair_def found_of_def)
  next
    case room
    then have "pair_open ivs x (i # active) found = pair_open ivs x active (found @ [?p])"
      by (simp add: Let_def spec_pair_def)
    then show ?thesis using Cons.IH [of "found @ [?p]"] Cons.prems room by (simp add: met_with_Cons)
  qed
qed

definition swept :: "AddressInterval list \<Rightarrow> bool" where
  "swept ivs \<longleftrightarrow> sorted (map interval_key ivs) \<and> (\<forall>iv \<in> set ivs. iv_lo iv \<le> iv_hi iv)"

lemma swept_order:
  assumes "swept ivs" "i \<le> j" "j < length ivs"
  shows "iv_v6 (ivs ! i) \<le> iv_v6 (ivs ! j)" "iv_v6 (ivs ! i) = iv_v6 (ivs ! j) \<Longrightarrow> iv_lo (ivs ! i) \<le> iv_lo (ivs ! j)"
proof -
  have "interval_key (ivs ! i) \<le> interval_key (ivs ! j)"
    using assms sorted_nth_mono [of "map interval_key ivs" i j] by (simp add: swept_def)
  then show "iv_v6 (ivs ! i) \<le> iv_v6 (ivs ! j)" "iv_v6 (ivs ! i) = iv_v6 (ivs ! j) \<Longrightarrow> iv_lo (ivs ! i) \<le> iv_lo (ivs ! j)"
    by (auto simp: interval_key_def less_eq_prod_def)
qed

lemma swept_meets:
  assumes "swept ivs" "i < j" "j < length ivs"
  shows "meets (ivs ! i) (ivs ! j) \<longleftrightarrow> iv_v6 (ivs ! i) = iv_v6 (ivs ! j) \<and> iv_lo (ivs ! j) \<le> iv_hi (ivs ! i)"
proof -
  have "iv_lo (ivs ! j) \<le> iv_hi (ivs ! j)" using assms by (simp add: swept_def)
  then show ?thesis using swept_order(2) [of ivs i j] assms by (auto simp: meets_def)
qed

lemma swept_closed:
  assumes "swept ivs" "i < j" "j \<le> k" "k < length ivs" "\<not> meets (ivs ! i) (ivs ! j)"
  shows "\<not> meets (ivs ! i) (ivs ! k)"
proof
  assume m: "meets (ivs ! i) (ivs ! k)"
  then have ik: "iv_v6 (ivs ! i) = iv_v6 (ivs ! k)" by (simp add: meets_def)
  have ij: "iv_v6 (ivs ! i) = iv_v6 (ivs ! j)"
  proof (rule antisym)
    show "iv_v6 (ivs ! i) \<le> iv_v6 (ivs ! j)" using assms by (intro swept_order(1)) simp_all
    show "iv_v6 (ivs ! j) \<le> iv_v6 (ivs ! i)" unfolding ik using assms by (intro swept_order(1)) simp_all
  qed
  have "iv_lo (ivs ! j) \<le> iv_lo (ivs ! k)" using assms ij ik by (intro swept_order(2)) simp_all
  also have "\<dots> \<le> iv_hi (ivs ! i)" using m by (simp add: meets_def)
  finally show False using assms ij swept_meets [of ivs i j] by simp
qed

lemma pairs_upto_Suc:
  "pairs_upto ivs (Suc n) = pairs_upto ivs n \<union> met_with (ivs ! n) ((!) ivs ` {i. i < n \<and> meets (ivs ! i) (ivs ! n)})"
  by (auto simp: pairs_upto_def met_with_def less_Suc_eq)

lemma pairs_upto_mono: "n \<le> m \<Longrightarrow> pairs_upto ivs n \<subseteq> pairs_upto ivs m"
  by (rule lift_Suc_mono_le) (simp_all add: pairs_upto_Suc)

lemma sweep_found:
  assumes "swept ivs" "n \<le> length ivs" "set active \<subseteq> {..<n}"
    "\<And>i k. i < n \<Longrightarrow> i \<notin> set active \<Longrightarrow> n \<le> k \<Longrightarrow> k < length ivs \<Longrightarrow> \<not> meets (ivs ! i) (ivs ! k)"
    "found_of (pairs_upto ivs n) (found, False)"
  shows "found_of (pairs_upto ivs (length ivs)) (sweep ivs [n..<length ivs] active found)"
  using assms
proof (induction "length ivs - n" arbitrary: n active found)
  case 0
  then show ?case by simp
next
  case (Suc d)
  then have n: "n < length ivs" by simp
  let ?x = "ivs ! n" and ?open = "retain_open ivs (ivs ! n) active"
  have "i \<in> set ?open \<longleftrightarrow> i < n \<and> meets (ivs ! i) ?x" for i
    using Suc.prems(3) Suc.prems(4) [of i n] swept_meets [OF Suc.prems(1) _ n, of i] n
    by (auto simp: retain_open_def)
  then have op: "set ?open = {i. i < n \<and> meets (ivs ! i) ?x}" by blast
  have P: "set found \<union> met_with ?x ((!) ivs ` set ?open) = pairs_upto ivs (Suc n)"
    using Suc.prems(5) by (simp add: found_of_def pairs_upto_Suc op)
  obtain found' capped where r: "pair_open ivs ?x ?open found = (found', capped)" by fastforce
  have f: "found_of (pairs_upto ivs (Suc n)) (found', capped)"
    using pair_open_found [of found ?x ivs ?open] Suc.prems(5) P r by (simp add: found_of_def)
  have range: "[n..<length ivs] = n # [Suc n..<length ivs]" using n by (rule upt_conv_Cons)
  show ?case
  proof (cases capped)
    case True
    then show ?thesis using f pairs_upto_mono [of "Suc n" "length ivs" ivs] n r
      by (auto simp: range found_of_def Let_def)
  next
    case False
    have closed: "\<not> meets (ivs ! i) (ivs ! k)"
      if "i < Suc n" "i \<notin> set (?open @ [n])" "Suc n \<le> k" "k < length ivs" for i k
      using that swept_closed [OF Suc.prems(1), of i n k] by (auto simp: op)
    have "found_of (pairs_upto ivs (length ivs)) (sweep ivs [Suc n..<length ivs] (?open @ [n]) found')"
    proof (rule Suc.hyps(1) [OF _ Suc.prems(1) _ _ closed])
      show "d = length ivs - Suc n" "Suc n \<le> length ivs" using Suc.hyps(2) n by simp_all
      show "set (?open @ [n]) \<subseteq> {..<Suc n}" by (auto simp: op)
      show "found_of (pairs_upto ivs (Suc n)) (found', False)" using f False by simp
    qed
    then show ?thesis using r False by (simp add: range Let_def)
  qed
qed

text \<open>The intervals of a spec cover exactly its addresses.\<close>

definition iv_has :: "AddressInterval \<Rightarrow> IpAddr \<Rightarrow> bool" where
  "iv_has iv ip \<longleftrightarrow> fst (ip_to_bits ip) = iv_v6 iv \<and> iv_lo iv \<le> snd (ip_to_bits ip) \<and> snd (ip_to_bits ip) \<le> iv_hi iv"

lemma push_intervals_spec: "iv \<in> set (push_intervals spec s) \<Longrightarrow> iv_spec iv = s"
  by (cases spec) (auto simp: case_prod_beta)

lemma block_ok_bits: "block_ok a b \<Longrightarrow> fst (ip_to_bits a) = fst (ip_to_bits b) \<and> snd (ip_to_bits a) \<le> snd (ip_to_bits b)"
  by (cases a; cases b) simp_all

lemma push_intervals_addresses:
  assumes "spec_ok spec"
  shows "ip \<in> set (spec_addresses spec) \<longleftrightarrow> (\<exists>iv \<in> set (push_intervals spec s). iv_has iv ip)"
proof (cases spec)
  case (Block a b t)
  then show ?thesis using block_ok_bits [of a b] assms
    by (auto simp: set_block_addresses between_def iv_has_def case_prod_beta)
next
  case (Resolved ips t)
  have "iv_has (case ip_to_bits x of (v6, bits) \<Rightarrow> \<lparr>iv_v6 = v6, iv_lo = bits, iv_hi = bits, iv_spec = s\<rparr>) ip \<longleftrightarrow> x = ip" for x
    unfolding ip_to_bits_inj [symmetric] by (auto simp: iv_has_def prod_eq_iff case_prod_beta)
  then show ?thesis using Resolved by auto
qed

lemma push_intervals_first:
  assumes "spec_ok spec" "iv \<in> set (push_intervals spec s)"
  shows "iv_lo iv \<le> iv_hi iv" "\<exists>ip. ip_to_bits ip = (iv_v6 iv, iv_lo iv)"
proof -
  have "iv_lo iv \<le> iv_hi iv \<and> (\<exists>ip. ip_to_bits ip = (iv_v6 iv, iv_lo iv))"
  proof (cases spec)
    case (Block a b t)
    then have "iv_lo iv \<le> iv_hi iv" "ip_to_bits a = (iv_v6 iv, iv_lo iv)"
      using assms block_ok_bits [of a b] by (auto simp: case_prod_beta prod_eq_iff)
    then show ?thesis by blast
  next
    case (Resolved ips t)
    then obtain ip where "ip_to_bits ip = (iv_v6 iv, iv_lo iv)" "iv_lo iv \<le> iv_hi iv"
      using assms by (auto simp: case_prod_beta)
    then show ?thesis by blast
  qed
  then show "iv_lo iv \<le> iv_hi iv" "\<exists>ip. ip_to_bits ip = (iv_v6 iv, iv_lo iv)" by auto
qed

lemma meets_common:
  assumes "iv_lo x \<le> iv_hi x" "iv_lo y \<le> iv_hi y"
    "\<exists>ip. ip_to_bits ip = (iv_v6 x, iv_lo x)" "\<exists>ip. ip_to_bits ip = (iv_v6 y, iv_lo y)"
  shows "meets x y \<longleftrightarrow> (\<exists>ip. iv_has x ip \<and> iv_has y ip)"
proof
  assume m: "meets x y"
  show "\<exists>ip. iv_has x ip \<and> iv_has y ip"
  proof (cases "iv_lo x \<le> iv_lo y")
    case True
    obtain ip where "ip_to_bits ip = (iv_v6 y, iv_lo y)" using assms(4) by blast
    then have "iv_has x ip \<and> iv_has y ip" using m assms(2) True by (simp add: meets_def iv_has_def)
    then show ?thesis by blast
  next
    case False
    then have "iv_lo y \<le> iv_lo x" by simp
    moreover obtain ip where "ip_to_bits ip = (iv_v6 x, iv_lo x)" using assms(3) by blast
    ultimately have "iv_has x ip \<and> iv_has y ip" using m assms(1) by (simp add: meets_def iv_has_def)
    then show ?thesis by blast
  qed
next
  assume "\<exists>ip. iv_has x ip \<and> iv_has y ip"
  then obtain ip where ip: "iv_has x ip" "iv_has y ip" by blast
  have "iv_lo x \<le> iv_hi y" "iv_lo y \<le> iv_hi x"
    by (rule order_trans [of _ "snd (ip_to_bits ip)"]; use ip in \<open>simp add: iv_has_def\<close>)+
  then show "meets x y" using ip by (simp add: meets_def iv_has_def)
qed

lemma meets_sym: "meets x y = meets y x"
  by (auto simp: meets_def)

lemma spec_pair_sym: "spec_pair x y = spec_pair y x"
  by (simp add: spec_pair_def min.commute max.commute)

lemma pairs_upto_set:
  "pairs_upto ivs (length ivs) =
    {spec_pair x y | x y. x \<in> set ivs \<and> y \<in> set ivs \<and> iv_spec x \<noteq> iv_spec y \<and> meets x y}" (is "_ = ?R")
proof (intro equalityI subsetI)
  fix p assume "p \<in> pairs_upto ivs (length ivs)"
  then obtain i j where "p = spec_pair (ivs ! i) (ivs ! j)" "i < j" "j < length ivs"
    "iv_spec (ivs ! i) \<noteq> iv_spec (ivs ! j)" "meets (ivs ! i) (ivs ! j)" unfolding pairs_upto_def by blast
  moreover from this have "ivs ! i \<in> set ivs" "ivs ! j \<in> set ivs" by simp_all
  ultimately show "p \<in> ?R" by blast
next
  fix p assume "p \<in> ?R"
  then obtain x y where xy: "x \<in> set ivs" "y \<in> set ivs" "p = spec_pair x y" "iv_spec x \<noteq> iv_spec y" "meets x y"
    by blast
  obtain i j where "i < length ivs" "ivs ! i = x" "j < length ivs" "ivs ! j = y"
    using xy(1,2) by (auto simp: in_set_conv_nth)
  with xy have ij: "i < length ivs" "j < length ivs" "p = spec_pair (ivs ! i) (ivs ! j)"
    "iv_spec (ivs ! i) \<noteq> iv_spec (ivs ! j)" "meets (ivs ! i) (ivs ! j)" by simp_all
  then consider "i < j" | "j < i" by (metis nat_neq_iff)
  then show "p \<in> pairs_upto ivs (length ivs)"
  proof cases
    case 1
    then show ?thesis using ij unfolding pairs_upto_def by blast
  next
    case 2
    moreover have "p = spec_pair (ivs ! j) (ivs ! i)" "meets (ivs ! j) (ivs ! i)"
      using ij by (simp_all add: meets_sym spec_pair_sym)
    ultimately show ?thesis using ij unfolding pairs_upto_def by (intro CollectI exI [of _ j] exI [of _ i]) simp
  qed
qed

definition overlapping :: "ResolvedPlan \<Rightarrow> (nat \<times> nat) set" where
  "overlapping plan =
     {(a, b). a < b \<and> b < length (rp_specs plan) \<and>
        set (spec_addresses (rp_specs plan ! a)) \<inter> set (spec_addresses (rp_specs plan ! b)) \<noteq> {}}"

lemma set_sweep_intervals:
  "iv \<in> set (sweep_intervals plan) \<longleftrightarrow>
    iv_spec iv < length (rp_specs plan) \<and> iv \<in> set (push_intervals (rp_specs plan ! iv_spec iv) (iv_spec iv))"
proof -
  have "iv \<in> set (sweep_intervals plan) \<longleftrightarrow> (\<exists>n < length (rp_specs plan). iv \<in> set (push_intervals (rp_specs plan ! n) n))"
    by (force simp: sweep_intervals_def in_set_enumerate_eq)
  then show ?thesis using push_intervals_spec by blast
qed

lemma sorted_map_remdups_adj: "sorted (map f xs) \<Longrightarrow> sorted (map f (remdups_adj xs))"
  by (induction xs rule: remdups_adj.induct) auto

lemma sweep_intervals_swept:
  assumes "\<forall>spec \<in> set (rp_specs plan). spec_ok spec"
  shows "swept (sweep_intervals plan)"
proof -
  have "sorted (map interval_key (sweep_intervals plan))"
    unfolding sweep_intervals_def by (rule sorted_map_remdups_adj) simp
  moreover have "iv_lo iv \<le> iv_hi iv" if "iv \<in> set (sweep_intervals plan)" for iv
    using that assms push_intervals_first(1) unfolding set_sweep_intervals by (metis nth_mem)
  ultimately show ?thesis by (simp add: swept_def)
qed

lemma pairs_sweep_intervals:
  assumes ok: "\<forall>spec \<in> set (rp_specs plan). spec_ok spec"
  shows "pairs_upto (sweep_intervals plan) (length (sweep_intervals plan)) = overlapping plan"
proof (intro equalityI subsetI)
  let ?spec = "\<lambda>n. rp_specs plan ! n"
  have spec: "spec_ok (?spec n)" if "n < length (rp_specs plan)" for n using ok that by simp
  have meets: "meets x y \<longleftrightarrow> (\<exists>ip. iv_has x ip \<and> iv_has y ip)"
    if "x \<in> set (sweep_intervals plan)" "y \<in> set (sweep_intervals plan)" for x y
    using that spec unfolding set_sweep_intervals by (intro meets_common) (blast intro: push_intervals_first)+
  {
    fix p assume "p \<in> pairs_upto (sweep_intervals plan) (length (sweep_intervals plan))"
    then obtain x y where xy: "x \<in> set (sweep_intervals plan)" "y \<in> set (sweep_intervals plan)"
      "p = spec_pair x y" "iv_spec x \<noteq> iv_spec y" "meets x y" unfolding pairs_upto_set by blast
    obtain ip where "iv_has x ip" "iv_has y ip" using meets xy by blast
    then have "ip \<in> set (spec_addresses (?spec (iv_spec x)))" "ip \<in> set (spec_addresses (?spec (iv_spec y)))"
      "iv_spec x < length (rp_specs plan)" "iv_spec y < length (rp_specs plan)"
      using xy(1,2) spec push_intervals_addresses unfolding set_sweep_intervals by blast+
    then show "p \<in> overlapping plan" using xy(3,4)
      by (cases "iv_spec x < iv_spec y") (auto simp: overlapping_def spec_pair_def min_def max_def)
  next
    fix p assume "p \<in> overlapping plan"
    then obtain a b ip where p: "p = (a, b)" "a < b" "b < length (rp_specs plan)"
      "ip \<in> set (spec_addresses (?spec a))" "ip \<in> set (spec_addresses (?spec b))" unfolding overlapping_def by blast
    then obtain x y where xy: "x \<in> set (push_intervals (?spec a) a)" "iv_has x ip"
      "y \<in> set (push_intervals (?spec b) b)" "iv_has y ip"
      using spec push_intervals_addresses by (metis order.strict_trans)
    have idx: "iv_spec x = a" "iv_spec y = b" using xy push_intervals_spec by blast+
    then have mem: "x \<in> set (sweep_intervals plan)" "y \<in> set (sweep_intervals plan)"
      using xy p by (simp_all add: set_sweep_intervals)
    moreover have "meets x y" using meets [OF mem] xy by blast
    moreover have "p = spec_pair x y" using p idx by (simp add: spec_pair_def)
    moreover have "iv_spec x \<noteq> iv_spec y" using p idx by simp
    ultimately show "p \<in> pairs_upto (sweep_intervals plan) (length (sweep_intervals plan))"
      unfolding pairs_upto_set by blast
  }
qed

lemma finite_overlapping: "finite (overlapping plan)"
  by (rule finite_subset [of _ "{..<length (rp_specs plan)} \<times> {..<length (rp_specs plan)}"])
    (auto simp: overlapping_def)

text \<open>C36: For a plan of well-formed specs the sorted sweep over address intervals is exact: the pairs it
  names are pairs of specs that share an address, without repetition and in order, it names all of
  them when there are at most twenty and exactly twenty otherwise, and \<^verbatim>\<open>more\<close> says which.\<close>

theorem find_overlaps_exact:
  assumes "\<forall>spec \<in> set (rp_specs plan). spec_ok spec"
  shows "\<exists>found. ol_pairs (find_overlaps plan) =
      map (\<lambda>(a, b). (spec_original (rp_specs plan ! a), spec_original (rp_specs plan ! b))) found \<and>
    sorted found \<and> distinct found \<and> set found \<subseteq> overlapping plan \<and>
    length found = min (card (overlapping plan)) REPORTED_OVERLAPS \<and>
    ol_more (find_overlaps plan) = (REPORTED_OVERLAPS < card (overlapping plan))"
proof -
  let ?ivs = "sweep_intervals plan"
  obtain found capped where r: "sweep ?ivs [0..<length ?ivs] [] [] = (found, capped)" by fastforce
  have "found_of (overlapping plan) (found, capped)"
    unfolding r [symmetric] pairs_sweep_intervals [OF assms, symmetric]
    by (rule sweep_found [OF sweep_intervals_swept [OF assms]]) (auto simp: found_of_def pairs_upto_def)
  then have f: "distinct found" "length found \<le> REPORTED_OVERLAPS"
    "if capped then length found = REPORTED_OVERLAPS \<and> set found \<subset> overlapping plan else set found = overlapping plan"
    by (simp_all add: found_of_def)
  have len: "length found = card (set found)" using f(1) by (simp add: distinct_card)
  have "set found \<subseteq> overlapping plan" using f(3) by (auto split: if_splits)
  moreover have "length found = min (card (overlapping plan)) REPORTED_OVERLAPS \<and>
    capped = (REPORTED_OVERLAPS < card (overlapping plan))"
    using f(2,3) len psubset_card_mono [OF finite_overlapping, of "set found" plan] by (auto split: if_splits)
  ultimately show ?thesis using r f(1)
    by (intro exI [of _ "sort found"]) (simp add: find_overlaps_def)
qed

definition demo_plan :: ResolvedPlan where
  "demo_plan = \<lparr>rp_specs = [Block (V4 1) (V4 9) (TargetIp (V4 1)), Resolved [V4 20, V4 7] (TargetDnsName ''a'')],
     rp_resolved_at = 0\<rparr>"

theorem find_overlaps_exact_witness:
  "\<exists>found. ol_pairs (find_overlaps demo_plan) =
      map (\<lambda>(a, b). (spec_original (rp_specs demo_plan ! a), spec_original (rp_specs demo_plan ! b))) found \<and>
    sorted found \<and> distinct found \<and> set found \<subseteq> overlapping demo_plan \<and>
    length found = min (card (overlapping demo_plan)) REPORTED_OVERLAPS \<and>
    ol_more (find_overlaps demo_plan) = (REPORTED_OVERLAPS < card (overlapping demo_plan))"
  by (rule find_overlaps_exact) (simp add: demo_plan_def)

end
