(* ===== verification/Resolvers.thy ===== *)
theory Resolvers
  imports Resolver_Plan
begin

text \<open>
  The \<^verbatim>\<open>Resolver\<close> trait with its default methods, the DNS resolver and its failure classification
  (\<^verbatim>\<open>resolver/mod.rs\<close>, \<^verbatim>\<open>resolver/classify.rs\<close>), the guarded resolver (\<^verbatim>\<open>resolver/guarded.rs\<close>) and the
  resolution of a scenario. The hickory client is the parameter \<^verbatim>\<open>DnsLib\<close>: name parsing and one lookup per
  family, threaded through a world; a failed lookup carries hickory's verdict whether the answer was
  "no records". The two concurrent family lookups are taken in the order they are joined.

  The lemmas give what a target contributes to the stream; the properties state the guard exactly,
  the stream of a plan, and that a resume replays the plan it was pinned from.
\<close>

section \<open>Definitions\<close>

definition DEFAULT_HOST_LIMIT :: u64 where "DEFAULT_HOST_LIMIT = 65536"

subsection \<open>The trait\<close>

record 'w Resolver =
  rv_resolve :: "'w \<Rightarrow> Target \<Rightarrow> 'w \<times> ResolvedTarget list result"
  rv_plan :: "'w \<Rightarrow> Target list \<Rightarrow> 'w \<times> ResolvedPlan result"

fun default_specs ::
  "('w \<Rightarrow> Target \<Rightarrow> 'w \<times> ResolvedTarget list result) \<Rightarrow> 'w \<Rightarrow> Target list \<Rightarrow> PlannedSpec list \<Rightarrow>
   'w \<times> PlannedSpec list result" where
  "default_specs resolve w [] specs = (w, Inr specs)"
| "default_specs resolve w (target # targets) specs =
     (case resolve w target of
        (w, Inl e) \<Rightarrow> (w, Inl e)
      | (w, Inr rts) \<Rightarrow> default_specs resolve w targets (specs @ [Resolved (map rt_ip rts) target]))"

definition plan_default ::
  "('w \<Rightarrow> Target \<Rightarrow> 'w \<times> ResolvedTarget list result) \<Rightarrow> system_time \<Rightarrow> 'w \<Rightarrow> Target list \<Rightarrow> 'w \<times> ResolvedPlan result" where
  "plan_default resolve now w targets =
     (case default_specs resolve w targets [] of
        (w, Inl e) \<Rightarrow> (w, Inl e)
      | (w, Inr specs) \<Rightarrow> (w, Inr (plan_new specs now)))"

definition resolve_stream :: "'w Resolver \<Rightarrow> 'w \<Rightarrow> Target list \<Rightarrow> 'w \<times> ResolvedTarget list result" where
  "resolve_stream rv w targets = map_prod id (map_sum id into_stream) (rv_plan rv w targets)"

definition resolve_many :: "'w Resolver \<Rightarrow> 'w \<Rightarrow> Target list \<Rightarrow> 'w \<times> ResolvedTarget list result" where
  "resolve_many rv w targets = resolve_stream rv w targets"

subsection \<open>Failure classification\<close>

fun answered_with_no_addresses :: "ResolverError \<Rightarrow> bool" where
  "answered_with_no_addresses (DnsLookupFailed _ is_no_records_found) = is_no_records_found"
| "answered_with_no_addresses (DnsNoRecords _) = True"
| "answered_with_no_addresses _ = False"

fun skips_only_this_target :: "ResolverError \<Rightarrow> bool" where
  "skips_only_this_target (DnsLookupFailed name v) = answered_with_no_addresses (DnsLookupFailed name v)"
| "skips_only_this_target (DnsNoRecords name) = answered_with_no_addresses (DnsNoRecords name)"
| "skips_only_this_target (UnqueryableTargetName _) = True"
| "skips_only_this_target _ = False"

subsection \<open>The DNS resolver\<close>

datatype 'n QueriedName = AddressLiteral | QueriedName 'n

record ('w, 'n) DnsLib =
  dl_from_str_relaxed :: "string \<Rightarrow> 'n option"
  dl_lookup_text :: "bool \<Rightarrow> 'w \<Rightarrow> string \<Rightarrow> 'w \<times> (bool + IpAddr list)"
  dl_lookup_name :: "bool \<Rightarrow> 'w \<Rightarrow> 'n \<Rightarrow> 'w \<times> (bool + IpAddr list)"
  dl_now :: "'w \<Rightarrow> system_time"

record HickoryResolver =
  hr_host_limit :: u64

definition hickory_from_config :: HickoryResolver where
  "hickory_from_config = \<lparr>hr_host_limit = DEFAULT_HOST_LIMIT\<rparr>"

definition with_limit :: "HickoryResolver \<Rightarrow> u64 \<Rightarrow> HickoryResolver" where
  "with_limit h limit = h\<lparr>hr_host_limit := limit\<rparr>"

definition plan_cidr :: "IpNetLib \<Rightarrow> HickoryResolver \<Rightarrow> IpNet \<Rightarrow> Target \<Rightarrow> PlannedSpec result" where
  "plan_cidr nets h net original =
     (case cidr_bounds nets net of (first, last_ip, hosts) \<Rightarrow>
        if hosts > ucast (hr_host_limit h)
        then Inl (EResolver (CidrTooLarge (in_show nets net) (unat hosts) (unat (hr_host_limit h))))
        else Inr (Block first last_ip original))"

definition plan_range :: "HickoryResolver \<Rightarrow> IpAddr \<Rightarrow> IpAddr \<Rightarrow> Target \<Rightarrow> PlannedSpec result" where
  "plan_range h start end original =
     (case range_bounds start end of
        Inl e \<Rightarrow> Inl e
      | Inr (first, last_ip, hosts) \<Rightarrow>
          if hosts > ucast (hr_host_limit h)
          then Inl (EResolver (RangeTooLarge (show_ip start) (show_ip end) (unat hosts) (unat (hr_host_limit h))))
          else Inr (Block first last_ip original))"

definition queried_name :: "('w, 'n) DnsLib \<Rightarrow> string \<Rightarrow> ResolverError + 'n QueriedName" where
  "queried_name lib written =
     (if parse_ip written \<noteq> None then Inr AddressLiteral
      else (case dl_from_str_relaxed lib written of
              Some name \<Rightarrow> Inr (QueriedName name)
            | None \<Rightarrow> Inl (UnqueryableTargetName written)))"

definition addresses_or_no_records :: "string \<Rightarrow> IpAddr list \<Rightarrow> ResolverError + IpAddr list" where
  "addresses_or_no_records name ips = (if ips = [] then Inl (DnsNoRecords name) else Inr ips)"

definition lookup_one_family ::
  "('w, 'n) DnsLib \<Rightarrow> bool \<Rightarrow> 'w \<Rightarrow> string \<Rightarrow> 'n QueriedName \<Rightarrow> 'w \<times> (ResolverError + IpAddr list)" where
  "lookup_one_family lib v6 w name queried =
     (case (case queried of
              AddressLiteral \<Rightarrow> dl_lookup_text lib v6 w name
            | QueriedName parsed \<Rightarrow> dl_lookup_name lib v6 w parsed) of
        (w, Inl no_records) \<Rightarrow> (w, Inl (DnsLookupFailed name no_records))
      | (w, Inr lookup) \<Rightarrow> (w, addresses_or_no_records name lookup))"

fun merge_family_lookups ::
  "ResolverError + IpAddr list \<Rightarrow> ResolverError + IpAddr list \<Rightarrow> ResolverError + IpAddr list" where
  "merge_family_lookups (Inr sixes) (Inr fours) = Inr (each_address_once (sixes @ fours))"
| "merge_family_lookups (Inr ips) (Inl _) = Inr (each_address_once ips)"
| "merge_family_lookups (Inl _) (Inr ips) = Inr (each_address_once ips)"
| "merge_family_lookups (Inl v6) (Inl v4) = Inl (if answered_with_no_addresses v6 then v4 else v6)"

definition lookup_dns :: "('w, 'n) DnsLib \<Rightarrow> 'w \<Rightarrow> string \<Rightarrow> 'w \<times> (ResolverError + IpAddr list)" where
  "lookup_dns lib w name =
     (case queried_name lib name of
        Inl e \<Rightarrow> (w, Inl e)
      | Inr queried \<Rightarrow>
          (let (w, v6) = lookup_one_family lib True w name queried;
               (w, v4) = lookup_one_family lib False w name queried
           in (w, merge_family_lookups v6 v4)))"

definition dns_spec :: "Target \<Rightarrow> ResolverError + IpAddr list \<Rightarrow> ResolverError + PlannedSpec" where
  "dns_spec target looked_up =
     (case looked_up of
        Inr ips \<Rightarrow> Inr (Resolved ips target)
      | Inl err \<Rightarrow> if skips_only_this_target err then Inr (Resolved [] target) else Inl err)"

fun hickory_spec ::
  "IpNetLib \<Rightarrow> ('w, 'n) DnsLib \<Rightarrow> HickoryResolver \<Rightarrow> 'w \<Rightarrow> Target \<Rightarrow> 'w \<times> PlannedSpec result" where
  "hickory_spec nets lib h w (TargetIp ip) = (w, Inr (Block ip ip (TargetIp ip)))"
| "hickory_spec nets lib h w (TargetCidr net) = (w, plan_cidr nets h net (TargetCidr net))"
| "hickory_spec nets lib h w (TargetRange start end) = (w, plan_range h start end (TargetRange start end))"
| "hickory_spec nets lib h w (TargetDnsName name) =
     (case lookup_dns lib w name of (w, looked_up) \<Rightarrow>
        (w, map_sum EResolver id (dns_spec (TargetDnsName name) looked_up)))"

fun hickory_specs ::
  "IpNetLib \<Rightarrow> ('w, 'n) DnsLib \<Rightarrow> HickoryResolver \<Rightarrow> 'w \<Rightarrow> Target list \<Rightarrow> PlannedSpec list \<Rightarrow>
   'w \<times> PlannedSpec list result" where
  "hickory_specs nets lib h w [] specs = (w, Inr specs)"
| "hickory_specs nets lib h w (target # targets) specs =
     (case hickory_spec nets lib h w target of
        (w, Inl e) \<Rightarrow> (w, Inl e)
      | (w, Inr spec) \<Rightarrow> hickory_specs nets lib h w targets (specs @ [spec]))"

definition hickory_plan ::
  "IpNetLib \<Rightarrow> ('w, 'n) DnsLib \<Rightarrow> HickoryResolver \<Rightarrow> 'w \<Rightarrow> Target list \<Rightarrow> 'w \<times> ResolvedPlan result" where
  "hickory_plan nets lib h w targets =
     (let resolved_at = dl_now lib w in
      case hickory_specs nets lib h w targets [] of
        (w, Inl e) \<Rightarrow> (w, Inl e)
      | (w, Inr specs) \<Rightarrow> (w, Inr (plan_new specs resolved_at)))"

definition hickory_resolve ::
  "IpNetLib \<Rightarrow> ('w, 'n) DnsLib \<Rightarrow> HickoryResolver \<Rightarrow> 'w \<Rightarrow> Target \<Rightarrow> 'w \<times> ResolvedTarget list result" where
  "hickory_resolve nets lib h w target =
     (case hickory_plan nets lib h w [target] of
        (w, Inl e) \<Rightarrow> (w, Inl e)
      | (w, Inr plan) \<Rightarrow> (w, Inr (into_stream plan)))"

definition hickory_resolver :: "IpNetLib \<Rightarrow> ('w, 'n) DnsLib \<Rightarrow> HickoryResolver \<Rightarrow> 'w Resolver" where
  "hickory_resolver nets lib h = \<lparr>rv_resolve = hickory_resolve nets lib h, rv_plan = hickory_plan nets lib h\<rparr>"

subsection \<open>The guarded resolver\<close>

record 'w GuardedResolver =
  gr_inner :: "'w Resolver"
  gr_allowlist :: "IpNet list option"
  gr_max_total_hosts :: "u64 option"

definition guarded_check_allowed :: "IpNetLib \<Rightarrow> 'w GuardedResolver \<Rightarrow> IpAddr \<Rightarrow> unit result" where
  "guarded_check_allowed nets g ip =
     (case gr_allowlist g of
        Some allowlist \<Rightarrow>
          if list_ex (\<lambda>net. in_contains nets net ip) allowlist then Inr ()
          else Inl (EResolver (TargetNotAllowed ip))
      | None \<Rightarrow> Inr ())"

definition check_cap :: "'w GuardedResolver \<Rightarrow> u64 \<Rightarrow> unit result" where
  "check_cap g hosts =
     (case gr_max_total_hosts g of
        Some limit \<Rightarrow>
          if hosts > limit then Inl (EResolver (AggregateHostCapExceeded (unat hosts) (unat limit))) else Inr ()
      | None \<Rightarrow> Inr ())"

fun check_each :: "('a \<Rightarrow> unit result) \<Rightarrow> 'a list \<Rightarrow> unit result" where
  "check_each f [] = Inr ()"
| "check_each f (x # xs) = (case f x of Inl e \<Rightarrow> Inl e | Inr _ \<Rightarrow> check_each f xs)"

definition guarded_resolve ::
  "IpNetLib \<Rightarrow> 'w GuardedResolver \<Rightarrow> 'w \<Rightarrow> Target \<Rightarrow> 'w \<times> ResolvedTarget list result" where
  "guarded_resolve nets g w target =
     (case rv_resolve (gr_inner g) w target of
        (w, Inl e) \<Rightarrow> (w, Inl e)
      | (w, Inr resolved) \<Rightarrow>
          (w, case check_each (\<lambda>rt. guarded_check_allowed nets g (rt_ip rt)) resolved of
                Inl e \<Rightarrow> Inl e
              | Inr _ \<Rightarrow>
                  (case check_cap g (of_nat (length resolved)) of
                     Inl e \<Rightarrow> Inl e
                   | Inr _ \<Rightarrow> Inr resolved)))"

definition guarded_plan ::
  "IpNetLib \<Rightarrow> 'w GuardedResolver \<Rightarrow> 'w \<Rightarrow> Target list \<Rightarrow> 'w \<times> ResolvedPlan result" where
  "guarded_plan nets g w targets =
     (case rv_plan (gr_inner g) w targets of
        (w, Inl e) \<Rightarrow> (w, Inl e)
      | (w, Inr plan) \<Rightarrow>
          (w, case (case gr_allowlist g of
                      Some allowlist \<Rightarrow> plan_check_allowed nets plan allowlist
                    | None \<Rightarrow> Inr ()) of
                Inl e \<Rightarrow> Inl e
              | Inr _ \<Rightarrow>
                  (case check_cap g (total_hosts plan) of
                     Inl e \<Rightarrow> Inl e
                   | Inr _ \<Rightarrow> Inr plan)))"

definition guarded_resolver :: "IpNetLib \<Rightarrow> 'w GuardedResolver \<Rightarrow> 'w Resolver" where
  "guarded_resolver nets g = \<lparr>rv_resolve = guarded_resolve nets g, rv_plan = guarded_plan nets g\<rparr>"

subsection \<open>Resolving a scenario\<close>

record ScenarioResolution =
  sr_entries :: "(Target \<times> SpecContribution result) list"
  sr_plan :: "ResolvedPlan result"
  sr_resume_base :: u64

definition sr_total_hosts :: "ScenarioResolution \<Rightarrow> u64" where
  "sr_total_hosts sr =
     (case sr_plan sr of Inl _ \<Rightarrow> 0 | Inr plan \<Rightarrow> saturating_sub (total_hosts plan) (sr_resume_base sr))"

definition refusal :: "ScenarioResolution \<Rightarrow> RastreoError option" where
  "refusal sr = (case sr_plan sr of Inl e \<Rightarrow> Some e | Inr _ \<Rightarrow> None)"

definition sr_unresolvable_targets :: "ScenarioResolution \<Rightarrow> Target list" where
  "sr_unresolvable_targets sr = map fst (filter (\<lambda>(_, r). r = Inr Unresolvable) (sr_entries sr))"

definition attribute_plan :: "ResolvedPlan \<Rightarrow> (Target \<times> SpecContribution result) list" where
  "attribute_plan plan = map (\<lambda>(target, sample). (target, Inr sample)) (per_target_samples plan)"

fun plan_each :: "'w Resolver \<Rightarrow> 'w \<Rightarrow> Target list \<Rightarrow> 'w \<times> (Target \<times> SpecContribution result) list" where
  "plan_each rv w [] = (w, [])"
| "plan_each rv w (target # targets) =
     (case rv_plan rv w [target] of (w, planned) \<Rightarrow>
        let entry = map_sum id (\<lambda>plan. case per_target_samples plan of
                      [] \<Rightarrow> Unresolvable | (_, sample) # _ \<Rightarrow> sample) planned
        in case plan_each rv w targets of (w, entries) \<Rightarrow> (w, (target, entry) # entries))"

definition resolve_scenario :: "'w Resolver \<Rightarrow> 'w \<Rightarrow> Target list \<Rightarrow> 'w \<times> ScenarioResolution" where
  "resolve_scenario rv w targets =
     (case rv_plan rv w targets of
        (w, Inr plan) \<Rightarrow> (w, \<lparr>sr_entries = attribute_plan plan, sr_plan = Inr plan, sr_resume_base = 0\<rparr>)
      | (w, Inl e) \<Rightarrow>
          (case plan_each rv w targets of (w, entries) \<Rightarrow>
             (w, \<lparr>sr_entries = entries, sr_plan = Inl e, sr_resume_base = 0\<rparr>)))"

definition resolve_pinned_scenario ::
  "IpNetLib \<Rightarrow> system_time \<Rightarrow> Target list \<Rightarrow> (Target \<times> IpAddr list) list \<Rightarrow> u64 \<Rightarrow> ScenarioResolution result" where
  "resolve_pinned_scenario nets now targets pins resume_base =
     (case from_pinned nets now targets pins of
        Inl e \<Rightarrow> Inl e
      | Inr plan \<Rightarrow>
          Inr \<lparr>sr_entries = attribute_plan plan, sr_plan = Inr plan, sr_resume_base = resume_base\<rparr>)"

section \<open>What a target contributes\<close>

text \<open>Every answer is a vector, so its length fits the address space.\<close>

definition dns_lawful :: "('w, 'n) DnsLib \<Rightarrow> bool" where
  "dns_lawful lib \<longleftrightarrow>
     (\<forall>v6 w name w' ips. dl_lookup_text lib v6 w name = (w', Inr ips) \<longrightarrow> length ips < 2 ^ 63) \<and>
     (\<forall>v6 w name w' ips. dl_lookup_name lib v6 w name = (w', Inr ips) \<longrightarrow> length ips < 2 ^ 63)"

fun ok_set :: "'e + 'a list \<Rightarrow> 'a set" where
  "ok_set (Inl _) = {}"
| "ok_set (Inr xs) = set xs"

text \<open>The addresses the two families answer for a name, asked one after the other.\<close>

definition answered :: "('w, 'n) DnsLib \<Rightarrow> 'w \<Rightarrow> string \<Rightarrow> IpAddr set" where
  "answered lib w name =
     (if parse_ip name \<noteq> None
      then (let (w', v6) = dl_lookup_text lib True w name in ok_set v6 \<union> ok_set (snd (dl_lookup_text lib False w' name)))
      else (case dl_from_str_relaxed lib name of
              None \<Rightarrow> {}
            | Some n \<Rightarrow>
                (let (w', v6) = dl_lookup_name lib True w n in ok_set v6 \<union> ok_set (snd (dl_lookup_name lib False w' n)))))"

definition denotes :: "IpNetLib \<Rightarrow> ('w, 'n) DnsLib \<Rightarrow> Target \<Rightarrow> IpAddr set \<Rightarrow> bool" where
  "denotes nets lib target ips =
     (case target of
        TargetIp ip \<Rightarrow> ips = {ip}
      | TargetCidr net \<Rightarrow> ips = {ip. usable_host nets net ip}
      | TargetRange start end \<Rightarrow> ips = {ip. between start end ip}
      | TargetDnsName name \<Rightarrow> (\<exists>w. ips = answered lib w name))"

definition contributes :: "IpNetLib \<Rightarrow> ('w, 'n) DnsLib \<Rightarrow> Target \<Rightarrow> PlannedSpec \<Rightarrow> bool" where
  "contributes nets lib target spec \<longleftrightarrow> spec_original spec = target \<and> spec_ok spec \<and>
     distinct (spec_addresses spec) \<and> denotes nets lib target (set (spec_addresses spec))"

lemma ok_set_addresses [simp]: "ok_set (addresses_or_no_records name ips) = set ips"
  by (simp add: addresses_or_no_records_def)

lemma lookup_one_family_ok_set:
  "ok_set (snd (lookup_one_family lib v6 w name AddressLiteral)) = ok_set (snd (dl_lookup_text lib v6 w name))"
  "ok_set (snd (lookup_one_family lib v6 w name (QueriedName n))) = ok_set (snd (dl_lookup_name lib v6 w n))"
  "fst (lookup_one_family lib v6 w name AddressLiteral) = fst (dl_lookup_text lib v6 w name)"
  "fst (lookup_one_family lib v6 w name (QueriedName n)) = fst (dl_lookup_name lib v6 w n)"
  by (auto simp: lookup_one_family_def split: prod.splits sum.splits)

lemma merge_family_lookups_ok:
  "merge_family_lookups v6 v4 = Inr ips \<Longrightarrow> distinct ips \<and> set ips = ok_set v6 \<union> ok_set v4"
  "merge_family_lookups v6 v4 = Inl e \<Longrightarrow> ok_set v6 \<union> ok_set v4 = {}"
  by (cases v6; cases v4; auto simp: each_address_once_eq)+

lemma lookup_dns_ok:
  assumes "snd (lookup_dns lib w name) = r"
  shows "r = Inr ips \<Longrightarrow> distinct ips \<and> set ips = answered lib w name"
    "r = Inl e \<Longrightarrow> answered lib w name = {}"
proof -
  have "(\<forall>ips. r = Inr ips \<longrightarrow> distinct ips \<and> set ips = answered lib w name) \<and>
    (\<forall>e. r = Inl e \<longrightarrow> answered lib w name = {})"
  proof (cases "queried_name lib name")
    case (Inl e)
    then show ?thesis using assms
      by (auto simp: lookup_dns_def answered_def queried_name_def split: if_splits option.splits)
  next
    case (Inr q)
    have "r = merge_family_lookups (snd (lookup_one_family lib True w name q))
        (snd (lookup_one_family lib False (fst (lookup_one_family lib True w name q)) name q))"
      using assms Inr by (auto simp: lookup_dns_def case_prod_beta)
    moreover have "answered lib w name = ok_set (snd (lookup_one_family lib True w name q)) \<union>
        ok_set (snd (lookup_one_family lib False (fst (lookup_one_family lib True w name q)) name q))"
      using Inr by (auto simp: answered_def queried_name_def lookup_one_family_ok_set case_prod_beta
          split: if_splits option.splits)
    ultimately show ?thesis by (metis merge_family_lookups_ok)
  qed
  then show "r = Inr ips \<Longrightarrow> distinct ips \<and> set ips = answered lib w name" "r = Inl e \<Longrightarrow> answered lib w name = {}"
    by auto
qed

lemma length_extend_new: "length (extend_new xs ys) \<le> length xs + length ys"
proof (induction ys arbitrary: xs)
  case (Cons y ys)
  show ?case using Cons [of "push_new xs y"] by (auto simp: push_new_def split: if_splits)
qed simp

lemma merge_family_lookups_length:
  assumes "merge_family_lookups v6 v4 = Inr ips" "\<And>xs. v6 = Inr xs \<Longrightarrow> length xs < n" "\<And>xs. v4 = Inr xs \<Longrightarrow> length xs < n"
  shows "length ips < 2 * n"
proof -
  obtain xs ys where "ips = extend_new [] (xs @ ys)" "length xs < n \<or> xs = []" "length ys < n \<or> ys = []" "xs = [] \<and> ys = [] \<longrightarrow> n > 0"
  proof (cases v6; cases v4)
    fix xs ys assume "v6 = Inr xs" "v4 = Inr ys"
    then show thesis using assms that [of xs ys] by (auto simp: each_address_once_eq)
  next
    fix xs e assume "v6 = Inr xs" "v4 = Inl e"
    then show thesis using assms that [of xs "[]"] by (auto simp: each_address_once_eq)
  next
    fix xs e assume "v6 = Inl e" "v4 = Inr xs"
    then show thesis using assms that [of "[]" xs] by (auto simp: each_address_once_eq)
  qed (use assms(1) in simp)
  then show ?thesis using length_extend_new [of "[]" "xs @ ys"] by auto
qed

lemma lookup_dns_length:
  assumes "dns_lawful lib" "snd (lookup_dns lib w name) = Inr ips"
  shows "length ips < 2 ^ 64"
proof -
  have one: "length xs < 2 ^ 63" if "snd (lookup_one_family lib v6 w' name q) = Inr xs" for v6 w' q xs
    using that assms(1)
    by (auto simp: lookup_one_family_def dns_lawful_def addresses_or_no_records_def
        split: prod.splits sum.splits QueriedName.splits if_splits)
  obtain q where "merge_family_lookups (snd (lookup_one_family lib True w name q))
        (snd (lookup_one_family lib False (fst (lookup_one_family lib True w name q)) name q)) = Inr ips"
    using assms(2) by (auto simp: lookup_dns_def case_prod_beta split: sum.splits)
  from merge_family_lookups_length [OF this one one] show ?thesis by simp
qed

text \<open>Under a host limit of the machine's width the counts of the bounds are exact.\<close>

lemma limited:
  assumes "\<not> (hosts :: u128) > ucast (limit :: u64)" "unat hosts = min n (2 ^ 128 - 1)"
  shows "n \<le> unat limit" "n < 2 ^ 64"
proof -
  have "unat (ucast limit :: u128) = unat limit"
    using unsigned_less [of limit, where 'a = nat] by (simp add: unsigned_ucast_eq take_bit_nat_eq_self)
  then have "min n (2 ^ 128 - 1) \<le> unat limit" using assms by (simp only: word_less_nat_alt not_less)
  then show "n \<le> unat limit" "n < 2 ^ 64" using unsigned_less [of limit, where 'a = nat] by auto
qed

lemma distinct_run: "distinct (map (word_of_nat :: nat \<Rightarrow> 'a::len word) [unat a..<Suc (unat (b :: 'a word))])"
proof -
  have "inj_on (word_of_nat :: nat \<Rightarrow> 'a word) (set [unat a..<Suc (unat b)])"
    by (rule inj_on_inverseI [of _ unat]) (auto simp: unat_word_of_nat_less [of _ b] simp del: upt_Suc)
  then show ?thesis by (simp add: distinct_map del: upt_Suc)
qed

lemma distinct_block_addresses: "distinct (block_addresses a b)"
proof (cases a; cases b)
  fix x y assume "a = V4 x" "b = V4 y"
  moreover have "distinct (map V4 (map word_of_nat [unat x..<Suc (unat y)]))"
    by (subst distinct_map) (simp add: distinct_run inj_on_def del: upt_Suc)
  ultimately show ?thesis by (simp add: comp_def del: upt_Suc)
next
  fix x y assume "a = V6 x" "b = V6 y"
  moreover have "distinct (map V6 (map word_of_nat [unat x..<Suc (unat y)]))"
    by (subst distinct_map) (simp add: distinct_run inj_on_def del: upt_Suc)
  ultimately show ?thesis by (simp add: comp_def del: upt_Suc)
qed auto

lemma block_contributes:
  assumes "block_ok a b" "block_size a b < 2 ^ 64" "denotes nets lib t {ip. between a b ip}"
  shows "contributes nets lib t (Block a b t)"
  using assms by (simp add: contributes_def set_block_addresses distinct_block_addresses)

lemma between_self: "between a a ip \<longleftrightarrow> ip = a"
proof -
  have "between a a ip \<longleftrightarrow> ip_to_bits ip = ip_to_bits a" by (auto simp: between_def prod_eq_iff)
  then show ?thesis by (simp add: ip_to_bits_inj)
qed

lemma block_ok_self [simp]: "block_ok a a" "block_size a a = 1"
  by (cases a; simp)+

lemma plan_cidr_contributes:
  assumes "ipnet_lawful nets" "net_ok net" "plan_cidr nets h net (TargetCidr net) = Inr spec"
  shows "contributes nets lib (TargetCidr net) spec"
proof -
  obtain a b hosts where b: "cidr_bounds nets net = (a, b, hosts)" by (cases "cidr_bounds nets net")
  then have spec: "spec = Block a b (TargetCidr net)" and lim: "\<not> hosts > ucast (hr_host_limit h)"
    using assms(3) by (auto simp: plan_cidr_def split: if_splits)
  have "block_ok a b \<and> unat hosts = min (block_size a b) (2 ^ 128 - 1) \<and> (\<forall>ip. between a b ip \<longleftrightarrow> usable_host nets net ip)"
  proof (cases net)
    case (Net4 n)
    have ok: "n4_prefix_len n \<le> 32" using assms(2) Net4 by (simp add: net_ok_def)
    note bounds = cidr_bounds_v4 [OF assms(1) ok b [unfolded Net4]]
    have "unat hosts \<le> 2 ^ 128 - 1" using unsigned_less [of hosts, where 'a = nat] by simp
    then show ?thesis using bounds unfolding Net4 by (simp only: min_absorb1 simp_thms)
  next
    case (Net6 n)
    have ok: "n6_prefix_len n \<le> 128" using assms(2) Net6 by (simp add: net_ok_def)
    show ?thesis using cidr_bounds_v6 [OF assms(1) ok b [unfolded Net6]] unfolding Net6 by (simp only: simp_thms)
  qed
  then have "block_ok a b" "block_size a b < 2 ^ 64" "{ip. between a b ip} = {ip. usable_host nets net ip}"
    using limited [OF lim, of "block_size a b"] by simp_all
  then show ?thesis unfolding spec by (intro block_contributes) (simp_all add: denotes_def)
qed

lemma plan_range_contributes:
  assumes "plan_range h s e (TargetRange s e) = Inr spec"
  shows "contributes nets lib (TargetRange s e) spec"
proof -
  obtain a b hosts where b: "range_bounds s e = Inr (a, b, hosts)"
    and spec: "spec = Block a b (TargetRange s e)" and lim: "\<not> hosts > ucast (hr_host_limit h)"
    using assms by (auto simp: plan_range_def split: sum.splits if_splits)
  show ?thesis unfolding spec using range_bounds_ok [OF b] limited [OF lim, of "block_size s e"]
    by (intro block_contributes) (auto simp: denotes_def)
qed

lemma dns_contributes:
  assumes "dns_lawful lib" "dns_spec (TargetDnsName name) (snd (lookup_dns lib w name)) = Inr spec"
  shows "contributes nets lib (TargetDnsName name) spec"
proof (cases "snd (lookup_dns lib w name)")
  case (Inl e)
  have "{} = answered lib w name" using lookup_dns_ok(2) [OF refl Inl] by simp
  moreover have "spec = Resolved [] (TargetDnsName name)" using assms(2) Inl by (simp add: dns_spec_def split: if_splits)
  ultimately show ?thesis by (auto simp: contributes_def denotes_def)
next
  case (Inr ips)
  have "distinct ips" "set ips = answered lib w name" using lookup_dns_ok(1) [OF refl Inr] by auto
  moreover have "spec = Resolved ips (TargetDnsName name)" using assms(2) Inr by (simp add: dns_spec_def)
  ultimately show ?thesis using lookup_dns_length [OF assms(1) Inr] by (auto simp: contributes_def denotes_def)
qed

lemma hickory_spec_contributes:
  assumes "ipnet_lawful nets" "dns_lawful lib" "target_ok target" "hickory_spec nets lib h w target = (w', Inr spec)"
  shows "contributes nets lib target spec"
proof (cases target)
  case (TargetIp ip)
  have "contributes nets lib (TargetIp ip) (Block ip ip (TargetIp ip))"
    by (rule block_contributes) (simp_all add: denotes_def between_self)
  then show ?thesis using assms(4) TargetIp by simp
next
  case (TargetCidr net)
  then show ?thesis using assms plan_cidr_contributes by (auto simp: target_ok_def)
next
  case (TargetRange s e)
  then show ?thesis using assms plan_range_contributes by auto
next
  case (TargetDnsName name)
  then have "dns_spec (TargetDnsName name) (snd (lookup_dns lib w name)) = Inr spec"
    using assms(4) by (cases "dns_spec (TargetDnsName name) (snd (lookup_dns lib w name))") (auto simp: case_prod_beta)
  then show ?thesis using dns_contributes [OF assms(2)] TargetDnsName by simp
qed

lemma hickory_specs_contribute:
  assumes "ipnet_lawful nets" "dns_lawful lib"
  shows "hickory_specs nets lib h w targets acc = (w', Inr specs) \<Longrightarrow> \<forall>t \<in> set targets. target_ok t \<Longrightarrow>
    \<exists>new. specs = acc @ new \<and> list_all2 (contributes nets lib) targets new"
proof (induction targets arbitrary: w acc)
  case (Cons target targets)
  obtain w1 spec where one: "hickory_spec nets lib h w target = (w1, Inr spec)"
    and rest: "hickory_specs nets lib h w1 targets (acc @ [spec]) = (w', Inr specs)"
    using Cons.prems(1) by (auto split: prod.splits sum.splits)
  obtain new where "specs = (acc @ [spec]) @ new" "list_all2 (contributes nets lib) targets new"
    using Cons.IH [OF rest] Cons.prems(2) by auto
  moreover have "contributes nets lib target spec"
    using hickory_spec_contributes [OF assms _ one] Cons.prems(2) by simp
  ultimately show ?case by (intro exI [of _ "spec # new"]) simp
qed simp

section \<open>The planner's contract\<close>

text \<open>What the guard and the scenario resolution rely on: under the laws of the libraries a plan for
  admissible targets holds one spec per target, in order, each contributing what the target denotes.\<close>

locale planner =
  fixes lawful :: bool and nets :: IpNetLib and lib :: "('w, 'n) DnsLib"
    and plan :: "'w \<Rightarrow> Target list \<Rightarrow> 'w \<times> ResolvedPlan result"
  assumes plan_contributes:
    "lawful \<Longrightarrow> \<forall>t \<in> set targets. target_ok t \<Longrightarrow> plan w targets = (w', Inr p) \<Longrightarrow>
      list_all2 (contributes nets lib) targets (rp_specs p)"
begin

lemma plan_specs_ok:
  assumes "lawful" "\<forall>t \<in> set targets. target_ok t" "plan w targets = (w', Inr p)"
  shows "\<forall>spec \<in> set (rp_specs p). spec_ok spec"
  using plan_contributes [OF assms] by (auto simp: list_all2_conv_all_nth contributes_def in_set_conv_nth)

lemma plan_stream:
  assumes "lawful" "\<forall>t \<in> set targets. target_ok t" "plan w targets = (w', Inr p)"
  shows "\<exists>streams. into_stream p = concat streams \<and>
    list_all2 (\<lambda>t rts. distinct (map rt_ip rts) \<and> denotes nets lib t (rt_ip ` set rts) \<and> (\<forall>rt \<in> set rts. rt_original rt = t))
      targets streams"
proof -
  let ?streams = "map (\<lambda>spec. spec_into_stream spec (rp_resolved_at p)) (rp_specs p)"
  have orig: "rt_original rt = spec_original spec" if "rt \<in> set (spec_into_stream spec now)" for rt spec now
    using that by (cases spec) (auto simp: block_stream_def)
  have ips: "rt_ip ` set (spec_into_stream spec now) = set (spec_addresses spec)" for spec now
    by (metis spec_stream_ips set_map)
  have "list_all2 (\<lambda>t rts. distinct (map rt_ip rts) \<and> denotes nets lib t (rt_ip ` set rts) \<and> (\<forall>rt \<in> set rts. rt_original rt = t))
      targets ?streams"
    unfolding list_all2_map2 using plan_contributes [OF assms]
    by (rule list_all2_mono) (auto simp: contributes_def spec_stream_ips ips orig)
  then show ?thesis unfolding into_stream_def by blast
qed

lemma plan_counts:
  assumes "lawful" "\<forall>t \<in> set targets. target_ok t" "plan w targets = (w', Inr p)"
  shows "unat (total_hosts p) = min (length (into_stream p)) (2 ^ 64 - 1)"
  by (rule total_hosts_length [OF plan_specs_ok [OF assms]])

end

interpretation hickory: planner "ipnet_lawful nets \<and> dns_lawful lib" nets lib "hickory_plan nets lib h"
  for nets and lib :: "('w, 'n) DnsLib" and h
proof
  fix targets w w' p
  assume l: "ipnet_lawful nets \<and> dns_lawful lib" and ok: "\<forall>t \<in> set targets. target_ok t"
    and p: "hickory_plan nets lib h w targets = (w', Inr p)"
  then obtain specs where "hickory_specs nets lib h w targets [] = (w', Inr specs)" "rp_specs p = specs"
    by (auto simp: hickory_plan_def plan_new_def Let_def split: prod.splits sum.splits)
  then show "list_all2 (contributes nets lib) targets (rp_specs p)"
    using hickory_specs_contribute l ok by fastforce
qed

interpretation guarded: planner "ipnet_lawful nets \<and> dns_lawful lib" nets lib
    "guarded_plan nets \<lparr>gr_inner = hickory_resolver nets lib h, gr_allowlist = allowlist, gr_max_total_hosts = cap\<rparr>"
  for nets and lib :: "('w, 'n) DnsLib" and h allowlist cap
proof
  fix targets w w' p
  assume l: "ipnet_lawful nets \<and> dns_lawful lib" and ok: "\<forall>t \<in> set targets. target_ok t"
    and p: "guarded_plan nets \<lparr>gr_inner = hickory_resolver nets lib h, gr_allowlist = allowlist, gr_max_total_hosts = cap\<rparr> w targets = (w', Inr p)"
  then have "hickory_plan nets lib h w targets = (w', Inr p)"
    by (auto simp: guarded_plan_def hickory_resolver_def split: prod.splits sum.splits)
  then show "list_all2 (contributes nets lib) targets (rp_specs p)" by (rule hickory.plan_contributes [OF l ok])
qed

section \<open>Properties\<close>

text \<open>C33: The guarded resolver decides on the addresses the scan would probe: with the DNS resolver
  inside, its plan is the inner plan when every streamed address lies in the allow-list and their
  number is within the cap; otherwise it is the refusal naming the first streamed address outside
  the list, or else the count over the cap. Counting and checking never wrap, although neither
  expands a block.\<close>

theorem guarded_plan_exact:
  fixes lib :: "('w, 'n) DnsLib"
  assumes "ipnet_lawful nets" "dns_lawful lib" "\<forall>t \<in> set targets. target_ok t"
  shows "guarded_plan nets \<lparr>gr_inner = hickory_resolver nets lib h, gr_allowlist = allowlist, gr_max_total_hosts = cap\<rparr> w targets =
    (case hickory_plan nets lib h w targets of
       (w', Inl e) \<Rightarrow> (w', Inl e)
     | (w', Inr plan) \<Rightarrow>
         (w', let ips = map rt_ip (into_stream plan); hosts = min (length ips) (2 ^ 64 - 1) in
              case (case allowlist of None \<Rightarrow> None | Some l \<Rightarrow> find (\<lambda>ip. \<not> allowed nets l ip) ips) of
                Some ip \<Rightarrow> Inl (EResolver (TargetNotAllowed ip))
              | None \<Rightarrow>
                  (case cap of
                     Some limit \<Rightarrow>
                       if hosts > unat limit then Inl (EResolver (AggregateHostCapExceeded hosts (unat limit))) else Inr plan
                   | None \<Rightarrow> Inr plan)))"
proof (cases "hickory_plan nets lib h w targets")
  case (Pair w' r)
  show ?thesis
  proof (cases r)
    case (Inl e)
    then show ?thesis using Pair by (simp add: guarded_plan_def hickory_resolver_def)
  next
    case (Inr plan)
    have l: "ipnet_lawful nets \<and> dns_lawful lib" using assms by simp
    note p = Pair [unfolded Inr]
    have "plan_check_allowed nets plan al = allow_verdict nets al (map rt_ip (into_stream plan))" for al
      by (simp add: plan_check_allowed_verdict [OF assms(1) hickory.plan_specs_ok [OF l assms(3) p]] into_stream_ips)
    then show ?thesis using hickory.plan_counts [OF l assms(3) p]
      by (auto simp: guarded_plan_def hickory_resolver_def p check_cap_def allow_verdict_def word_less_nat_alt Let_def
          split: option.splits)
  qed
qed

text \<open>A concrete network library and a resolver that answers two addresses, to evaluate the properties on.\<close>

definition run_start :: "nat \<Rightarrow> 'a::len word \<Rightarrow> 'a word" where
  "run_start m a = word_of_nat (unat a div m * m)"

definition run_end :: "nat \<Rightarrow> 'a::len word \<Rightarrow> 'a word" where
  "run_end m a = word_of_nat (unat a div m * m + m - 1)"

definition demo_nets :: IpNetLib where
  "demo_nets =
     \<lparr>in_network4 = \<lambda>n. run_start (2 ^ (32 - unat (n4_prefix_len n))) (n4_addr n),
      in_broadcast4 = \<lambda>n. run_end (2 ^ (32 - unat (n4_prefix_len n))) (n4_addr n),
      in_network6 = \<lambda>n. run_start (2 ^ (128 - unat (n6_prefix_len n))) (n6_addr n),
      in_broadcast6 = \<lambda>n. run_end (2 ^ (128 - unat (n6_prefix_len n))) (n6_addr n),
      in_contains = \<lambda>net ip. case (net, ip) of
          (Net4 n, V4 a) \<Rightarrow> run_start (2 ^ (32 - unat (n4_prefix_len n))) (n4_addr n) \<le> a \<and>
            a \<le> run_end (2 ^ (32 - unat (n4_prefix_len n))) (n4_addr n)
        | (Net6 n, V6 a) \<Rightarrow> run_start (2 ^ (128 - unat (n6_prefix_len n))) (n6_addr n) \<le> a \<and>
            a \<le> run_end (2 ^ (128 - unat (n6_prefix_len n))) (n6_addr n)
        | _ \<Rightarrow> False,
      in_show = \<lambda>_. []\<rparr>"

definition demo_dns :: "(unit, string) DnsLib" where
  "demo_dns =
     \<lparr>dl_from_str_relaxed = Some, dl_lookup_text = \<lambda>v6 w name. (w, Inl True),
      dl_lookup_name = \<lambda>v6 w name. (w, if v6 then Inl True else Inr [V4 7, V4 7]), dl_now = \<lambda>w. 0\<rparr>"

lemma demo_run:
  assumes "k \<le> LENGTH('a)"
  shows "unat (run_start (2 ^ k) (a :: 'a::len word)) + 2 ^ k = unat (run_end (2 ^ k) a) + 1"
proof -
  have split: "(2::nat) ^ LENGTH('a) = 2 ^ (LENGTH('a) - k) * 2 ^ k" using assms by (simp flip: power_add)
  have "unat a div 2 ^ k < 2 ^ (LENGTH('a) - k)"
    by (rule less_mult_imp_div_less) (metis split unsigned_less)
  then have "(unat a div 2 ^ k + 1) * 2 ^ k \<le> 2 ^ LENGTH('a)" unfolding split by (intro mult_right_mono) simp_all
  then have le: "unat a div 2 ^ k * 2 ^ k + 2 ^ k \<le> 2 ^ LENGTH('a)" by simp
  moreover have "(1::nat) \<le> 2 ^ k" by simp
  ultimately have "unat a div 2 ^ k * 2 ^ k < 2 ^ LENGTH('a)" "unat a div 2 ^ k * 2 ^ k + 2 ^ k - 1 < 2 ^ LENGTH('a)"
    by linarith+
  then show ?thesis unfolding run_start_def run_end_def by (simp add: unat_of_nat del: of_nat_mult)
qed

lemma demo_nets_lawful: "ipnet_lawful demo_nets"
  unfolding ipnet_lawful_def demo_nets_def by (auto simp: demo_run split: IpAddr.splits)

lemma demo_dns_lawful: "dns_lawful demo_dns"
  by (auto simp: dns_lawful_def demo_dns_def)

lemma parse_ip_x: "parse_ip ''x'' = None"
proof -
  have num: "read_number r m z bound ''x'' = None" for r m z bound
    by (simp add: read_number_def is_radix_digit_def radix_digit_def to_digit16_def)
  have v4: "read_ipv4_addr ''x'' = None"
    using read_octets.simps(2) [of 3 0 "''x''"] by (simp add: read_ipv4_addr_def read_separated_def num)
  then have "read_groups 8 0 ''x'' = ([], False, ''x'')"
    using read_groups.simps(2) [of 7 0 "''x''"] by (simp add: read_separated_def num)
  then show ?thesis using v4 by (simp add: parse_ip_def read_ipv6_addr_def)
qed

abbreviation demo_targets :: "Target list" where
  "demo_targets \<equiv> [TargetRange (V4 8) (V4 9), TargetDnsName ''x'']"

abbreviation demo_resolved :: ResolvedPlan where
  "demo_resolved \<equiv> \<lparr>rp_specs = [Block (V4 8) (V4 9) (TargetRange (V4 8) (V4 9)), Resolved [V4 7] (TargetDnsName ''x'')],
     rp_resolved_at = 0\<rparr>"

lemma demo_targets_ok: "\<forall>t \<in> set demo_targets. target_ok t"
  by (simp add: target_ok_def)

lemma demo_hickory_plan: "hickory_plan demo_nets demo_dns hickory_from_config () demo_targets = ((), Inr demo_resolved)"
  by (simp add: hickory_plan_def plan_range_def lookup_dns_def queried_name_def parse_ip_x lookup_one_family_def
      demo_dns_def addresses_or_no_records_def each_address_once_eq push_new_def dns_spec_def plan_new_def
      hickory_from_config_def DEFAULT_HOST_LIMIT_def)

theorem guarded_plan_exact_witness:
  "guarded_plan demo_nets \<lparr>gr_inner = hickory_resolver demo_nets demo_dns hickory_from_config, gr_allowlist = None,
      gr_max_total_hosts = Some 2\<rparr> () demo_targets = ((), Inl (EResolver (AggregateHostCapExceeded 3 2)))"
  using guarded_plan_exact [OF demo_nets_lawful demo_dns_lawful demo_targets_ok, of hickory_from_config None "Some 2" "()"]
  by (simp add: demo_hickory_plan into_stream_ips plan_addresses_def)

text \<open>C34: A plan streams, target by target in input order, exactly the addresses each target denotes, none
  twice within a target and each labelled with its target: the address itself, the usable hosts of a
  network (an IPv4 network wider than a \<^verbatim>\<open>/31\<close> without its first and last address), every address of
  a range, and for a name what the two families answered.\<close>

theorem plan_streams:
  fixes lib :: "('w, 'n) DnsLib"
  assumes "ipnet_lawful nets" "dns_lawful lib" "\<forall>t \<in> set targets. target_ok t"
    "hickory_plan nets lib h w targets = (w', Inr plan)"
  shows "\<exists>streams. into_stream plan = concat streams \<and>
    list_all2 (\<lambda>t rts. distinct (map rt_ip rts) \<and> denotes nets lib t (rt_ip ` set rts) \<and> (\<forall>rt \<in> set rts. rt_original rt = t))
      targets streams"
  by (rule hickory.plan_stream [OF conjI [OF assms(1,2)] assms(3,4)])

theorem plan_streams_witness:
  "\<exists>streams. into_stream demo_resolved = concat streams \<and>
    list_all2 (\<lambda>t rts. distinct (map rt_ip rts) \<and> denotes demo_nets demo_dns t (rt_ip ` set rts) \<and> (\<forall>rt \<in> set rts. rt_original rt = t))
      demo_targets streams"
  by (rule plan_streams [OF demo_nets_lawful demo_dns_lawful demo_targets_ok demo_hickory_plan])

lemma pinned_specs_replay:
  "hickory_specs nets lib h w targets acc = (w', Inr specs) \<Longrightarrow>
    \<exists>new. specs = acc @ new \<and> pinned_specs nets targets (List.map_filter spec_pin new) acc' = Inr (acc' @ new)"
proof (induction targets arbitrary: w acc acc')
  case (Cons target targets)
  obtain w1 spec where one: "hickory_spec nets lib h w target = (w1, Inr spec)"
    and rest: "hickory_specs nets lib h w1 targets (acc @ [spec]) = (w', Inr specs)"
    using Cons.prems(1) by (auto split: prod.splits sum.splits)
  obtain new where new: "specs = (acc @ [spec]) @ new"
    "pinned_specs nets targets (List.map_filter spec_pin new) (acc' @ [spec]) = Inr ((acc' @ [spec]) @ new)"
    using Cons.IH [OF rest, of "acc' @ [spec]"] by auto
  have "pinned_specs nets (target # targets) (List.map_filter spec_pin (spec # new)) acc' =
    pinned_specs nets targets (List.map_filter spec_pin new) (acc' @ [spec])"
    using one
    by (cases target)
      (auto simp: plan_cidr_def plan_range_def dns_spec_def List.map_filter_simps case_prod_beta
        split: if_splits sum.splits prod.splits)
  then show ?case using new by (intro exI [of _ "spec # new"]) simp
qed (simp add: List.map_filter_simps)

text \<open>C35: A resume replays the plan it was checkpointed from: rebuilding a plan from the same targets
  and the plan's own DNS pins gives the same specs without a lookup, so the same addresses in the
  same order.\<close>

theorem pinned_replay:
  fixes lib :: "('w, 'n) DnsLib"
  assumes "hickory_plan nets lib h w targets = (w', Inr plan)"
  shows "from_pinned nets now targets (dns_pins plan) = Inr (plan\<lparr>rp_resolved_at := now\<rparr>) \<and>
    map rt_ip (into_stream (plan\<lparr>rp_resolved_at := now\<rparr>)) = map rt_ip (into_stream plan)"
proof -
  obtain specs where "hickory_specs nets lib h w targets [] = (w', Inr specs)" "rp_specs plan = specs"
    using assms by (auto simp: hickory_plan_def plan_new_def Let_def split: prod.splits sum.splits)
  then have "pinned_specs nets targets (dns_pins plan) [] = Inr (rp_specs plan)"
    using pinned_specs_replay [of nets lib h w targets "[]" w' specs "[]"] by (auto simp: dns_pins_def)
  then show ?thesis by (simp add: from_pinned_def plan_new_def into_stream_ips plan_addresses_def)
qed

theorem pinned_replay_witness:
  "from_pinned demo_nets 5 demo_targets [(TargetDnsName ''x'', [V4 7])] = Inr (demo_resolved\<lparr>rp_resolved_at := 5\<rparr>)"
  using pinned_replay [OF demo_hickory_plan, of 5] by (simp add: dns_pins_def List.map_filter_simps)

end
