(* ===== verification/Spec2Isabelle.thy ===== *)
theory Spec2Isabelle
  imports Identity_Findings Fuser_Stack Topology Scheduler Sinks Resolvers
begin

text \<open>
  Verification development for rastreo, a network discovery pipeline written in Rust. Paths below are
  relative to \<^verbatim>\<open>src/rastreo-core/src\<close>.

  \<^bold>\<open>The program.\<close> A scenario names targets (addresses, networks, ranges, host names). A resolver turns them
  into a plan, an ordered stream of addresses, after checking the number of hosts and an optional
  allow-list. The scheduler runs every prober on every address under a concurrency limit and an optional
  pacer, and sends the outcomes of one target on once all its probers have reported. Fusers turn the
  outcomes of a target into a device record, fill its hardware fields from a MIB table, and at the end of a
  scan merge the records that are the same device. The topology assembler turns LLDP signals into link
  records. Records are encoded and handed to a sink: standard output, a file, memory, Kafka, NATS, or a
  fan-out over several of them.

  \<^bold>\<open>Theories and the code they model.\<close>
  \<^item> \<^verbatim>\<open>Rust_Prelude\<close>, \<^verbatim>\<open>Ip_Addr\<close>, \<^verbatim>\<open>Float64\<close>: the standard library as the code uses it (strings, options, vectors,
    saturating arithmetic, IP addresses, binary64 with rounding).
  \<^item> \<^verbatim>\<open>Device_Model\<close>: \<^verbatim>\<open>model/\<close>, \<^verbatim>\<open>kind_vocabulary.rs\<close> and the error values of \<^verbatim>\<open>error.rs\<close>.
  \<^item> \<^verbatim>\<open>Identity_Keys\<close>, \<^verbatim>\<open>Identity_Weights\<close>, \<^verbatim>\<open>Identity_Buckets\<close>, \<^verbatim>\<open>Union_Find\<close>, \<^verbatim>\<open>Identity_Merge\<close>, \<^verbatim>\<open>Identity_Fuser\<close>:
    \<^verbatim>\<open>fuser/identity.rs\<close>, \<^verbatim>\<open>fuser/keys.rs\<close> and \<^verbatim>\<open>oid.rs\<close>, in the order \<^verbatim>\<open>IdentityFuser::correlate\<close> runs them:
    canonical keys, \<^verbatim>\<open>pair_weight\<close>, \<^verbatim>\<open>compute_pair_weights\<close> over buckets, \<^verbatim>\<open>UnionFind\<close>, \<^verbatim>\<open>merge_components\<close> and
    \<^verbatim>\<open>merge_group\<close>, \<^verbatim>\<open>correlate\<close>.
  \<^item> \<^verbatim>\<open>Identity_Fusion\<close>, \<^verbatim>\<open>Identity_Properties\<close>, \<^verbatim>\<open>Identity_Findings\<close>: what fusing a group means, what the fuser
    guarantees, and two behaviours its documentation rules out.
  \<^item> \<^verbatim>\<open>Fuser_Direct\<close>, \<^verbatim>\<open>Fuser_Mib\<close>, \<^verbatim>\<open>Fuser_Stack\<close>: \<^verbatim>\<open>fuser/mod.rs\<close>, \<^verbatim>\<open>fuser/mib.rs\<close>, \<^verbatim>\<open>fuser/selection.rs\<close>: one record per
    target, MIB enrichment and its table parser, \<^verbatim>\<open>FuserConfig\<close>, \<^verbatim>\<open>create_fuser\<close>, the \<^verbatim>\<open>Fuser\<close> methods of every
    variant, and selection by name.
  \<^item> \<^verbatim>\<open>Topology\<close>: \<^verbatim>\<open>topology/mod.rs\<close>. \<^verbatim>\<open>Scheduler\<close>: \<^verbatim>\<open>scheduler/mod.rs\<close>.
  \<^item> \<^verbatim>\<open>Targets\<close>, \<^verbatim>\<open>Resolver_Plan\<close>, \<^verbatim>\<open>Resolvers\<close>: \<^verbatim>\<open>model/target.rs\<close> and \<^verbatim>\<open>resolver/\<close>: address blocks, \<^verbatim>\<open>ResolvedPlan\<close>,
    the DNS resolver, the guarded resolver, and scenario resolution.
  \<^item> \<^verbatim>\<open>Redact\<close>: \<^verbatim>\<open>redact.rs\<close>. \<^verbatim>\<open>Sink_Core\<close>, \<^verbatim>\<open>Sink_Kafka\<close>, \<^verbatim>\<open>Sink_Nats\<close>, \<^verbatim>\<open>Sinks\<close>: \<^verbatim>\<open>sink/\<close>: the \<^verbatim>\<open>Sink\<close> trait, the pending
    buffer, the bounded retry, the broker sinks, the local and the fan-out sinks, \<^verbatim>\<open>SinkConfig\<close> and
    \<^verbatim>\<open>create_sink\<close>.

  \<^bold>\<open>How code becomes definitions.\<close> A struct is a record, an enum a datatype, a method with \<^verbatim>\<open>&mut self\<close> a function that
  returns the new state. \<^verbatim>\<open>Result\<close> is \<^verbatim>\<open>'a result\<close> with \<^verbatim>\<open>Inl\<close> the error; a panic is \<^verbatim>\<open>None\<close>. Asynchronous calls into the
  outside thread a world of type \<^verbatim>\<open>'w\<close>. Third-party crates are records of functions passed as
  arguments: \<^verbatim>\<open>IpNetLib\<close> (ipnet), \<^verbatim>\<open>DnsLib\<close> (hickory), \<^verbatim>\<open>KafkaLib\<close> (rskafka), \<^verbatim>\<open>NatsLib\<close> (async-nats), \<^verbatim>\<open>IoLib\<close> (tokio's
  writers and the file system). What a property relies on of them is \<^verbatim>\<open>ipnet_lawful\<close>, \<^verbatim>\<open>dns_lawful\<close>,
  \<^verbatim>\<open>kafka_lawful\<close> and \<^verbatim>\<open>nats_lawful\<close>. The order of a hash map or hash set is the parameter \<^verbatim>\<open>visit\<close>, assumed only to
  permute its argument.

  \<^bold>\<open>Interfaces.\<close> \<^verbatim>\<open>merge_structure\<close> (what the fuser needs of a disjoint-set structure, met by \<^verbatim>\<open>UnionFind\<close>),
  \<^verbatim>\<open>streaming_fuser\<close> (ingest one target at a time, then finish; met by every fuser that \<^verbatim>\<open>create_fuser\<close> builds),
  \<^verbatim>\<open>planner\<close> (met by the DNS and the guarded resolver), \<^verbatim>\<open>at_least_once\<close> (met by the Kafka and the NATS sink).

  \<^bold>\<open>What is shown.\<close>
  \<^item> Identity: the emitted records are the classes of the correlation relation, each fused as specified; looking into
    buckets agrees with weighing all pairs when no bucket is over its cap; no signal or address is lost; the
    result does not depend on hash order; the binary64 weight falls in the band the decimal constants spell;
    the union-find never panics and computes the components.
  \<^item> Fuser stack: a validated configuration builds a fuser that never fails on probe outcomes; selection by name and
    its inverse; which table a MIB file denotes.
  \<^item> Topology: the links are given exactly by the sightings; what remains the same when targets complete in another
    order, and when everything does.
  \<^item> Scheduler: every target is delivered once with one outcome per prober, the loop ends, the number of live probes
    is bounded, a cancelled run delivers complete targets only, and the pacer never bursts.
  \<^item> Resolver: the stream of a plan, the exact verdict of the host cap and allow-list, replay of pinned names,
    and that the sweep names exactly the overlapping pairs.
  \<^item> Sinks: no record handed to a Kafka or NATS sink is lost between its buffers and the broker, whatever fails;
    a fan-out performs each operation on its children in order with the stated handling of errors and
    counters; the retry terminates on its schedule; the memory sink keeps its cap; counters of buffers agree
    with their contents; credentials are removed from server lists.
  \<^item> Divergences between code and documentation: an over-cap value still decides a merge, a possible alias can name
    a key that was merged away, a MIB row with an empty last column is rejected, a cancelled target may go
    unreported, credentials survive in server entries of some shapes.

  \<^bold>\<open>Loops and bounds.\<close> No definition uses fuel. The parent-chasing loops of the union-find are partial functions whose
  termination is part of the invariant; \<^verbatim>\<open>feed_next\<close> of the scheduler's feed, the retry loop and the NATS publish
  loops are functions with termination proofs; the scheduler's join loop is the step relation \<^verbatim>\<open>joins\<close>, proved
  to end. Sizes that the code keeps in \<^verbatim>\<open>usize\<close> are natural numbers; \<^verbatim>\<open>u8\<close>, \<^verbatim>\<open>u32\<close>, \<^verbatim>\<open>u64\<close>, \<^verbatim>\<open>u128\<close> values that can wrap or
  saturate are words. Strings range over U+0000 to U+00FF.

  \<^bold>\<open>Not modelled.\<close> The probers (socket and third-party protocol I/O; the scheduler passes them on), the classifier and
  the collection profiles (regular-expression tables), the encoders and every serde format, configuration
  loading and secrets, checkpoint files, the plan report, the pipeline's task and channel plumbing,
  telemetry, the server and command-line crates and the build tool. Log lines and the
  wording of interpolated error values are left out where no code inspects them.
\<close>

text \<open>C6: From a fresh forest over at most \<^verbatim>\<open>2^64\<close> records, performing the unions of any list of in-range
  pairs never panics (no rank overflow, every loop returns), and \<^verbatim>\<open>components\<close> then gives two records
  the same root exactly when a chain of the pairs connects them.\<close>

theorem union_find_components:
  assumes "n \<le> 2 ^ 64" "\<forall>(a, b) \<in> set es. a < n \<and> b < n"
  shows "\<exists>uf reps. union_all (uf_new n) es = Some uf \<and> uf_components uf = Some reps \<and> length reps = n \<and>
    (\<forall>i < n. \<forall>j < n. reps ! i = reps ! j \<longleftrightarrow> (i, j) \<in> linked es)"
proof -
  obtain uf where uf: "union_all (uf_new n) es = Some uf" "uf_invar uf" "length (uf_parent uf) = n"
    "\<And>i j. i < n \<Longrightarrow> j < n \<Longrightarrow> uf_same uf i j \<longleftrightarrow> (i, j) \<in> linked es"
    using union_all_linked [OF assms] by blast
  obtain reps where "uf_components uf = Some reps" "length reps = length (uf_parent uf)"
    "\<And>i j. i < length reps \<Longrightarrow> j < length reps \<Longrightarrow> reps ! i = reps ! j \<longleftrightarrow> uf_same uf i j"
    using uf_components_same [OF uf(2)] by blast
  then show ?thesis using uf by auto
qed

theorem union_find_components_witness:
  "\<exists>uf reps. union_all (uf_new 3) [(0, 2)] = Some uf \<and> uf_components uf = Some reps \<and> length reps = 3 \<and>
    (\<forall>i < 3. \<forall>j < 3. reps ! i = reps ! j \<longleftrightarrow> (i, j) \<in> linked [(0, 2)])"
  by (rule union_find_components) simp_all

end
